(* ===== verification/Xrpl_Prelude.thy ===== *)
theory Xrpl_Prelude
  imports Main "HOL-Library.Word"
begin

text \<open>
  Shared vocabulary of the development: the machine integers of the Go sources, the fixed-size
  byte arrays \<^verbatim>\<open>[32]byte\<close> and \<^verbatim>\<open>[20]byte\<close> as words of the same number of bits, errors as the left
  component of a sum, and the generic lemmas on lists, words and byte strings that the component
  theories use.  A Go array \<^verbatim>\<open>[32]byte\<close> is always 32 bytes long, so it is a 256-bit word read in
  big-endian order: byte \<open>i\<close> is bits \<open>8 * (31 - i)\<close> upward, \<^verbatim>\<open>bytes.Compare\<close> is the
  order of words, the zero array is \<open>0\<close>.
\<close>

unbundle bit_operations_syntax

type_synonym u8 = "8 word"
type_synonym u16 = "16 word"
type_synonym u32 = "32 word"
type_synonym u64 = "64 word"
type_synonym bytes = "u8 list"
type_synonym hash256 = "256 word"
type_synonym account_id = "160 word"

named_theorems byte_simps \<open>rewriting of byte strings, byte arrays and their encodings\<close>
named_theorems err_simps \<open>rewriting of the error monad\<close>

section \<open>Errors\<close>

definition bindE :: "'e + 'a \<Rightarrow> ('a \<Rightarrow> 'e + 'b) \<Rightarrow> 'e + 'b" where
  "bindE r f = (case r of Inl e \<Rightarrow> Inl e | Inr x \<Rightarrow> f x)"

lemma bindE_Inl [simp, err_simps]: "bindE (Inl e) f = Inl e"
  by (simp add: bindE_def)

lemma bindE_Inr [simp, err_simps]: "bindE (Inr x) f = f x"
  by (simp add: bindE_def)

lemma bindE_eq_Inr [err_simps]: "bindE r f = Inr y \<longleftrightarrow> (\<exists>x. r = Inr x \<and> f x = Inr y)"
  by (cases r) simp_all

lemma bindE_eq_Inl [err_simps]:
  "bindE r f = Inl e \<longleftrightarrow> r = Inl e \<or> (\<exists>x. r = Inr x \<and> f x = Inl e)"
  by (cases r) simp_all

lemma bindE_cong [fundef_cong]:
  "r = r' \<Longrightarrow> (\<And>x. r' = Inr x \<Longrightarrow> f x = f' x) \<Longrightarrow> bindE r f = bindE r' f'"
  by (cases r') simp_all

section \<open>Machine integers\<close>

lemma unat_ucast_32_64 [simp]: "unat (ucast (x :: u32) :: u64) = unat x"
  using unsigned_less[of x, where 'a = nat] by (simp add: unsigned_ucast_eq take_bit_nat_eq_self)

lemma unat_lt_32: "unat (x :: u32) < 2 ^ 32"
  using unsigned_less[of x, where 'a = nat] by simp

section \<open>Bytes of a fixed-size array\<close>

definition byte_at :: "hash256 \<Rightarrow> nat \<Rightarrow> u8" where
  "byte_at w i = ucast (drop_bit (8 * (31 - i)) w)"

definition set_byte :: "hash256 \<Rightarrow> nat \<Rightarrow> u8 \<Rightarrow> hash256" where
  "set_byte w i b =
     ((w AND NOT (push_bit (8 * (31 - i)) (mask 8))) OR push_bit (8 * (31 - i)) (ucast b))"

definition hash_bytes :: "hash256 \<Rightarrow> bytes" where
  "hash_bytes w = map (byte_at w) [0..<32]"

text \<open>\<^verbatim>\<open>copy(key[:], data)\<close> into a zero array: at most 32 bytes, byte by byte.\<close>

definition hash_of_bytes :: "bytes \<Rightarrow> hash256" where
  "hash_of_bytes bs = fold (\<lambda>i w. set_byte w i (bs ! i)) [0..<min 32 (length bs)] 0"

lemma bit_byte_at: "i < 32 \<Longrightarrow> bit (byte_at w i) n \<longleftrightarrow> n < 8 \<and> bit w (8 * (31 - i) + n)"
  by (auto simp: byte_at_def bit_simps)

lemma bit_set_byte:
  assumes "i < 32" "n < 256"
  shows "bit (set_byte w i b) n \<longleftrightarrow>
    (if n div 8 = 31 - i then bit b (n mod 8) else bit w n)"
proof (cases "n div 8 = 31 - i")
  case True
  then have "8 * (31 - i) \<le> n" "n - 8 * (31 - i) = n mod 8"
    by (simp_all add: minus_mult_div_eq_mod flip: True)
  with True assms show ?thesis
    by (auto simp: set_byte_def bit_simps)
next
  case False
  then have "n < 8 * (31 - i) \<or> 8 \<le> n - 8 * (31 - i)" by auto
  moreover have "\<not> bit b m" if "8 \<le> m" for m
    using that by (auto dest: bit_imp_le_length)
  ultimately show ?thesis
    using False assms by (auto simp: set_byte_def bit_simps not_le not_less)
qed

lemma hash_eqI_bytes:
  assumes "\<And>i. i < 32 \<Longrightarrow> byte_at v i = byte_at w i"
  shows "v = w"
proof (rule bit_word_eqI)
  fix n assume "n < LENGTH(256)"
  then have n: "n < 256" by simp
  define i where "i = 31 - n div 8"
  have i: "i < 32" and e: "8 * (31 - i) + n mod 8 = n"
    using n by (auto simp: i_def)
  have "bit (byte_at v i) (n mod 8) = bit (byte_at w i) (n mod 8)"
    using assms[OF i] by simp
  then show "bit v n = bit w n" using i e by (simp add: bit_byte_at)
qed

lemma byte_at_set_byte [byte_simps]:
  assumes "i < 32" "j < 32"
  shows "byte_at (set_byte w i b) j = (if i = j then b else byte_at w j)"
proof (rule bit_word_eqI)
  fix n assume "n < LENGTH(8)"
  then have n: "n < 8" by simp
  have 1: "8 * (31 - j) + n < 256" using n assms by auto
  have 2: "(8 * (31 - j) + n) div 8 = 31 - j" "(8 * (31 - j) + n) mod 8 = n" using n by auto
  show "bit (byte_at (set_byte w i b) j) n = bit (if i = j then b else byte_at w j) n"
    using assms n 2 by (auto simp: bit_byte_at bit_set_byte[OF assms(1) 1])
qed

lemma length_hash_bytes [simp]: "length (hash_bytes w) = 32"
  by (simp add: hash_bytes_def)

lemma nth_hash_bytes [byte_simps]: "i < 32 \<Longrightarrow> hash_bytes w ! i = byte_at w i"
  by (simp add: hash_bytes_def)

lemma hash_bytes_inject [simp]: "hash_bytes v = hash_bytes w \<longleftrightarrow> v = w"
proof
  assume eq: "hash_bytes v = hash_bytes w"
  show "v = w"
    by (rule hash_eqI_bytes) (metis eq nth_hash_bytes)
qed simp

lemma byte_at_fold_set_byte:
  assumes "n \<le> 32" "i < 32"
  shows "byte_at (fold (\<lambda>j w. set_byte w j (f j)) [0..<n] w) i = (if i < n then f i else byte_at w i)"
  using assms(1)
proof (induction n)
  case (Suc n)
  then show ?case using assms(2) by (auto simp: byte_at_set_byte less_Suc_eq)
qed simp

lemma byte_at_zero [simp]: "byte_at 0 i = 0"
  by (simp add: byte_at_def)

lemma byte_at_hash_of_bytes [byte_simps]:
  "i < 32 \<Longrightarrow> byte_at (hash_of_bytes bs) i = (if i < length bs then bs ! i else 0)"
  by (simp add: hash_of_bytes_def byte_at_fold_set_byte)

lemma hash_of_bytes_inverse [simp]: "hash_of_bytes (hash_bytes w) = w"
  by (rule hash_eqI_bytes) (simp add: byte_simps)

lemma hash_bytes_inverse: "length bs = 32 \<Longrightarrow> hash_bytes (hash_of_bytes bs) = bs"
  by (rule nth_equalityI) (simp_all add: byte_simps)

end
