(* ===== verification/Serdes.thy ===== *)
theory Serdes
  imports Xrpl_Prelude
begin

text \<open>
  The binary field codec of \<^verbatim>\<open>src/codec/binarycodec/serdes\<close>: the parser over a byte cursor
  (\<open>ReadByte\<close>, \<open>ReadBytes\<close>, \<open>readFieldHeader\<close>, \<open>ReadVariableLength\<close>, \<open>ReadField\<close>), the
  field-id encoder and the serializer sink.  The definitions document that the build embeds is the
  parameter \<open>defs\<close>: the two tables the codec reads.  A parser is the record of its unread bytes; an
  operation returns the value and the advanced parser, or the error.  The contract of a
  self-delimiting code is the locale \<open>prefix_code\<close>; the length prefix and the field header are its
  two interpretations.
\<close>

section \<open>Definitions tables\<close>

record field_header =
  TypeCode :: int
  FieldCode :: int

record field_instance =
  FieldName :: string
  IsVLEncoded :: bool
  FieldType :: string
  FieldHeader :: field_header

record definitions =
  def_fields :: "string \<Rightarrow> field_instance option"
  fieldIDNameMap :: "field_header \<Rightarrow> string option"

datatype serdes_error =
    ErrParserOutOfBound
  | ErrInvalidTypecode
  | ErrInvalidFieldcode
  | ErrInvalidVLPrefix
  | ErrVariableLengthTooLong
  | ErrLengthPrefixTooLong
  | NotFoundError string
  | NotFoundErrorFieldHeader field_header

definition FieldHeaderByName :: "definitions \<Rightarrow> string \<Rightarrow> serdes_error + field_header" where
  "FieldHeaderByName d n =
     (case def_fields d n of None \<Rightarrow> Inl (NotFoundError n) | Some fi \<Rightarrow> Inr (FieldHeader fi))"

definition FieldNameByHeader :: "definitions \<Rightarrow> field_header \<Rightarrow> serdes_error + string" where
  "FieldNameByHeader d fh =
     (case fieldIDNameMap d fh of None \<Rightarrow> Inl (NotFoundErrorFieldHeader fh) | Some n \<Rightarrow> Inr n)"

definition FieldInstanceByName :: "definitions \<Rightarrow> string \<Rightarrow> serdes_error + field_instance" where
  "FieldInstanceByName d n =
     (case def_fields d n of None \<Rightarrow> Inl (NotFoundError n) | Some fi \<Rightarrow> Inr fi)"

section \<open>The parser\<close>

record parser =
  pdata :: bytes
  allowOverCap :: bool

definition NewBinaryParser :: "bytes \<Rightarrow> parser" where
  "NewBinaryParser d = \<lparr>pdata = d, allowOverCap = False\<rparr>"

definition NewBinaryParserAllowOverCap :: "bytes \<Rightarrow> parser" where
  "NewBinaryParserAllowOverCap d = \<lparr>pdata = d, allowOverCap = True\<rparr>"

definition ReadByte :: "parser \<Rightarrow> serdes_error + u8 \<times> parser" where
  "ReadByte p =
     (case pdata p of [] \<Rightarrow> Inl ErrParserOutOfBound
      | b # bs \<Rightarrow> Inr (b, p\<lparr>pdata := bs\<rparr>))"

definition Peek :: "parser \<Rightarrow> serdes_error + u8" where
  "Peek p = (case pdata p of [] \<Rightarrow> Inl ErrParserOutOfBound | b # bs \<Rightarrow> Inr b)"

definition ReadBytes :: "int \<Rightarrow> parser \<Rightarrow> serdes_error + bytes \<times> parser" where
  "ReadBytes n p =
     (if n < 0 then Inl ErrParserOutOfBound
      else if int (length (pdata p)) < n then Inl ErrParserOutOfBound
      else Inr (take (nat n) (pdata p), p\<lparr>pdata := drop (nat n) (pdata p)\<rparr>))"

definition HasMore :: "parser \<Rightarrow> bool" where
  "HasMore p \<longleftrightarrow> length (pdata p) \<noteq> 0"

definition Remaining :: "parser \<Rightarrow> nat" where
  "Remaining p = length (pdata p)"

definition readFieldHeader :: "parser \<Rightarrow> serdes_error + field_header \<times> parser" where
  "readFieldHeader p =
     bindE (ReadByte p) (\<lambda>(b, p).
       let fieldCode = b AND 15; typeCode = drop_bit 4 b in
       bindE (if typeCode = 0
              then bindE (ReadByte p) (\<lambda>(t, p).
                     if t = 0 \<or> t < 16 then Inl ErrInvalidTypecode else Inr (t, p))
              else Inr (typeCode, p)) (\<lambda>(typeCode, p).
       bindE (if fieldCode = 0
              then bindE (ReadByte p) (\<lambda>(f, p).
                     if f = 0 \<or> f < 16 then Inl ErrInvalidFieldcode else Inr (f, p))
              else Inr (fieldCode, p)) (\<lambda>(fieldCode, p).
       Inr (\<lparr>TypeCode = uint typeCode, FieldCode = uint fieldCode\<rparr>, p))))"

definition ReadField :: "definitions \<Rightarrow> parser \<Rightarrow> serdes_error + field_instance \<times> parser" where
  "ReadField d p =
     bindE (readFieldHeader p) (\<lambda>(fh, p).
       bindE (FieldNameByHeader d fh) (\<lambda>fn.
         bindE (FieldInstanceByName d fn) (\<lambda>f. Inr (f, p))))"

definition ReadVariableLength :: "parser \<Rightarrow> serdes_error + int \<times> parser" where
  "ReadVariableLength p =
     bindE (ReadByte p) (\<lambda>(b1, p).
       if b1 \<le> 192 then Inr (uint b1, p)
       else if b1 \<le> 240 then
         bindE (ReadByte p) (\<lambda>(b2, p). Inr (193 + (uint b1 - 193) * 256 + uint b2, p))
       else if b1 \<le> 254 then
         bindE (ReadByte p) (\<lambda>(b2, p).
           bindE (ReadByte p) (\<lambda>(b3, p).
             let len = 12481 + (uint b1 - 241) * 65536 + uint b2 * 256 + uint b3 in
             if len > 918744 then Inl ErrVariableLengthTooLong else Inr (len, p)))
       else Inl ErrInvalidVLPrefix)"

section \<open>The serializer\<close>

definition encodeVariableLength :: "int \<Rightarrow> serdes_error + bytes" where
  "encodeVariableLength len =
     (if len < 0 then Inl ErrLengthPrefixTooLong
      else if len \<le> 192 then Inr [word_of_int len]
      else if len \<le> 12480 then
        (let l = len - 193 in
         Inr [word_of_int (drop_bit 8 l + 193), word_of_int (l AND 255)])
      else if len \<le> 918744 then
        (let l = len - 12481 in
         Inr [word_of_int (drop_bit 16 l + 241), word_of_int (drop_bit 8 l AND 255),
              word_of_int (l AND 255)])
      else Inl ErrLengthPrefixTooLong)"

text \<open>\<open>FieldIDCodec.Encode\<close> after its table lookup, and with it.\<close>

definition encodeFieldHeader :: "field_header \<Rightarrow> bytes" where
  "encodeFieldHeader fh =
     (let t = TypeCode fh; f = FieldCode fh in
      if t < 16 \<and> f < 16 then [word_of_int (push_bit 4 t) OR word_of_int f]
      else if t \<ge> 16 \<and> f < 16 then [word_of_int f, word_of_int t]
      else if t < 16 \<and> f \<ge> 16 then [word_of_int (push_bit 4 t), word_of_int f]
      else [0, word_of_int t, word_of_int f])"

definition Encode :: "definitions \<Rightarrow> string \<Rightarrow> serdes_error + bytes" where
  "Encode d fieldName =
     bindE (FieldHeaderByName d fieldName) (\<lambda>fh. Inr (encodeFieldHeader fh))"

text \<open>
  \<open>WriteFieldAndValue\<close> appends to the sink.  On an error the sink keeps what was written so far:
  the pair of the error (if any) and the sink is the result.
\<close>

definition WriteFieldAndValue ::
  "definitions \<Rightarrow> bytes \<Rightarrow> field_instance \<Rightarrow> bytes \<Rightarrow> serdes_error option \<times> bytes" where
  "WriteFieldAndValue d sink fi value =
     (case Encode d (FieldName fi) of
        Inl e \<Rightarrow> (Some e, sink)
      | Inr h \<Rightarrow>
          (let sink = sink @ h in
           case (if IsVLEncoded fi then encodeVariableLength (int (length value)) else Inr []) of
             Inl e \<Rightarrow> (Some e, sink)
           | Inr vl \<Rightarrow>
               (let sink = sink @ vl @ value in
                (None, if FieldType fi = ''STObject'' then sink @ [0xE1] else sink))))"

section \<open>Self-delimiting codes\<close>

text \<open>
  The contract between an encoder and the decoder of a cursor: an accepted value has a non-empty
  code, decoding a code gives the value back and leaves the rest of the input, and whatever the
  decoder accepts is the code of the value it returns.
\<close>

locale prefix_code =
  fixes enc :: "'a \<Rightarrow> 'e + bytes"
    and dec :: "'p \<Rightarrow> 'e + 'a \<times> 'p"
    and unread :: "'p \<Rightarrow> bytes"
    and advance :: "bytes \<Rightarrow> 'p \<Rightarrow> 'p"
    and ok :: "'a \<Rightarrow> bool"
  assumes enc_defined: "ok x \<Longrightarrow> \<exists>h. enc x = Inr h \<and> h \<noteq> []"
    and dec_enc: "ok x \<Longrightarrow> enc x = Inr h \<Longrightarrow> unread p = h @ rest \<Longrightarrow> dec p = Inr (x, advance rest p)"
    and dec_sound: "dec p = Inr (x, q) \<Longrightarrow>
      ok x \<and> (\<exists>h rest. enc x = Inr h \<and> unread p = h @ rest \<and> q = advance rest p)"
    and unread_advance: "unread (advance bs p) = bs"
begin

lemma prefix_free:
  assumes "ok x" "ok y" "enc x = Inr h" "enc y = Inr k" "h @ r = k @ s"
  shows "x = y \<and> r = s"
proof -
  have "dec (advance (h @ r) p) = Inr (x, advance r (advance (h @ r) p))" for p
    by (rule dec_enc[OF assms(1,3)]) (simp add: unread_advance)
  moreover have "dec (advance (h @ r) p) = Inr (y, advance s (advance (h @ r) p))" for p
    by (rule dec_enc[OF assms(2,4)]) (simp add: unread_advance assms(5))
  ultimately have "x = y" and "advance r (advance (h @ r) p) = advance s (advance (h @ r) p)" for p
    by auto
  then show ?thesis by (metis unread_advance)
qed

lemma dec_progress:
  assumes "dec p = Inr (x, q)"
  shows "length (unread q) < length (unread p)"
proof -
  obtain h rest where "ok x" "enc x = Inr h" "unread p = h @ rest" "q = advance rest p"
    using dec_sound[OF assms] by blast
  moreover have "h \<noteq> []" using enc_defined[OF \<open>ok x\<close>] \<open>enc x = Inr h\<close> by auto
  ultimately show ?thesis by (simp add: unread_advance)
qed

end

section \<open>The length prefix\<close>

definition vl_ok :: "int \<Rightarrow> bool" where
  "vl_ok n \<longleftrightarrow> 0 \<le> n \<and> n \<le> 918744"

definition header_ok :: "field_header \<Rightarrow> bool" where
  "header_ok fh \<longleftrightarrow> 1 \<le> TypeCode fh \<and> TypeCode fh \<le> 255 \<and> 1 \<le> FieldCode fh \<and> FieldCode fh \<le> 255"

lemma ReadByte_Cons [simp]: "pdata p = b # bs \<Longrightarrow> ReadByte p = Inr (b, p\<lparr>pdata := bs\<rparr>)"
  by (simp add: ReadByte_def)

lemma ReadByte_eq_Inr: "ReadByte p = Inr (b, q) \<longleftrightarrow> pdata p = b # pdata q \<and> q = p\<lparr>pdata := pdata q\<rparr>"
  by (cases "pdata p") (auto simp: ReadByte_def)

lemma and_255_int: "(l :: int) AND 255 = l mod 256"
proof -
  have "(255 :: int) = mask 8" by (simp add: mask_eq_exp_minus_1)
  then show ?thesis by (simp only: take_bit_eq_mask[symmetric]) (simp add: take_bit_eq_mod)
qed

lemma uint_byte_of_int: "0 \<le> k \<Longrightarrow> k < 256 \<Longrightarrow> uint (word_of_int k :: u8) = k"
  by (simp add: uint_word_of_int)

lemma base256_split:
  fixes x y r :: int
  assumes "0 \<le> r" "r < 256"
  shows "y = x * 256 + r \<longleftrightarrow> y div 256 = x \<and> y mod 256 = r"
proof
  assume y: "y = x * 256 + r"
  show "y div 256 = x \<and> y mod 256 = r" using assms by (simp add: y)
next
  assume "y div 256 = x \<and> y mod 256 = r"
  then show "y = x * 256 + r" using div_mult_mod_eq[of y 256] by simp
qed

lemma vl_split2:
  fixes n a b :: int
  assumes "0 \<le> b" "b < 256"
  shows "193 + (a - 193) * 256 + b = n \<longleftrightarrow> (n - 193) div 256 + 193 = a \<and> (n - 193) mod 256 = b"
  using base256_split[OF assms, of "n - 193" "a - 193"] by auto

lemma vl_split3:
  fixes n a b c :: int
  assumes "0 \<le> b" "b < 256" "0 \<le> c" "c < 256"
  shows "12481 + (a - 241) * 65536 + b * 256 + c = n \<longleftrightarrow>
    (n - 12481) div 65536 + 241 = a \<and> (n - 12481) div 256 mod 256 = b \<and> (n - 12481) mod 256 = c"
proof -
  have d: "(n - 12481) div 65536 = (n - 12481) div 256 div 256"
    by (simp add: zdiv_zmult2_eq[of 256 _ 256, simplified])
  show ?thesis
    using base256_split[OF assms(3,4), of "n - 12481" "(a - 241) * 256 + b"]
      base256_split[OF assms(1,2), of "(n - 12481) div 256" "a - 241"]
    unfolding d by auto
qed

lemma vl_range2:
  fixes n :: int
  assumes "193 \<le> n" "n \<le> 12480"
  shows "193 \<le> (n - 193) div 256 + 193 \<and> (n - 193) div 256 + 193 \<le> 240"
  using zdiv_mono1[of "n - 193" 12287 256] pos_imp_zdiv_nonneg_iff[of 256 "n - 193"] assms by simp

lemma vl_value2:
  fixes a b :: int
  assumes "193 \<le> a" "a \<le> 240" "0 \<le> b" "b < 256"
  shows "193 \<le> 193 + (a - 193) * 256 + b \<and> 193 + (a - 193) * 256 + b \<le> 12480"
  using assms by simp

lemma vl_value3:
  fixes a b c :: int
  assumes "241 \<le> a" "0 \<le> b" "0 \<le> c"
  shows "12481 \<le> 12481 + (a - 241) * 65536 + b * 256 + c"
  using assms by simp

lemma vl_range3:
  fixes n :: int
  assumes "12481 \<le> n" "n \<le> 918744"
  shows "241 \<le> (n - 12481) div 65536 + 241 \<and> (n - 12481) div 65536 + 241 \<le> 254"
  using zdiv_mono1[of "n - 12481" 906263 65536] pos_imp_zdiv_nonneg_iff[of 65536 "n - 12481"] assms
  by simp

lemma uint_u8_bounds [simp]: "0 \<le> uint (b :: u8)" "uint (b :: u8) < 256"
  using uint_bounded[of b] by simp_all

lemma uint_u8_le_255 [simp]: "uint (b :: u8) \<le> 255"
  using uint_u8_bounds(2)[of b] by linarith

lemma ReadVariableLength_1:
  "pdata p = b1 # rest \<Longrightarrow> uint b1 \<le> 192 \<Longrightarrow> ReadVariableLength p = Inr (uint b1, p\<lparr>pdata := rest\<rparr>)"
  by (simp add: ReadVariableLength_def word_le_def)

lemma ReadVariableLength_2:
  "pdata p = b1 # b2 # rest \<Longrightarrow> 193 \<le> uint b1 \<Longrightarrow> uint b1 \<le> 240 \<Longrightarrow>
     ReadVariableLength p = Inr (193 + (uint b1 - 193) * 256 + uint b2, p\<lparr>pdata := rest\<rparr>)"
  by (simp add: ReadVariableLength_def word_le_def)

lemma ReadVariableLength_3:
  "pdata p = b1 # b2 # b3 # rest \<Longrightarrow> 241 \<le> uint b1 \<Longrightarrow> uint b1 \<le> 254 \<Longrightarrow>
     12481 + (uint b1 - 241) * 65536 + uint b2 * 256 + uint b3 \<le> 918744 \<Longrightarrow>
     ReadVariableLength p =
       Inr (12481 + (uint b1 - 241) * 65536 + uint b2 * 256 + uint b3, p\<lparr>pdata := rest\<rparr>)"
  by (simp add: ReadVariableLength_def word_le_def)

lemma encodeVariableLength_1:
  "0 \<le> n \<Longrightarrow> n \<le> 192 \<Longrightarrow> \<exists>b1. encodeVariableLength n = Inr [b1] \<and> uint b1 = n"
  by (simp add: encodeVariableLength_def uint_byte_of_int)

lemma encodeVariableLength_2:
  assumes "193 \<le> n" "n \<le> 12480"
  shows "\<exists>b1 b2. encodeVariableLength n = Inr [b1, b2] \<and>
    uint b1 = (n - 193) div 256 + 193 \<and> uint b2 = (n - 193) mod 256"
proof -
  have "0 \<le> (n - 193) div 256 + 193" "(n - 193) div 256 + 193 < 256"
    using vl_range2[OF assms] by simp_all
  with assms show ?thesis
    by (simp add: encodeVariableLength_def Let_def drop_bit_eq_div and_255_int uint_byte_of_int
        del: of_int_add)
qed

lemma encodeVariableLength_3:
  assumes "12481 \<le> n" "n \<le> 918744"
  shows "\<exists>b1 b2 b3. encodeVariableLength n = Inr [b1, b2, b3] \<and>
    uint b1 = (n - 12481) div 65536 + 241 \<and> uint b2 = (n - 12481) div 256 mod 256 \<and>
    uint b3 = (n - 12481) mod 256"
proof -
  have "0 \<le> (n - 12481) div 65536 + 241" "(n - 12481) div 65536 + 241 < 256"
    using vl_range3[OF assms] by simp_all
  with assms show ?thesis
    by (simp add: encodeVariableLength_def Let_def drop_bit_eq_div and_255_int uint_byte_of_int
        del: of_int_add)
qed

lemma ReadVariableLength_encode:
  assumes "vl_ok n" "encodeVariableLength n = Inr h" "pdata p = h @ rest"
  shows "ReadVariableLength p = Inr (n, p\<lparr>pdata := rest\<rparr>)"
proof -
  consider "0 \<le> n" "n \<le> 192" | "193 \<le> n" "n \<le> 12480" | "12481 \<le> n" "n \<le> 918744"
    using assms(1) unfolding vl_ok_def by atomize_elim arith
  then show ?thesis
  proof cases
    case 1
    with encodeVariableLength_1[OF 1] assms(2,3) show ?thesis
      by (auto simp: ReadVariableLength_1)
  next
    case 2
    then obtain b1 b2 where p: "pdata p = b1 # b2 # rest"
      and b: "uint b1 = (n - 193) div 256 + 193" "uint b2 = (n - 193) mod 256"
      using encodeVariableLength_2[OF 2] assms(2,3) by auto
    have "193 \<le> uint b1" "uint b1 \<le> 240"
      using vl_range2[OF 2] b by simp_all
    moreover have "193 + (uint b1 - 193) * 256 + uint b2 = n"
      using b by (simp only: vl_split2 uint_u8_bounds)
    ultimately show ?thesis by (simp add: ReadVariableLength_2[OF p])
  next
    case 3
    then obtain b1 b2 b3 where p: "pdata p = b1 # b2 # b3 # rest"
      and b: "uint b1 = (n - 12481) div 65536 + 241" "uint b2 = (n - 12481) div 256 mod 256"
        "uint b3 = (n - 12481) mod 256"
      using encodeVariableLength_3[OF 3] assms(2,3) by auto
    have "241 \<le> uint b1" "uint b1 \<le> 254"
      using vl_range3[OF 3] b by simp_all
    moreover have "12481 + (uint b1 - 241) * 65536 + uint b2 * 256 + uint b3 = n"
      using b by (simp only: vl_split3 uint_u8_bounds)
    ultimately show ?thesis using 3 by (simp add: ReadVariableLength_3[OF p])
  qed
qed

lemma ReadVariableLength_sound:
  assumes "ReadVariableLength p = Inr (n, q)"
  shows "vl_ok n \<and> (\<exists>h rest. encodeVariableLength n = Inr h \<and> pdata p = h @ rest \<and> q = p\<lparr>pdata := rest\<rparr>)"
proof -
  obtain b1 bs where p: "pdata p = b1 # bs"
    using assms by (cases "pdata p") (auto simp: ReadVariableLength_def ReadByte_def)
  have u: "0 \<le> uint b" "uint b < 256" for b :: u8
    using uint_bounded[of b] by simp_all
  consider "uint b1 \<le> 192" | "193 \<le> uint b1" "uint b1 \<le> 240" | "241 \<le> uint b1" "uint b1 \<le> 254"
    | "uint b1 = 255"
    using u(2)[of b1] by atomize_elim arith
  then show ?thesis
  proof cases
    case 1
    then show ?thesis using assms p u(1)[of b1]
      by (auto simp: ReadVariableLength_1[OF p] vl_ok_def encodeVariableLength_def)
  next
    case 2
    then obtain b2 cs where bs: "bs = b2 # cs" and n: "n = 193 + (uint b1 - 193) * 256 + uint b2"
      and q: "q = p\<lparr>pdata := cs\<rparr>"
      using assms p by (cases bs) (auto simp: ReadVariableLength_def word_le_def ReadByte_def)
    have le: "193 \<le> n" "n \<le> 12480"
      using vl_value2[OF 2 uint_u8_bounds, of b2] unfolding n by simp_all
    have "(n - 193) div 256 + 193 = uint b1" "(n - 193) mod 256 = uint b2"
      using n[symmetric] by (simp_all only: vl_split2 uint_u8_bounds)
    with encodeVariableLength_2[OF le] have "encodeVariableLength n = Inr [b1, b2]"
      by (auto simp: word_uint_eq_iff)
    then show ?thesis using p bs q le by (simp add: vl_ok_def)
  next
    case 3
    then obtain b2 b3 cs where bs: "bs = b2 # b3 # cs"
      and n: "n = 12481 + (uint b1 - 241) * 65536 + uint b2 * 256 + uint b3"
      and q: "q = p\<lparr>pdata := cs\<rparr>" and le2: "n \<le> 918744"
      using assms p by (cases bs; cases "tl bs")
        (auto simp: ReadVariableLength_def word_le_def ReadByte_def Let_def split: if_splits)
    have le: "12481 \<le> n"
      using vl_value3[OF 3(1) uint_u8_bounds(1) uint_u8_bounds(1), of b2 b3] unfolding n by simp
    have "(n - 12481) div 65536 + 241 = uint b1" "(n - 12481) div 256 mod 256 = uint b2"
      "(n - 12481) mod 256 = uint b3"
      using n[symmetric] by (simp_all only: vl_split3 uint_u8_bounds)
    with encodeVariableLength_3[OF le le2] have "encodeVariableLength n = Inr [b1, b2, b3]"
      by (auto simp: word_uint_eq_iff)
    then show ?thesis using p bs q le le2 by (simp add: vl_ok_def)
  next
    case 4
    then show ?thesis using assms p by (simp add: ReadVariableLength_def word_le_def)
  qed
qed

interpretation vl: prefix_code encodeVariableLength ReadVariableLength pdata
  "\<lambda>bs p. p\<lparr>pdata := bs\<rparr>" vl_ok
proof unfold_locales
  show "\<exists>h. encodeVariableLength n = Inr h \<and> h \<noteq> []" if "vl_ok n" for n
    using that by (auto simp: vl_ok_def encodeVariableLength_def Let_def)
qed (use ReadVariableLength_encode ReadVariableLength_sound in auto)

section \<open>The field header\<close>

lemma div_less_of_bound:
  fixes x :: int
  assumes "0 \<le> x" "x < 256"
  shows "0 \<le> x div 2 ^ 4 \<and> x div 2 ^ 4 < 16"
  using assms zdiv_mono1[of x 255 16] pos_imp_zdiv_nonneg_iff[of 16 x] by simp

lemma uint_drop_bit_u8: "uint (drop_bit n (b :: u8)) = drop_bit n (uint b)"
  by (rule bit_eqI) (auto simp: bit_simps dest: bit_imp_le_length)

lemma byte_nibbles:
  fixes t f :: int
  assumes "0 \<le> t" "t < 16" "0 \<le> f" "f < 16"
  defines "b \<equiv> (word_of_int (push_bit 4 t) OR word_of_int f :: u8)"
  shows "uint (b AND 15) = f" "uint (drop_bit 4 b) = t"
proof -
  have "push_bit 4 t = t * 16" by (simp add: push_bit_eq_mult)
  have n15: "(15 :: int) = mask 4" by (simp add: mask_eq_exp_minus_1)
  have tk: "take_bit 4 f = f" "take_bit 4 t = t" using assms by (simp_all add: take_bit_int_eq_self)
  have u: "uint b = push_bit 4 t OR f"
  proof -
    have "uint b = take_bit 8 (push_bit 4 t OR f)"
      by (simp add: b_def uint_or unsigned_of_int take_bit_or)
    also have "\<dots> = push_bit 4 t OR f"
    proof -
      have "take_bit 8 f = f" using assms by (simp add: take_bit_int_eq_self)
      moreover have "take_bit 8 (push_bit 4 t) = push_bit 4 t"
        using assms by (simp add: take_bit_int_eq_self push_bit_eq_mult)
      ultimately show ?thesis by simp
    qed
    finally show ?thesis .
  qed
  have "uint (15 :: u8) = 15" by simp
  then have "uint (b AND 15) = (push_bit 4 t OR f) AND 15"
    by (simp only: uint_and u)
  also have "\<dots> = take_bit 4 (push_bit 4 t OR f)"
    by (simp only: n15 take_bit_eq_mask)
  also have "\<dots> = f" by (simp add: tk take_bit_push_bit)
  finally show "uint (b AND 15) = f" .
  have "uint (drop_bit 4 b) = drop_bit 4 (uint b)" by (rule uint_drop_bit_u8)
  also have "\<dots> = t OR drop_bit 4 f"
    by (simp add: u drop_bit_or) (simp add: drop_bit_eq_div push_bit_eq_mult)
  also have "drop_bit 4 f = 0" using assms by (simp add: drop_bit_eq_div)
  finally show "uint (drop_bit 4 b) = t" by simp
qed

lemma byte_from_nibbles: "(b :: u8) = word_of_int (push_bit 4 (uint (drop_bit 4 b))) OR word_of_int (uint (b AND 15))"
proof (rule bit_word_eqI)
  fix n assume "n < LENGTH(8)"
  have n15: "(15 :: u8) = mask 4" by (simp add: mask_eq_exp_minus_1)
  show "bit b n = bit (word_of_int (push_bit 4 (uint (drop_bit 4 b))) OR word_of_int (uint (b AND 15)) :: u8) n"
    using \<open>n < LENGTH(8)\<close> by (auto simp: n15 bit_simps simp del: word_of_int_uint)
qed

lemma readFieldHeader_cases:
  "readFieldHeader p =
     (case pdata p of [] \<Rightarrow> Inl ErrParserOutOfBound
      | b # bs \<Rightarrow>
        (case (if drop_bit 4 b = 0
               then (case bs of [] \<Rightarrow> Inl ErrParserOutOfBound
                     | t # bs \<Rightarrow> if t < 16 then Inl ErrInvalidTypecode else Inr (t, bs))
               else Inr (drop_bit 4 b, bs)) of
           Inl e \<Rightarrow> Inl e
         | Inr (t, bs) \<Rightarrow>
           (case (if b AND 15 = 0
                  then (case bs of [] \<Rightarrow> Inl ErrParserOutOfBound
                        | f # bs \<Rightarrow> if f < 16 then Inl ErrInvalidFieldcode else Inr (f, bs))
                  else Inr (b AND 15, bs)) of
              Inl e \<Rightarrow> Inl e
            | Inr (f, bs) \<Rightarrow> Inr (\<lparr>TypeCode = uint t, FieldCode = uint f\<rparr>, p\<lparr>pdata := bs\<rparr>))))"
proof -
  have z: "(t = 0 \<or> t < 16) = (t < 16)" for t :: u8
    by (auto simp: word_less_def)
  show ?thesis
    by (simp add: readFieldHeader_def ReadByte_def bindE_def Let_def z split: list.splits)
qed

lemma u8_lt_16: "(t :: u8) < 16 \<longleftrightarrow> uint t < 16"
  by (simp add: word_less_def)

lemma u8_eq_0: "(t :: u8) = 0 \<longleftrightarrow> uint t = 0"
  by (simp add: word_uint_eq_iff)

lemma readFieldHeader_encode:
  assumes "header_ok fh" "pdata p = encodeFieldHeader fh @ rest"
  shows "readFieldHeader p = Inr (fh, p\<lparr>pdata := rest\<rparr>)"
proof -
  define t f where tf: "t = TypeCode fh" "f = FieldCode fh"
  have r: "1 \<le> t" "t \<le> 255" "1 \<le> f" "f \<le> 255" using assms(1) by (auto simp: header_ok_def tf)
  have fh: "\<lparr>TypeCode = t, FieldCode = f\<rparr> = fh" by (simp add: tf)
  note d = readFieldHeader_cases u8_lt_16 u8_eq_0 encodeFieldHeader_def Let_def uint_byte_of_int
  consider "t < 16" "f < 16" | "16 \<le> t" "f < 16" | "t < 16" "16 \<le> f" | "16 \<le> t" "16 \<le> f"
    by linarith
  then show ?thesis
  proof cases
    case 1
    have "0 \<le> t" "0 \<le> f" using r by auto
    note n = byte_nibbles[OF this(1) 1(1) this(2) 1(2)]
    show ?thesis using 1 r assms(2) fh n by (simp add: d flip: tf)
  next
    case 2
    have n: "uint ((word_of_int f :: u8) AND 15) = f" "uint (drop_bit 4 (word_of_int f :: u8)) = 0"
      using byte_nibbles[of 0 f] 2 r by simp_all
    show ?thesis using 2 r assms(2) fh n by (simp add: d flip: tf)
  next
    case 3
    have n: "uint ((word_of_int (push_bit 4 t) :: u8) AND 15) = 0" "uint (drop_bit 4 (word_of_int (push_bit 4 t) :: u8)) = t"
      using byte_nibbles[of t 0] 3 r by simp_all
    show ?thesis using 3 r assms(2) fh n by (simp add: d flip: tf)
  next
    case 4
    show ?thesis using 4 r assms(2) fh by (simp add: d flip: tf)
  qed
qed

lemma readFieldHeader_sound:
  assumes "readFieldHeader p = Inr (fh, q)"
  shows "header_ok fh \<and> (\<exists>rest. pdata p = encodeFieldHeader fh @ rest \<and> q = p\<lparr>pdata := rest\<rparr>)"
proof -
  obtain b bs where p: "pdata p = b # bs"
    using assms by (auto simp: readFieldHeader_cases split: list.splits)
  define hi lo where hl: "hi = uint (drop_bit 4 b)" "lo = uint (b AND 15)"
  have b: "b = word_of_int (push_bit 4 hi) OR word_of_int lo"
    unfolding hl by (rule byte_from_nibbles)
  have "uint (15 :: u8) = 15" by simp
  then have "lo = uint b AND 15" unfolding hl by (simp only: uint_and)
  then have lo: "0 \<le> lo" "lo < 16"
    using AND_upper2'[of 15 "uint b"] by (simp_all add: hl)
  have hi: "0 \<le> hi" "hi < 16"
    using div_less_of_bound[OF uint_u8_bounds, of b] unfolding hl uint_drop_bit_u8
    by (simp_all only: drop_bit_eq_div)
  note r = readFieldHeader_cases u8_lt_16 u8_eq_0 p
  note e = header_ok_def encodeFieldHeader_def Let_def
  consider "hi = 0" "lo = 0" | "hi = 0" "1 \<le> lo" | "1 \<le> hi" "lo = 0" | "1 \<le> hi" "1 \<le> lo"
    using hi lo by linarith
  then show ?thesis
  proof cases
    case 1
    then obtain t f cs where "bs = t # f # cs" "16 \<le> uint t" "16 \<le> uint f"
      "fh = \<lparr>TypeCode = uint t, FieldCode = uint f\<rparr>" "q = p\<lparr>pdata := cs\<rparr>"
      using assms by (auto simp: r not_less simp flip: hl split: list.splits if_splits)
    with 1 p show ?thesis by (simp add: e b)
  next
    case 2
    then obtain t cs where "bs = t # cs" "16 \<le> uint t"
      "fh = \<lparr>TypeCode = uint t, FieldCode = lo\<rparr>" "q = p\<lparr>pdata := cs\<rparr>"
      using assms by (auto simp: r not_less simp flip: hl split: list.splits if_splits)
    with 2 lo p show ?thesis by (simp add: e b)
  next
    case 3
    then obtain f cs where "bs = f # cs" "16 \<le> uint f"
      "fh = \<lparr>TypeCode = hi, FieldCode = uint f\<rparr>" "q = p\<lparr>pdata := cs\<rparr>"
      using assms by (auto simp: r not_less simp flip: hl split: list.splits if_splits)
    with 3 hi p show ?thesis by (simp add: e b)
  next
    case 4
    then have "fh = \<lparr>TypeCode = hi, FieldCode = lo\<rparr>" "q = p\<lparr>pdata := bs\<rparr>"
      using assms by (auto simp: r not_less simp flip: hl split: list.splits if_splits)
    with 4 hi lo p show ?thesis by (simp add: e b)
  qed
qed

interpretation hdr: prefix_code "\<lambda>fh. Inr (encodeFieldHeader fh)" readFieldHeader pdata
  "\<lambda>bs p. p\<lparr>pdata := bs\<rparr>" header_ok
  by unfold_locales
    (auto simp: readFieldHeader_encode encodeFieldHeader_def Let_def dest: readFieldHeader_sound)

section \<open>Properties of the codec\<close>

text \<open>
  C32.  The length prefix is a canonical code: the parser accepts a byte string exactly when it
  starts with the prefix the serializer emits for some length of 0 to 918744, returns that length,
  and leaves exactly the bytes after the prefix.  In particular no length has two accepted prefixes.
\<close>

theorem ReadVariableLength_canonical:
  "ReadVariableLength p = Inr (n, q) \<longleftrightarrow>
     0 \<le> n \<and> n \<le> 918744 \<and>
     (\<exists>h rest. encodeVariableLength n = Inr h \<and> pdata p = h @ rest \<and> q = p\<lparr>pdata := rest\<rparr>)"
proof
  assume "ReadVariableLength p = Inr (n, q)"
  from vl.dec_sound[OF this] show "0 \<le> n \<and> n \<le> 918744 \<and>
     (\<exists>h rest. encodeVariableLength n = Inr h \<and> pdata p = h @ rest \<and> q = p\<lparr>pdata := rest\<rparr>)"
    unfolding vl_ok_def by blast
qed (use vl.dec_enc[of n] vl_ok_def in blast)

text \<open>
  C33.  The field header is a canonical code: the parser accepts a header exactly when the bytes are
  the one to three bytes the field-id encoder emits for a type code and a field code of 1 to 255,
  and it consumes exactly these bytes.
\<close>

theorem readFieldHeader_canonical:
  "readFieldHeader p = Inr (fh, q) \<longleftrightarrow>
     1 \<le> TypeCode fh \<and> TypeCode fh \<le> 255 \<and> 1 \<le> FieldCode fh \<and> FieldCode fh \<le> 255 \<and>
     (\<exists>rest. pdata p = encodeFieldHeader fh @ rest \<and> q = p\<lparr>pdata := rest\<rparr>)"
  using readFieldHeader_sound[of p fh q] readFieldHeader_encode[of fh p] unfolding header_ok_def by blast

text \<open>
  C34.  Writing a variable-length field and reading it back.  For a field that the definitions list
  consistently under its name and its header, and a value of at most 918744 bytes, the serializer
  succeeds and appends a string from which the parser reads the same field, the same length, the
  same value, and then stands at the end marker of an object field or at whatever follows.
\<close>

theorem write_read_vl_field:
  assumes tables: "def_fields d (FieldName fi) = Some fi"
      "fieldIDNameMap d (FieldHeader fi) = Some (FieldName fi)"
    and codes: "1 \<le> TypeCode (FieldHeader fi)" "TypeCode (FieldHeader fi) \<le> 255"
      "1 \<le> FieldCode (FieldHeader fi)" "FieldCode (FieldHeader fi) \<le> 255"
    and vl: "IsVLEncoded fi" "length v \<le> 918744"
  shows "\<exists>out. WriteFieldAndValue d sink fi v = (None, sink @ out) \<and>
    bindE (ReadField d (NewBinaryParser (out @ rest))) (\<lambda>(fi', p).
      bindE (ReadVariableLength p) (\<lambda>(n, p).
        bindE (ReadBytes n p) (\<lambda>(x, p). Inr (fi', x, p)))) =
    Inr (fi, v,
         NewBinaryParser ((if FieldType fi = ''STObject'' then [0xE1] else []) @ rest))"
proof -
  let ?tail = "if FieldType fi = ''STObject'' then [0xE1] else []" and ?n = "int (length v)"
  let ?h = "encodeFieldHeader (FieldHeader fi)"
  have ok: "vl_ok ?n" "header_ok (FieldHeader fi)" using vl codes by (simp_all add: vl_ok_def header_ok_def)
  then obtain l where l: "encodeVariableLength ?n = Inr l" using vl.enc_defined by blast
  define p where "p = NewBinaryParser (?h @ l @ v @ ?tail @ rest)"
  have "ReadField d p = Inr (fi, p\<lparr>pdata := l @ v @ ?tail @ rest\<rparr>)"
    using tables readFieldHeader_encode[OF ok(2), of p "l @ v @ ?tail @ rest"]
    by (simp add: ReadField_def p_def NewBinaryParser_def FieldNameByHeader_def FieldInstanceByName_def)
  moreover have "ReadVariableLength (p\<lparr>pdata := l @ v @ ?tail @ rest\<rparr>) =
      Inr (?n, p\<lparr>pdata := v @ ?tail @ rest\<rparr>)"
    by (subst vl.dec_enc[OF ok(1) l]) simp_all
  moreover have "ReadBytes ?n (p\<lparr>pdata := v @ ?tail @ rest\<rparr>) = Inr (v, p\<lparr>pdata := ?tail @ rest\<rparr>)"
    by (simp add: ReadBytes_def)
  moreover have "p\<lparr>pdata := ?tail @ rest\<rparr> = NewBinaryParser (?tail @ rest)"
    by (simp add: p_def NewBinaryParser_def)
  moreover have "WriteFieldAndValue d sink fi v = (None, sink @ ?h @ l @ v @ ?tail)"
    using tables vl l by (simp add: WriteFieldAndValue_def Encode_def FieldHeaderByName_def)
  ultimately show ?thesis
    by (intro exI[of _ "?h @ l @ v @ ?tail"]) (simp only: bindE_Inr prod.case append_assoc p_def simp_thms)
qed

theorem write_read_vl_field_witness:
  "let fi = \<lparr>FieldName = ''PublicKey'', IsVLEncoded = True, FieldType = ''Blob'',
             FieldHeader = \<lparr>TypeCode = 7, FieldCode = 1\<rparr>\<rparr>;
       d = \<lparr>def_fields = [''PublicKey'' \<mapsto> fi], fieldIDNameMap = [FieldHeader fi \<mapsto> ''PublicKey'']\<rparr>
   in \<exists>out. WriteFieldAndValue d [9] fi [1, 2] = (None, [9] @ out) \<and>
        bindE (ReadField d (NewBinaryParser (out @ [5]))) (\<lambda>(fi', p).
          bindE (ReadVariableLength p) (\<lambda>(n, p).
            bindE (ReadBytes n p) (\<lambda>(x, p). Inr (fi', x, p)))) =
        Inr (fi, [1, 2], NewBinaryParser [5])"
  unfolding Let_def
  using write_read_vl_field[where sink = "[9]" and rest = "[5]" and v = "[1, 2]"
      and fi = "\<lparr>FieldName = ''PublicKey'', IsVLEncoded = True, FieldType = ''Blob'',
             FieldHeader = \<lparr>TypeCode = 7, FieldCode = 1\<rparr>\<rparr>"
      and d = "\<lparr>def_fields = [''PublicKey'' \<mapsto> \<lparr>FieldName = ''PublicKey'', IsVLEncoded = True,
             FieldType = ''Blob'', FieldHeader = \<lparr>TypeCode = 7, FieldCode = 1\<rparr>\<rparr>],
             fieldIDNameMap = [\<lparr>TypeCode = 7, FieldCode = 1\<rparr> \<mapsto> ''PublicKey'']\<rparr>"]
  by simp

end
