(* ===== verification/Keypath.thy ===== *)
theory Keypath
  imports Xrpl_Prelude
begin

text \<open>
  Positions in the SHAMap tree, \<^verbatim>\<open>src/shamap/keypath.go\<close> and \<^verbatim>\<open>src/shamap/node_id.go\<close>: the sixteen-way
  branch of a key at a depth, the first depth at which two keys differ, and node ids (a depth and a
  key prefix).  All of them read the same hexadecimal digit of the key; \<open>nib\<close> is that digit by
  arithmetic on the 256-bit number and \<open>pre\<close> the number formed by the leading digits, and the
  lemmas relate the byte-level code to them.  Go's \<^verbatim>\<open>uint8\<close> and \<^verbatim>\<open>int\<close> depths are naturals: every
  operation that increases a depth first checks it against \<open>maxDepth\<close>, so they never wrap.
\<close>

section \<open>Errors of the package\<close>

text \<open>
  The package's error values; \<open>Errorf\<close> stands for the errors built in place from a format string.
  \<open>OutOfFuel\<close> is no error of the code: it marks the results of the recursive walks for which the
  given fuel was too small.
\<close>

datatype shamap_error =
    ErrImmutable | errNilItem | ErrItemNotFound | errInvalidType | errInvalidState
  | errItemTooSmall | errInvalidBranch | errEmptyNonRoot | errNilFamily
  | errInvalidNodeIDLength | errMaxDepthExceeded | errNonCanonicalNodeID
  | ErrInvalidNodeData | MissingNodeError hash256 | FamilyError string | Errorf string | OutOfFuel

section \<open>Branches of a key\<close>

definition maxDepth :: nat where "maxDepth = 64"

record NodeID =
  depth :: nat
  node_id :: hash256

definition newRootNodeID :: NodeID where
  "newRootNodeID = \<lparr>depth = 0, node_id = 0\<rparr>"

definition IsRoot :: "NodeID \<Rightarrow> bool" where
  "IsRoot n \<longleftrightarrow> depth n = 0"

definition selectBranch :: "NodeID \<Rightarrow> hash256 \<Rightarrow> u8" where
  "selectBranch nodeID key =
     (let d = depth nodeID;
          d = (if d \<ge> maxDepth then maxDepth - 1 else d);
          byteIndex = d div 2 in
      if byteIndex \<ge> 32 then 0
      else let b = byte_at key byteIndex in
        if d mod 2 = 0 then drop_bit 4 b else b AND 15)"

definition getBranchAtDepth :: "hash256 \<Rightarrow> nat \<Rightarrow> nat" where
  "getBranchAtDepth key d =
     (if d \<ge> maxDepth then 0
      else let byteIndex = d div 2 in
        if byteIndex \<ge> 32 then 0
        else let b = byte_at key byteIndex in
          if d mod 2 = 0 then unat (drop_bit 4 b) else unat (b AND 15))"

text \<open>The loop from \<open>startDepth\<close> up to \<open>maxDepth\<close> that returns at the first difference.\<close>

definition findSplitDepth :: "hash256 \<Rightarrow> hash256 \<Rightarrow> nat \<Rightarrow> nat" where
  "findSplitDepth key1 key2 startDepth =
     (case find (\<lambda>d. getBranchAtDepth key1 d \<noteq> getBranchAtDepth key2 d) [startDepth..<maxDepth] of
        Some d \<Rightarrow> d | None \<Rightarrow> maxDepth - 1)"

definition childPathForBranch :: "hash256 \<Rightarrow> nat \<Rightarrow> nat \<Rightarrow> hash256" where
  "childPathForBranch parentPath d branch =
     (let bytePos = d div 2; b = byte_at parentPath bytePos in
      if d mod 2 = 0
      then set_byte parentPath bytePos ((b AND 0x0F) OR push_bit 4 (of_nat branch))
      else set_byte parentPath bytePos ((b AND 0xF0) OR of_nat branch))"

definition selectBranchForPath :: "hash256 \<Rightarrow> nat \<Rightarrow> nat" where
  "selectBranchForPath path d =
     (let b = byte_at path (d div 2) in
      if d mod 2 = 0 then unat (drop_bit 4 b) else unat (b AND 15))"

definition pathPrefixEq :: "hash256 \<Rightarrow> hash256 \<Rightarrow> nat \<Rightarrow> bool" where
  "pathPrefixEq a b d \<longleftrightarrow> list_all (\<lambda>i. selectBranchForPath a i = selectBranchForPath b i) [0..<d]"

definition isZeroHash :: "hash256 \<Rightarrow> bool" where
  "isZeroHash h \<longleftrightarrow> h = 0"

section \<open>Node ids\<close>

definition createNodeID :: "nat \<Rightarrow> hash256 \<Rightarrow> shamap_error + NodeID" where
  "createNodeID d key =
     (if d > maxDepth then Inl errMaxDepthExceeded
      else
        let nid = (if d < maxDepth
          then
            let byteIndex = d div 2;
                nid = (if d mod 2 = 1 \<and> byteIndex < 32
                       then set_byte key byteIndex (byte_at key byteIndex AND 0xF0) else key)
            in fold (\<lambda>i w. set_byte w i 0) [(d + 1) div 2..<32] nid
          else key)
        in Inr \<lparr>depth = d, node_id = nid\<rparr>)"

definition ParseNodeID :: "bytes \<Rightarrow> shamap_error + NodeID" where
  "ParseNodeID data =
     (if length data \<noteq> 33 then Inl errInvalidNodeIDLength
      else let d = unat (data ! 32) in
        if d > maxDepth then Inl errMaxDepthExceeded
        else let nid = hash_of_bytes (take 32 data) in
          bindE (createNodeID d nid) (\<lambda>canonical.
            if node_id canonical \<noteq> nid then Inl errNonCanonicalNodeID else Inr canonical))"

definition Bytes :: "NodeID \<Rightarrow> bytes" where
  "Bytes n = hash_bytes (node_id n) @ [of_nat (depth n)]"

definition childNodeID :: "NodeID \<Rightarrow> u8 \<Rightarrow> shamap_error + NodeID" where
  "childNodeID n branch =
     (if branch > 15 then Inl errInvalidBranch
      else if depth n \<ge> maxDepth then Inl errMaxDepthExceeded
      else let newDepth = depth n + 1; newID = node_id n; byteIndex = depth n div 2 in
        if byteIndex \<ge> 32 then Inl errMaxDepthExceeded
        else let isHighNibble = (depth n mod 2 = 0); b = byte_at newID byteIndex;
            newID = (if isHighNibble
              then set_byte newID byteIndex ((b AND 0x0F) OR push_bit 4 branch)
              else set_byte newID byteIndex ((b AND 0xF0) OR branch))
          in Inr \<lparr>depth = newDepth, node_id = newID\<rparr>)"

section \<open>Hexadecimal digits\<close>

definition nib :: "hash256 \<Rightarrow> nat \<Rightarrow> nat" where
  "nib k d = unat k div 16 ^ (63 - d) mod 16"

definition pre :: "hash256 \<Rightarrow> nat \<Rightarrow> nat" where
  "pre k d = unat k div 16 ^ (64 - d)"

lemma nib_less [simp]: "nib k d < 16"
  by (simp add: nib_def)

lemma pre_Suc: "d < 64 \<Longrightarrow> pre k (Suc d) = 16 * pre k d + nib k d"
proof -
  assume d: "d < 64"
  then have e: "64 - d = Suc (63 - d)" "64 - Suc d = 63 - d" by simp_all
  have "unat k div (16 * 16 ^ (63 - d)) = unat k div 16 ^ (63 - d) div 16"
    by (simp only: div_mult2_eq mult.commute[of 16])
  then show ?thesis by (simp add: pre_def nib_def e)
qed

lemma pre_0 [simp]: "pre k 0 = 0"
proof -
  have "unat k < 2 ^ 256" using unsigned_less[of k] by simp
  moreover have "(16::nat) ^ 64 = 2 ^ 256" by (simp flip: power_mult[of 2 4 64, simplified])
  ultimately show ?thesis by (simp add: pre_def)
qed

lemma pre_64 [simp]: "pre k 64 = unat k"
  by (simp add: pre_def)

lemma base16_eq_iff:
  "x < 16 \<Longrightarrow> y < 16 \<Longrightarrow> 16 * (a :: nat) + x = 16 * b + y \<longleftrightarrow> a = b \<and> x = y"
  by presburger

lemma pre_Suc_eq_iff: "d < 64 \<Longrightarrow> pre k (Suc d) = pre k' (Suc d) \<longleftrightarrow> pre k d = pre k' d \<and> nib k d = nib k' d"
  by (simp add: pre_Suc base16_eq_iff)

lemma pre_eq_iff: "d \<le> 64 \<Longrightarrow> pre k d = pre k' d \<longleftrightarrow> (\<forall>i<d. nib k i = nib k' i)"
  by (induction d) (auto simp: pre_Suc_eq_iff less_Suc_eq)

lemma key_eq_iff: "k = k' \<longleftrightarrow> (\<forall>i<64. nib k i = nib k' i)"
  using pre_eq_iff[of 64 k k'] by (simp add: word_unat_eq_iff)

lemma pre_less_imp_less:
  assumes "pre k d < pre k' d"
  shows "k < k'"
proof (rule ccontr)
  assume "\<not> k < k'"
  then have "unat k' \<le> unat k" by (simp add: word_le_nat_alt not_less)
  then have "pre k' d \<le> pre k d" unfolding pre_def by (rule div_le_mono)
  with assms show False by simp
qed

lemma nib_less_imp_less:
  assumes "d < 64" "pre k d = pre k' d" "nib k d < nib k' d"
  shows "k < k'"
  using assms by (intro pre_less_imp_less[of _ "Suc d"]) (simp add: pre_Suc)

section \<open>The byte-level code reads these digits\<close>

lemma unat_byte_at: "unat (byte_at k i) = unat k div 256 ^ (31 - i) mod 256"
proof -
  have "(2::nat) ^ (8 * (31 - i)) = 256 ^ (31 - i)" by (simp add: power_mult)
  then show ?thesis
    by (simp add: byte_at_def unsigned_ucast_eq unat_drop_bit_eq) (simp add: drop_bit_eq_div take_bit_eq_mod)
qed

lemma unat_hi_nibble: "unat (drop_bit 4 (b :: u8)) = unat b div 16"
  by (simp add: unat_drop_bit_eq) (simp add: drop_bit_eq_div)

lemma hi_nibble_le_15: "drop_bit 4 (b :: u8) \<le> 15"
proof -
  have "unat b < 256" using unsigned_less[of b] by simp
  then have "unat b \<le> 255" by linarith
  then show ?thesis using div_le_mono[of "unat b" 255 16]
    by (simp add: word_le_nat_alt unat_hi_nibble)
qed

lemma unat_lo_nibble: "unat ((b :: u8) AND 15) = unat b mod 16"
proof -
  have "(15 :: u8) = mask 4" by (simp add: mask_eq_exp_minus_1)
  then have "b AND 15 = take_bit 4 b" by (simp add: take_bit_eq_mask)
  then show ?thesis by (simp add: unsigned_take_bit_eq) (simp add: take_bit_eq_mod)
qed

lemma nib_byte:
  assumes "d < 64"
  shows "nib k d = (if d mod 2 = 0 then unat (drop_bit 4 (byte_at k (d div 2)))
    else unat (byte_at k (d div 2) AND 15))"
proof (cases "d mod 2 = 0")
  case True
  then have "63 - d = Suc (2 * (31 - d div 2))" using assms by auto
  then have p: "(16 :: nat) ^ (63 - d) = 256 ^ (31 - d div 2) * 16" by (simp add: power_mult)
  have m: "m mod 256 div 16 = m div 16 mod 16" for m :: nat
    using mod_mult2_eq[of m 16 16] by simp
  show ?thesis using True
    by (simp add: nib_def p unat_hi_nibble unat_byte_at m) (simp add: div_mult2_eq)
next
  case False
  then have "63 - d = 2 * (31 - d div 2)" using assms by presburger
  then have p: "(16 :: nat) ^ (63 - d) = 256 ^ (31 - d div 2)" by (simp add: power_mult)
  have m: "m mod 256 mod 16 = m mod 16" for m :: nat
    by (rule mod_mod_cancel) simp
  show ?thesis using False
    by (simp add: nib_def p unat_lo_nibble unat_byte_at m)
qed

lemma getBranchAtDepth_nib [simp]: "d < 64 \<Longrightarrow> getBranchAtDepth k d = nib k d"
  by (auto simp: getBranchAtDepth_def maxDepth_def nib_byte Let_def)

lemma selectBranch_nib [simp]: "depth nid < 64 \<Longrightarrow> unat (selectBranch nid k) = nib k (depth nid)"
  by (auto simp: selectBranch_def maxDepth_def nib_byte Let_def)

lemma selectBranchForPath_nib [simp]: "d < 64 \<Longrightarrow> selectBranchForPath k d = nib k d"
  by (auto simp: selectBranchForPath_def nib_byte Let_def)

lemma selectBranch_le_15: "depth nid < 64 \<Longrightarrow> \<not> 15 < selectBranch nid k"
  using nib_less[of k "depth nid"] by (simp add: word_less_nat_alt del: nib_less)

lemma findSplitDepth_first:
  assumes "k \<noteq> k'" "s \<le> 64" "pre k s = pre k' s"
  shows "findSplitDepth k k' s < 64" "s \<le> findSplitDepth k k' s"
    "nib k (findSplitDepth k k' s) \<noteq> nib k' (findSplitDepth k k' s)"
    "pre k (findSplitDepth k k' s) = pre k' (findSplitDepth k k' s)"
proof -
  let ?P = "\<lambda>d. getBranchAtDepth k d \<noteq> getBranchAtDepth k' d"
  obtain i where i: "i < 64" "nib k i \<noteq> nib k' i" using assms(1) by (auto simp: key_eq_iff)
  have "s \<le> i"
    using assms(2,3) i(2) by (meson not_le pre_eq_iff)
  then have "find ?P [s..<64] \<noteq> None" using i by (auto simp: find_None_iff)
  then obtain d where d: "find ?P [s..<64] = Some d" by blast
  then obtain j where j: "j < length [s..<64]" "?P ([s..<64] ! j)" "d = [s..<64] ! j"
    "\<forall>i<j. \<not> ?P ([s..<64] ! i)"
    by (auto simp: find_Some_iff)
  have r: "findSplitDepth k k' s = d" by (simp add: findSplitDepth_def maxDepth_def d)
  have dj: "d = s + j" "d < 64" using j by simp_all
  have "nib k i = nib k' i" if "i < d" for i
  proof (cases "i < s")
    case True
    then show ?thesis using assms(2,3) by (simp add: pre_eq_iff)
  next
    case False
    then have "i - s < j" using dj that by simp
    with j(4) have "\<not> ?P ([s..<64] ! (i - s))" by blast
    then show ?thesis using False that dj by (simp add: not_less)
  qed
  then show "findSplitDepth k k' s < 64" "s \<le> findSplitDepth k k' s"
    "nib k (findSplitDepth k k' s) \<noteq> nib k' (findSplitDepth k k' s)"
    "pre k (findSplitDepth k k' s) = pre k' (findSplitDepth k k' s)"
    using dj j by (simp_all add: r pre_eq_iff)
qed

section \<open>Node ids by their digits\<close>

lemma nib_set_byte:
  assumes "i < 32" "d < 64"
  shows "nib (set_byte w i b) d =
    (if d div 2 = i then (if d mod 2 = 0 then unat (drop_bit 4 b) else unat (b AND 15)) else nib w d)"
  using assms by (simp add: nib_byte byte_at_set_byte less_mult_imp_div_less)

lemma byte_at_clear_from:
  assumes "j < 32" "n \<le> 32"
  shows "byte_at (fold (\<lambda>i w. set_byte w i 0) [a..<n] w) j = (if a \<le> j \<and> j < n then 0 else byte_at w j)"
  using assms(2)
proof (induction n)
  case (Suc n)
  then show ?case using assms(1) by (auto simp: byte_at_set_byte less_Suc_eq)
qed simp

lemma nibble_ops:
  fixes b c :: u8
  assumes "c \<le> 15"
  shows "drop_bit 4 ((b AND 0x0F) OR push_bit 4 c) = c" "((b AND 0x0F) OR push_bit 4 c) AND 15 = b AND 15"
    "drop_bit 4 ((b AND 0xF0) OR c) = drop_bit 4 b" "((b AND 0xF0) OR c) AND 15 = c"
proof -
  have m: "(0x0F :: u8) = mask 4" "(0xF0 :: u8) = push_bit 4 (mask 4)"
    by (simp_all add: mask_eq_exp_minus_1 push_bit_eq_mult)
  have "unat c < 2 ^ 4" using assms by (simp add: word_le_nat_alt)
  then have "take_bit 4 c = c"
    by (simp add: word_unat_eq_iff unsigned_take_bit_eq take_bit_nat_eq_self)
  then have c: "bit c n \<Longrightarrow> n < 4" for n by (metis bit_take_bit_iff)
  show "drop_bit 4 ((b AND 0x0F) OR push_bit 4 c) = c"
    "((b AND 0x0F) OR push_bit 4 c) AND 15 = b AND 15"
    "drop_bit 4 ((b AND 0xF0) OR c) = drop_bit 4 b" "((b AND 0xF0) OR c) AND 15 = c"
    unfolding m by - (rule bit_word_eqI, auto simp: bit_simps dest: c bit_imp_le_length)+
qed

lemma createNodeID_defined: "d \<le> 64 \<Longrightarrow> \<exists>x. createNodeID d k = Inr \<lparr>depth = d, node_id = x\<rparr>"
  by (simp add: createNodeID_def maxDepth_def)

lemma byte_at_createNodeID:
  assumes "createNodeID d k = Inr n" "j < 32"
  shows "byte_at (node_id n) j =
    (if Suc (2 * j) < d then byte_at k j else if d = Suc (2 * j) then byte_at k j AND 0xF0 else 0)"
proof (cases "d < 64")
  case True
  then have "d div 2 < 32" by auto
  with True assms show ?thesis
    by (auto simp: createNodeID_def maxDepth_def Let_def byte_at_clear_from byte_at_set_byte
        split: if_splits)
next
  case False
  with assms show ?thesis by (auto simp: createNodeID_def maxDepth_def split: if_splits)
qed

lemma createNodeID_digits:
  assumes "createNodeID d k = Inr n"
  shows "d \<le> 64" "depth n = d" "j < 64 \<Longrightarrow> nib (node_id n) j = (if j < d then nib k j else 0)"
proof -
  show "d \<le> 64" "depth n = d"
    using assms by (auto simp: createNodeID_def maxDepth_def Let_def split: if_splits)
  assume j: "j < 64"
  then have j2: "j div 2 < 32" by auto
  have hi: "drop_bit 4 (b AND 0xF0) = drop_bit 4 b" "(b AND 0xF0) AND 15 = 0" for b :: u8
    using nibble_ops(3,4)[of 0 b] by simp_all
  have lo: "drop_bit 4 b AND 15 = drop_bit 4 b" for b :: u8
    using nibble_ops(4)[OF hi_nibble_le_15, of 0 b] by simp
  consider "Suc (2 * (j div 2)) < d" "j < d" | "d = Suc (2 * (j div 2))" | "d < Suc (2 * (j div 2))" "d \<le> j"
    by atomize_elim presburger
  then show "nib (node_id n) j = (if j < d then nib k j else 0)"
  proof cases
    case 2
    then have "j < d \<longleftrightarrow> j mod 2 = 0" by presburger
    with 2 show ?thesis
      by (auto simp: nib_byte[OF j] byte_at_createNodeID[OF assms j2] hi lo)
  qed (simp_all add: nib_byte[OF j] byte_at_createNodeID[OF assms j2])
qed

lemma NodeID_eqI:
  assumes "depth m = depth (n :: NodeID)" "\<And>j. j < 64 \<Longrightarrow> nib (node_id m) j = nib (node_id n) j"
  shows "m = n"
  using assms key_eq_iff[of "node_id m" "node_id n"] by (cases m; cases n) simp

lemma childNodeID_eq_Inr:
  "childNodeID n b = Inr m \<longleftrightarrow> b \<le> 15 \<and> depth n < 64 \<and>
     m = \<lparr>depth = Suc (depth n), node_id = set_byte (node_id n) (depth n div 2)
       (let x = byte_at (node_id n) (depth n div 2) in
        if depth n mod 2 = 0 then (x AND 0x0F) OR push_bit 4 b else (x AND 0xF0) OR b)\<rparr>"
proof (cases "b \<le> 15 \<and> depth n < 64")
  case True
  then have "depth n div 2 < 32" by auto
  moreover have "\<not> 15 < b" using True by (simp add: not_less)
  ultimately show ?thesis using True by (simp add: childNodeID_def maxDepth_def Let_def eq_commute[of m])
next
  case False
  then show ?thesis by (auto simp: childNodeID_def maxDepth_def not_less)
qed

lemma childNodeID_digits:
  assumes "childNodeID n b = Inr m"
  shows "depth n < 64" "depth m = Suc (depth n)"
    "j < 64 \<Longrightarrow> nib (node_id m) j = (if j = depth n then unat b else nib (node_id n) j)"
proof -
  have d: "depth n < 64" "depth n div 2 < 32" and b: "b \<le> 15"
    using assms by (auto simp: childNodeID_eq_Inr)
  show "depth n < 64" "depth m = Suc (depth n)"
    using d assms by (auto simp: childNodeID_eq_Inr)
  assume j: "j < 64"
  consider "j = depth n" | "j \<noteq> depth n" "j div 2 = depth n div 2" "j mod 2 \<noteq> depth n mod 2"
    | "j \<noteq> depth n" "j div 2 \<noteq> depth n div 2"
    using div_mult_mod_eq[of j 2] div_mult_mod_eq[of "depth n" 2] by metis
  then show "nib (node_id m) j = (if j = depth n then unat b else nib (node_id n) j)"
  proof cases
    case 2
    then show ?thesis using assms d
      by (cases "depth n mod 2 = 0")
        (simp_all add: childNodeID_eq_Inr nib_set_byte[OF d(2) j] byte_at_set_byte[OF d(2) d(2)]
          nib_byte[OF j] nibble_ops[OF b] del: drop_bit_or drop_bit_and)
  qed (use assms d j in \<open>simp_all add: childNodeID_eq_Inr nib_set_byte Let_def nibble_ops[OF b]
      del: drop_bit_or drop_bit_and\<close>)
qed

lemma childNodeID_depth: "childNodeID n b = Inr m \<Longrightarrow> depth n < 64 \<and> depth m = Suc (depth n)"
  using childNodeID_digits(1,2) by blast

lemma childNodeID_defined:
  "depth n < 64 \<Longrightarrow> \<exists>m. childNodeID n (selectBranch n k) = Inr m \<and> depth m = Suc (depth n)"
  using selectBranch_le_15[of n k] by (auto simp: childNodeID_def maxDepth_def Let_def)

lemma pathPrefixEq_pre: "d \<le> 64 \<Longrightarrow> pathPrefixEq a b d \<longleftrightarrow> pre a d = pre b d"
  by (auto simp: pathPrefixEq_def pre_eq_iff list_all_iff)

section \<open>Properties\<close>

text \<open>
  Following the branch of a key from the node id of its prefix gives the node id of the prefix
  one digit longer: descending one level at a time agrees with masking the key at the target depth,
  at every depth below 64.
\<close>

theorem childNodeID_follows_key:
  assumes "d < 64"
  shows "bindE (createNodeID d k) (\<lambda>n. childNodeID n (selectBranch n k)) = createNodeID (d + 1) k"
proof -
  obtain n where n: "createNodeID d k = Inr n" "depth n = d"
    using createNodeID_defined[of d k] assms by auto
  obtain m where m: "childNodeID n (selectBranch n k) = Inr m" "depth m = d + 1"
    using childNodeID_defined[of n k] n(2) assms by auto
  obtain c where c: "createNodeID (d + 1) k = Inr c" "depth c = d + 1"
    using createNodeID_defined[of "d + 1" k] assms by auto
  have "m = c"
    using m c n assms createNodeID_digits(3)[OF n(1)] createNodeID_digits(3)[OF c(1)]
      childNodeID_digits(3)[OF m(1)]
    by (intro NodeID_eqI) (auto simp: less_Suc_eq)
  with n m c show ?thesis by simp
qed

theorem childNodeID_follows_key_witness:
  "bindE (createNodeID 5 0xABCDEF) (\<lambda>n. childNodeID n (selectBranch n 0xABCDEF)) =
     createNodeID (5 + 1) 0xABCDEF"
  by (rule childNodeID_follows_key) simp

text \<open>
  C31.  The 33-byte encoding of node ids is canonical: the parser accepts exactly the encodings of
  node ids that are their own masked form (depth at most 64 and every digit beyond the depth zero),
  and returns the node id that was encoded.
\<close>

theorem ParseNodeID_iff_Bytes:
  "ParseNodeID bs = Inr n \<longleftrightarrow> bs = Bytes n \<and> createNodeID (depth n) (node_id n) = Inr n"
proof
  assume p: "ParseNodeID bs = Inr n"
  then have len: "length bs = 33" by (simp add: ParseNodeID_def split: if_splits)
  have c: "createNodeID (unat (bs ! 32)) (hash_of_bytes (take 32 bs)) = Inr n"
    and i: "node_id n = hash_of_bytes (take 32 bs)"
    using p by (auto simp: ParseNodeID_def Let_def bindE_eq_Inr split: if_splits)
  have d: "depth n = unat (bs ! 32)" using createNodeID_digits(2)[OF c] .
  have "bs = take 32 bs @ [bs ! 32]"
    using len take_Suc_conv_app_nth[of 32 bs] by simp
  then show "bs = Bytes n \<and> createNodeID (depth n) (node_id n) = Inr n"
    using c len by (simp add: Bytes_def i d hash_bytes_inverse)
next
  assume r: "bs = Bytes n \<and> createNodeID (depth n) (node_id n) = Inr n"
  then have "depth n \<le> 64" using createNodeID_digits(1) by blast
  with r show "ParseNodeID bs = Inr n"
    by (simp add: ParseNodeID_def Bytes_def maxDepth_def unat_of_nat nth_append)
qed

text \<open>
  For two different keys that agree on their first \<open>s\<close> digits, \<open>findSplitDepth\<close> returns the
  first depth at which they differ: a depth of at least \<open>s\<close> and below 64, where the branches differ
  and before which all of them agree.
\<close>

theorem findSplitDepth_correct:
  assumes "k \<noteq> k'" "s \<le> 64" "pathPrefixEq k k' s"
  shows "let d = findSplitDepth k k' s in
    s \<le> d \<and> d < 64 \<and> getBranchAtDepth k d \<noteq> getBranchAtDepth k' d \<and> pathPrefixEq k k' d"
  using findSplitDepth_first[of k k' s] assms by (simp add: Let_def pathPrefixEq_pre)

theorem findSplitDepth_correct_witness:
  "let d = findSplitDepth 0x1234 0x1244 60 in
    60 \<le> d \<and> d < 64 \<and> getBranchAtDepth 0x1234 d \<noteq> getBranchAtDepth 0x1244 d \<and> pathPrefixEq 0x1234 0x1244 d"
proof -
  have "pathPrefixEq 0x1234 0x1244 60" by (simp add: pathPrefixEq_pre pre_def)
  then show ?thesis by (intro findSplitDepth_correct) simp_all
qed

end
