(* ===== verification/Shamap_Node.thy ===== *)
theory Shamap_Node
  imports Keypath
begin

text \<open>
  The nodes of the SHAMap, \<^verbatim>\<open>src/shamap\<close>: items, leaves and inner nodes, their hashes, and their two
  serialised forms (\<^verbatim>\<open>item.go\<close>, \<^verbatim>\<open>node.go\<close>, \<^verbatim>\<open>leaf.go\<close>, \<^verbatim>\<open>inner_node.go\<close>, \<^verbatim>\<open>store.go\<close>).  A node
  is a value of the datatype \<open>node\<close>: the fields of \<^verbatim>\<open>innerNode\<close> and of \<^verbatim>\<open>leafNode\<close>, an empty
  child pointer as \<open>None\<close>.  SHA-512Half, \<^verbatim>\<open>sha512half.Sum\<close> of the concatenated arguments, is the
  parameter \<open>H\<close> of the definitions that hash; every theorem holds for any function in its place.
  The mutexes have no counterpart: a method runs under its lock.
\<close>

section \<open>Data\<close>

record item =
  ikey :: hash256
  idata :: bytes

datatype NodeType =
  NodeTypeInner | NodeTypeTransactionNoMeta | NodeTypeTransactionWithMeta | NodeTypeAccountState

datatype leafKind = leafAccountState | leafTransaction | leafTransactionWithMeta

definition HashPrefixInnerNode :: bytes where "HashPrefixInnerNode = [0x4D, 0x49, 0x4E, 0]"
definition HashPrefixLeafNode :: bytes where "HashPrefixLeafNode = [0x4D, 0x4C, 0x4E, 0]"
definition HashPrefixTxNode :: bytes where "HashPrefixTxNode = [0x53, 0x4E, 0x44, 0]"
definition HashPrefixTransactionID :: bytes where "HashPrefixTransactionID = [0x54, 0x58, 0x4E, 0]"

definition WireTypeTransaction :: u8 where "WireTypeTransaction = 0"
definition WireTypeAccountState :: u8 where "WireTypeAccountState = 1"
definition WireTypeInner :: u8 where "WireTypeInner = 2"
definition WireTypeCompressedInner :: u8 where "WireTypeCompressedInner = 3"
definition WireTypeTransactionWithMeta :: u8 where "WireTypeTransactionWithMeta = 4"

lemmas wire_type_defs = WireTypeTransaction_def WireTypeAccountState_def WireTypeInner_def
  WireTypeCompressedInner_def WireTypeTransactionWithMeta_def

lemmas prefix_defs = HashPrefixInnerNode_def HashPrefixLeafNode_def HashPrefixTxNode_def
  HashPrefixTransactionID_def

record leafKindInfo =
  nodeType :: NodeType
  hashPrefix :: bytes
  wireType :: u8
  keyOnWire :: bool

fun leafKinds :: "leafKind \<Rightarrow> leafKindInfo" where
  "leafKinds leafAccountState =
     \<lparr>nodeType = NodeTypeAccountState, hashPrefix = HashPrefixLeafNode,
      wireType = WireTypeAccountState, keyOnWire = True\<rparr>"
| "leafKinds leafTransaction =
     \<lparr>nodeType = NodeTypeTransactionNoMeta, hashPrefix = HashPrefixTransactionID,
      wireType = WireTypeTransaction, keyOnWire = False\<rparr>"
| "leafKinds leafTransactionWithMeta =
     \<lparr>nodeType = NodeTypeTransactionWithMeta, hashPrefix = HashPrefixTxNode,
      wireType = WireTypeTransactionWithMeta, keyOnWire = True\<rparr>"

datatype node =
    InnerNode (Hash: hash256) (IsDirty: bool) (children: "node option list") (hashes: "hash256 list")
      (isBranch: u16) (fullBelowGen: u32)
  | LeafNode (Hash: hash256) (IsDirty: bool) (Item: item) (kind: leafKind)

definition NewItem :: "hash256 \<Rightarrow> bytes \<Rightarrow> item" where
  "NewItem key data = \<lparr>ikey = key, idata = data\<rparr>"

definition is_inner :: "node \<Rightarrow> bool" where
  "is_inner n \<longleftrightarrow> (case n of InnerNode h d cs hs br g \<Rightarrow> True | LeafNode h d it k \<Rightarrow> False)"

fun SetDirty :: "node \<Rightarrow> bool \<Rightarrow> node" where
  "SetDirty (InnerNode h d cs hs br g) b = InnerNode h b cs hs br g"
| "SetDirty (LeafNode h d it k) b = LeafNode h b it k"

section \<open>Inner nodes\<close>

definition newInnerNode :: node where
  "newInnerNode = InnerNode 0 True (replicate 16 None) (replicate 16 0) 0 0"

text \<open>\<open>childPreimageHash\<close>: the live child's hash when the child is loaded, else the cached hash.\<close>

definition childPreimageHash :: "node option list \<Rightarrow> hash256 list \<Rightarrow> nat \<Rightarrow> hash256" where
  "childPreimageHash cs hs i = (case cs ! i of Some child \<Rightarrow> Hash child | None \<Rightarrow> hs ! i)"

definition branch_bytes :: "node option list \<Rightarrow> hash256 list \<Rightarrow> u16 \<Rightarrow> nat \<Rightarrow> bytes" where
  "branch_bytes cs hs br i =
     (if bit br i then hash_bytes (childPreimageHash cs hs i) else replicate 32 0)"

definition inner_preimage :: "node option list \<Rightarrow> hash256 list \<Rightarrow> u16 \<Rightarrow> bytes" where
  "inner_preimage cs hs br = HashPrefixInnerNode @ concat (map (branch_bytes cs hs br) [0..<16])"

definition inner_hash :: "(bytes \<Rightarrow> hash256) \<Rightarrow> node option list \<Rightarrow> hash256 list \<Rightarrow> u16 \<Rightarrow> hash256" where
  "inner_hash H cs hs br = (if br = 0 then 0 else H (inner_preimage cs hs br))"

text \<open>\<open>leaf_preimage\<close> is the argument of \<^verbatim>\<open>setHash\<close> in the leaf's \<open>updateHashUnsafe\<close>.\<close>

definition leaf_preimage :: "item \<Rightarrow> leafKind \<Rightarrow> bytes" where
  "leaf_preimage it k =
     (if keyOnWire (leafKinds k) then hashPrefix (leafKinds k) @ idata it @ hash_bytes (ikey it)
      else hashPrefix (leafKinds k) @ idata it)"

fun UpdateHash :: "(bytes \<Rightarrow> hash256) \<Rightarrow> node \<Rightarrow> node" where
  "UpdateHash H (InnerNode h d cs hs br g) = InnerNode (inner_hash H cs hs br) d cs hs br g"
| "UpdateHash H (LeafNode h d it k) = LeafNode (H (leaf_preimage it k)) d it k"

definition IsEmptyBranch :: "node \<Rightarrow> nat \<Rightarrow> bool" where
  "IsEmptyBranch n index \<longleftrightarrow> (if index \<ge> 16 then True else \<not> bit (isBranch n) index)"

definition OnesCount16 :: "u16 \<Rightarrow> nat" where
  "OnesCount16 w = length (filter (bit w) [0..<16])"

definition BranchCount :: "node \<Rightarrow> nat" where
  "BranchCount n = OnesCount16 (isBranch n)"

text \<open>
  \<open>SetChild\<close>: install or clear a child, keep hash cache and branch bit in step, mark the node dirty
  and recompute its hash.
\<close>

definition SetChild :: "(bytes \<Rightarrow> hash256) \<Rightarrow> node \<Rightarrow> nat \<Rightarrow> node option \<Rightarrow> shamap_error + node" where
  "SetChild H n index child =
     (if index \<ge> 16 then Inl errInvalidBranch
      else
        let cs = (children n)[index := child];
            hs = (hashes n)[index := (case child of Some c \<Rightarrow> Hash c | None \<Rightarrow> 0)];
            br = (case child of Some c \<Rightarrow> isBranch n OR push_bit index 1
                  | None \<Rightarrow> isBranch n AND NOT (push_bit index 1))
        in Inr (UpdateHash H (InnerNode (Hash n) True cs hs br (fullBelowGen n))))"

definition LoadChild :: "node \<Rightarrow> nat \<Rightarrow> node option \<times> hash256 \<times> bool" where
  "LoadChild n index = (children n ! index, hashes n ! index, bit (isBranch n) index)"

definition ChildHash :: "node \<Rightarrow> nat \<Rightarrow> shamap_error + hash256" where
  "ChildHash n index = (if index \<ge> 16 then Inl errInvalidBranch else Inr (hashes n ! index))"

definition updateHashDeep :: "(bytes \<Rightarrow> hash256) \<Rightarrow> node \<Rightarrow> node" where
  "updateHashDeep H n =
     (let hs = map (\<lambda>i. if bit (isBranch n) i
                        then (case children n ! i of Some c \<Rightarrow> Hash c | None \<Rightarrow> hashes n ! i)
                        else hashes n ! i) [0..<16]
      in UpdateHash H (InnerNode (Hash n) (IsDirty n) (children n) hs (isBranch n) (fullBelowGen n)))"

definition shallowClone :: "node \<Rightarrow> node" where
  "shallowClone n =
     InnerNode (Hash n) True (children n) (hashes n) (isBranch n) (fullBelowGen n)"

definition ReleaseChildren :: "node \<Rightarrow> node" where
  "ReleaseChildren n =
     InnerNode (Hash n) (IsDirty n) (replicate 16 None) (hashes n) (isBranch n) (fullBelowGen n)"

section \<open>Leaves\<close>

definition newLeafNode :: "(bytes \<Rightarrow> hash256) \<Rightarrow> leafKind \<Rightarrow> item \<Rightarrow> shamap_error + node" where
  "newLeafNode H k it =
     (if length (idata it) < 12 then Inl errItemTooSmall
      else Inr (UpdateHash H (LeafNode 0 True it k)))"

definition createLeafNode :: "(bytes \<Rightarrow> hash256) \<Rightarrow> NodeType \<Rightarrow> item \<Rightarrow> shamap_error + node" where
  "createLeafNode H nt it =
     (case nt of
        NodeTypeAccountState \<Rightarrow> newLeafNode H leafAccountState it
      | NodeTypeTransactionNoMeta \<Rightarrow> newLeafNode H leafTransaction it
      | NodeTypeTransactionWithMeta \<Rightarrow> newLeafNode H leafTransactionWithMeta it
      | NodeTypeInner \<Rightarrow> Inl (Errorf ''invalid node type for leaf''))"

section \<open>Serialised forms\<close>

fun SerializeForWire :: "node \<Rightarrow> shamap_error + bytes" where
  "SerializeForWire (InnerNode h d cs hs br g) =
     (let branchCount = OnesCount16 br in
      if branchCount = 0 then Inl errEmptyNonRoot
      else if branchCount < 12 then
        Inr (concat (map (\<lambda>i. if bit br i then hash_bytes (childPreimageHash cs hs i) @ [of_nat i] else [])
               [0..<16]) @ [WireTypeCompressedInner])
      else Inr (concat (map (branch_bytes cs hs br) [0..<16]) @ [WireTypeInner]))"
| "SerializeForWire (LeafNode h d it k) =
     (if keyOnWire (leafKinds k)
      then Inr (idata it @ hash_bytes (ikey it) @ [wireType (leafKinds k)])
      else Inr (idata it @ [wireType (leafKinds k)]))"

fun SerializeWithPrefix :: "node \<Rightarrow> shamap_error + bytes" where
  "SerializeWithPrefix (InnerNode h d cs hs br g) =
     (if br = 0 then Inl errEmptyNonRoot else Inr (inner_preimage cs hs br))"
| "SerializeWithPrefix (LeafNode h d it k) = Inr (leaf_preimage it k)"

text \<open>The 32 bytes of branch \<open>i\<close> in a run of sixteen hashes.\<close>

definition hash_slot :: "bytes \<Rightarrow> nat \<Rightarrow> hash256" where
  "hash_slot data i = hash_of_bytes (take 32 (drop (i * 32) data))"

text \<open>The loops of \<open>parseFullInnerNode\<close> and \<open>decodeInnerBranches\<close>: a branch per non-zero hash.\<close>

definition branch_mask :: "hash256 list \<Rightarrow> u16" where
  "branch_mask hs = fold (\<lambda>i w. if isZeroHash (hs ! i) then w else w OR push_bit i 1) [0..<16] 0"

definition parseFullInnerNode :: "(bytes \<Rightarrow> hash256) \<Rightarrow> bytes \<Rightarrow> shamap_error + node" where
  "parseFullInnerNode H data =
     (if length data \<noteq> 16 * 32 then Inl (Errorf ''invalid full inner node size'')
      else
        let hs = map (hash_slot data) [0..<16]
        in Inr (SetDirty (UpdateHash H
             (InnerNode 0 True (replicate 16 None) hs (branch_mask hs) 0)) False))"

text \<open>
  The loop of \<open>parseCompressedInnerNode\<close> over chunks of 33 bytes; the length of its argument is a
  multiple of 33, so a non-empty rest has a whole chunk.
\<close>

function parse_chunks :: "bytes \<Rightarrow> hash256 list \<times> u16 \<Rightarrow> shamap_error + hash256 list \<times> u16" where
  "parse_chunks data (hs, br) =
     (if data = [] then Inr (hs, br)
      else
        let hash = hash_of_bytes (take 32 data); position = data ! 32 in
        if position \<ge> 16 then Inl (Errorf ''invalid branch position'')
        else parse_chunks (drop 33 data)
               (hs[unat position := hash], br OR push_bit (unat position) 1))"
  by pat_completeness auto
termination by (relation "measure (\<lambda>(data, _). length data)") auto

declare parse_chunks.simps [simp del]

definition parseCompressedInnerNode :: "(bytes \<Rightarrow> hash256) \<Rightarrow> bytes \<Rightarrow> shamap_error + node" where
  "parseCompressedInnerNode H data =
     (if length data mod 33 \<noteq> 0 then Inl (Errorf ''invalid compressed inner node size'')
      else if length data > 33 * 16 then Inl (Errorf ''compressed inner node too large'')
      else bindE (parse_chunks data (replicate 16 0, 0)) (\<lambda>(hs, br).
        Inr (SetDirty (UpdateHash H (InnerNode 0 True (replicate 16 None) hs br 0)) False)))"

definition newInnerNodeFromWire :: "(bytes \<Rightarrow> hash256) \<Rightarrow> bytes \<Rightarrow> shamap_error + node" where
  "newInnerNodeFromWire H data =
     (if length data = 0 then Inl (Errorf ''empty wire data'')
      else
        let wt = last data; nodeData = butlast data in
        if wt = WireTypeInner then parseFullInnerNode H nodeData
        else if wt = WireTypeCompressedInner then parseCompressedInnerNode H nodeData
        else Inl (Errorf ''invalid wire type for inner node''))"

definition newAccountStateLeafFromWire :: "(bytes \<Rightarrow> hash256) \<Rightarrow> bytes \<Rightarrow> shamap_error + node" where
  "newAccountStateLeafFromWire H data =
     (if length data = 0 then Inl (Errorf ''empty wire data'')
      else if last data \<noteq> WireTypeAccountState then Inl (Errorf ''invalid wire type for account state'')
      else
        let nodeData = butlast data in
        if length nodeData < 32 then Inl (Errorf ''account state data too short'')
        else
          let keyStart = length nodeData - 32;
              key = hash_of_bytes (drop keyStart nodeData) in
          if isZeroHash key then Inl (Errorf ''invalid account state: zero key'')
          else bindE (newLeafNode H leafAccountState (NewItem key (take keyStart nodeData)))
                 (\<lambda>n. Inr (SetDirty n False)))"

definition newTransactionLeafFromWire :: "(bytes \<Rightarrow> hash256) \<Rightarrow> bytes \<Rightarrow> shamap_error + node" where
  "newTransactionLeafFromWire H data =
     (if length data = 0 then Inl (Errorf ''empty wire data'')
      else if last data \<noteq> WireTypeTransaction then Inl (Errorf ''invalid wire type for transaction'')
      else
        let nodeData = butlast data; key = H (HashPrefixTransactionID @ nodeData) in
        bindE (newLeafNode H leafTransaction (NewItem key nodeData)) (\<lambda>n. Inr (SetDirty n False)))"

definition newTransactionWithMetaLeafFromWire :: "(bytes \<Rightarrow> hash256) \<Rightarrow> bytes \<Rightarrow> shamap_error + node" where
  "newTransactionWithMetaLeafFromWire H data =
     (if length data = 0 then Inl (Errorf ''empty wire data'')
      else if last data \<noteq> WireTypeTransactionWithMeta
        then Inl (Errorf ''invalid wire type for transaction with meta'')
      else
        let nodeData = butlast data in
        if length nodeData < 32 then Inl (Errorf ''transaction with meta data too short'')
        else
          let keyStart = length nodeData - 32; key = hash_of_bytes (drop keyStart nodeData) in
          bindE (newLeafNode H leafTransactionWithMeta (NewItem key (take keyStart nodeData)))
            (\<lambda>n. Inr (SetDirty n False)))"

definition deserializeNodeFromWire :: "(bytes \<Rightarrow> hash256) \<Rightarrow> bytes \<Rightarrow> shamap_error + node" where
  "deserializeNodeFromWire H data =
     (if length data = 0 then Inl (Errorf ''empty wire data'')
      else
        let wt = last data in
        if wt = WireTypeInner then newInnerNodeFromWire H data
        else if wt = WireTypeCompressedInner then newInnerNodeFromWire H data
        else if wt = WireTypeAccountState then newAccountStateLeafFromWire H data
        else if wt = WireTypeTransaction then newTransactionLeafFromWire H data
        else if wt = WireTypeTransactionWithMeta then newTransactionWithMetaLeafFromWire H data
        else Inl (Errorf ''unknown wire type''))"

text \<open>The prefix format of the node store.\<close>

datatype storedNodeKind = storedInner | storedAccountState | storedTransaction | storedTransactionWithMeta

record prefixNodeBody =
  bkind :: storedNodeKind
  payload :: bytes
  bkey :: hash256

definition decodePrefixBody :: "bytes \<Rightarrow> shamap_error + prefixNodeBody" where
  "decodePrefixBody data =
     (if length data < 4 then Inl (Errorf ''data too short for prefix'')
      else
        let prefix = take 4 data; keyStart = length data - 32 in
        if prefix = HashPrefixInnerNode then
          (if length data \<noteq> 4 + 16 * 32 then Inl (Errorf ''invalid inner node prefix data size'')
           else Inr \<lparr>bkind = storedInner, payload = drop 4 data, bkey = 0\<rparr>)
        else if prefix = HashPrefixLeafNode then
          (if length data < 4 + 32 then Inl (Errorf ''account state prefix data too short'')
           else
             let body = \<lparr>bkind = storedAccountState, payload = drop 4 (take keyStart data),
                         bkey = hash_of_bytes (drop keyStart data)\<rparr> in
             if isZeroHash (bkey body) then Inl (Errorf ''invalid account state: zero key'')
             else Inr body)
        else if prefix = HashPrefixTransactionID then
          (if length data \<le> 4 then Inl (Errorf ''transaction prefix data too short'')
           else Inr \<lparr>bkind = storedTransaction, payload = drop 4 data, bkey = 0\<rparr>)
        else if prefix = HashPrefixTxNode then
          (if length data < 4 + 32 then Inl (Errorf ''transaction+meta prefix data too short'')
           else Inr \<lparr>bkind = storedTransactionWithMeta, payload = drop 4 (take keyStart data),
                     bkey = hash_of_bytes (drop keyStart data)\<rparr>)
        else Inl (Errorf ''unknown hash prefix''))"

definition decodeInnerBranches :: "prefixNodeBody \<Rightarrow> shamap_error + hash256 list \<times> u16" where
  "decodeInnerBranches body =
     (if bkind body \<noteq> storedInner \<or> length (payload body) \<noteq> 16 * 32
      then Inl (Errorf ''invalid inner node body'')
      else let hs = map (hash_slot (payload body)) [0..<16] in Inr (hs, branch_mask hs))"

definition materializePrefixNode :: "(bytes \<Rightarrow> hash256) \<Rightarrow> prefixNodeBody \<Rightarrow> shamap_error + node" where
  "materializePrefixNode H body =
     (if bkind body = storedInner then
        bindE (decodeInnerBranches body) (\<lambda>(hs, br).
          Inr (UpdateHash H (InnerNode 0 False (replicate 16 None) hs br 0)))
      else
        bindE (case bkind body of
                 storedAccountState \<Rightarrow> newLeafNode H leafAccountState (NewItem (bkey body) (payload body))
               | storedTransaction \<Rightarrow>
                   newLeafNode H leafTransaction
                     (NewItem (H (HashPrefixTransactionID @ payload body)) (payload body))
               | storedTransactionWithMeta \<Rightarrow>
                   newLeafNode H leafTransactionWithMeta (NewItem (bkey body) (payload body))
               | storedInner \<Rightarrow> Inl (Errorf ''unknown stored node kind''))
          (\<lambda>n. Inr (SetDirty n False)))"

definition deserializeFromPrefix :: "(bytes \<Rightarrow> hash256) \<Rightarrow> bytes \<Rightarrow> shamap_error + node" where
  "deserializeFromPrefix H data = bindE (decodePrefixBody data) (materializePrefixNode H)"

definition wireSizeForPrefixBody :: "prefixNodeBody \<Rightarrow> shamap_error + nat" where
  "wireSizeForPrefixBody body =
     (case bkind body of
        storedInner \<Rightarrow>
          (if length (payload body) \<noteq> 16 * 32 then Inl (Errorf ''invalid inner node body'')
           else
             let branches = length (filter (\<lambda>i. \<not> isZeroHash (hash_slot (payload body) i)) [0..<16]) in
             if branches = 0 then Inl errEmptyNonRoot
             else if branches < 12 then Inr (branches * 33 + 1)
             else Inr (16 * 32 + 1))
      | storedAccountState \<Rightarrow> Inr (length (payload body) + 33)
      | storedTransactionWithMeta \<Rightarrow> Inr (length (payload body) + 33)
      | storedTransaction \<Rightarrow> Inr (length (payload body) + 1))"

definition materializeAndVerifyPrefixNode ::
  "(bytes \<Rightarrow> hash256) \<Rightarrow> prefixNodeBody \<Rightarrow> hash256 \<Rightarrow> shamap_error + node" where
  "materializeAndVerifyPrefixNode H body expected =
     (case materializePrefixNode H body of
        Inl e \<Rightarrow> Inl ErrInvalidNodeData
      | Inr n \<Rightarrow> if Hash n \<noteq> expected then Inl ErrInvalidNodeData else Inr n)"

definition decodeAndVerifyPrefixNode ::
  "(bytes \<Rightarrow> hash256) \<Rightarrow> bytes \<Rightarrow> hash256 \<Rightarrow> shamap_error + node" where
  "decodeAndVerifyPrefixNode H data expected =
     (case decodePrefixBody data of
        Inl e \<Rightarrow> Inl ErrInvalidNodeData
      | Inr body \<Rightarrow> materializeAndVerifyPrefixNode H body expected)"

section \<open>Runs of sixteen hashes\<close>

lemma length_concat_const: "(\<And>i. i < n \<Longrightarrow> length (f i) = c) \<Longrightarrow> length (concat (map f [0..<n])) = c * n"
  by (induction n) simp_all

lemma concat_slot:
  assumes "\<And>i. i < n \<Longrightarrow> length (f i) = 32" "i < n"
  shows "take 32 (drop (i * 32) (concat (map f [0..<n]))) = f i"
  using assms
proof (induction n)
  case (Suc n)
  have len: "length (concat (map f [0..<n])) = 32 * n" using Suc.prems(1) by (intro length_concat_const) simp
  show ?case
  proof (cases "i = n")
    case True
    then show ?thesis using Suc.prems(1)[of n] len by (simp add: mult.commute)
  next
    case False
    then have i: "i < n" using Suc.prems(2) by simp
    then have "i * 32 + 32 \<le> 32 * n" by (simp add: algebra_simps)
    then show ?thesis using Suc.IH[OF Suc.prems(1) i] i len by (simp add: drop_append take_append)
  qed
qed simp

lemma concat_slots_id:
  assumes "length data = n * 32"
  shows "concat (map (\<lambda>i. take 32 (drop (i * 32) data)) [0..<n]) = data"
proof -
  have "concat (map (\<lambda>i. take 32 (drop (i * 32) data)) [0..<m]) = take (m * 32) data" if "m \<le> n" for m
    using that
  proof (induction m)
    case (Suc m)
    then show ?case using assms by (simp add: take_add add.commute[of 32])
  qed simp
  from this[of n] assms show ?thesis by simp
qed

lemma length_branch_bytes [simp]: "length (branch_bytes cs hs br i) = 32"
  by (simp add: branch_bytes_def)

lemma length_inner_preimage [simp]: "length (inner_preimage cs hs br) = 516"
  by (simp add: inner_preimage_def HashPrefixInnerNode_def length_concat_const[where c = 32])

lemma hash_of_zeros [simp]: "hash_of_bytes (replicate 32 0) = 0"
  by (rule hash_eqI_bytes) (simp add: byte_at_hash_of_bytes)

definition sent_hashes :: "node option list \<Rightarrow> hash256 list \<Rightarrow> u16 \<Rightarrow> hash256 list" where
  "sent_hashes cs hs br = map (\<lambda>i. if bit br i then childPreimageHash cs hs i else 0) [0..<16]"

lemma length_sent_hashes [simp]: "length (sent_hashes cs hs br) = 16"
  by (simp add: sent_hashes_def)

lemma nth_sent_hashes [simp]:
  "i < 16 \<Longrightarrow> sent_hashes cs hs br ! i = (if bit br i then childPreimageHash cs hs i else 0)"
  by (simp add: sent_hashes_def)

lemma hash_slot_branches:
  "i < 16 \<Longrightarrow> hash_slot (concat (map (branch_bytes cs hs br) [0..<16])) i = sent_hashes cs hs br ! i"
  by (simp add: hash_slot_def concat_slot) (simp add: branch_bytes_def)

lemma hash_slots_branches:
  "map (hash_slot (concat (map (branch_bytes cs hs br) [0..<16]))) [0..<16] = sent_hashes cs hs br"
  by (rule nth_equalityI) (simp_all add: hash_slot_branches)

lemma inner_preimage_sent [simp]:
  "inner_preimage (replicate 16 None) (sent_hashes cs hs br) br = inner_preimage cs hs br"
  unfolding inner_preimage_def
  by (intro arg_cong2[where f = append] arg_cong[where f = concat] map_cong)
    (auto simp: branch_bytes_def childPreimageHash_def)

lemma inner_hash_sent [simp]:
  "inner_hash H (replicate 16 None) (sent_hashes cs hs br) br = inner_hash H cs hs br"
  by (simp add: inner_hash_def)

section \<open>Branch masks\<close>

lemma bit_push_1: "bit (push_bit i (1 :: u16)) j \<longleftrightarrow> j = i \<and> j < 16"
  unfolding bit_push_bit_iff bit_1_iff by auto

lemma bit_u16_less: "bit (w :: u16) i \<Longrightarrow> i < 16"
  using bit_imp_le_length[of w i] by simp

lemma u16_eqI: "(\<And>i. i < 16 \<Longrightarrow> bit v i = bit (w :: u16) i) \<Longrightarrow> v = w"
  by (rule bit_word_eqI) simp

lemma bit_fold_or:
  "bit (fold (\<lambda>i w. if P i then w else w OR push_bit i 1) ks (w :: u16)) j \<longleftrightarrow>
     bit w j \<or> (j < 16 \<and> j \<in> set ks \<and> \<not> P j)"
proof (induction ks arbitrary: w)
  case (Cons i ks)
  have "bit (if P i then w else w OR push_bit i 1) j \<longleftrightarrow> bit w j \<or> (\<not> P i \<and> j = i \<and> j < 16)"
    by (simp only: bit_or_iff bit_push_1 split: if_split) blast
  then show ?case by (simp only: fold_Cons o_apply Cons.IH) auto
qed simp

lemma bit_branch_mask [simp]: "bit (branch_mask hs) i \<longleftrightarrow> i < 16 \<and> hs ! i \<noteq> 0"
  unfolding branch_mask_def bit_fold_or isZeroHash_def by simp

lemma branch_mask_sent:
  assumes "\<And>i. bit br i \<Longrightarrow> childPreimageHash cs hs i \<noteq> 0"
  shows "branch_mask (sent_hashes cs hs br) = br"
  by (rule u16_eqI) (simp add: assms)

lemma OnesCount16_eq_0_iff [simp]: "OnesCount16 br = 0 \<longleftrightarrow> br = 0"
proof
  assume "OnesCount16 br = 0"
  then show "br = 0" by (intro u16_eqI) (simp add: OnesCount16_def filter_empty_conv)
qed (simp add: OnesCount16_def)

section \<open>The compressed form\<close>

lemma parse_chunks_run:
  assumes "set ks \<subseteq> {..<16}"
  shows "parse_chunks (concat (map (\<lambda>i. hash_bytes (g i) @ [of_nat i]) ks)) (hs, br) =
    Inr (fold (\<lambda>i hs. hs[i := g i]) ks hs, fold (\<lambda>i w. w OR push_bit i 1) ks br)"
  using assms
proof (induction ks arbitrary: hs br)
  case (Cons i js)
  then have i: "i < 16" "unat (of_nat i :: u8) = i" by (auto simp: unat_of_nat)
  then have "\<not> (16 :: u8) \<le> of_nat i" by (simp add: word_le_nat_alt)
  with i Cons show ?case by (subst parse_chunks.simps) (simp add: nth_append Let_def)
qed (simp add: parse_chunks.simps)

lemma nth_fold_update:
  "i < length hs \<Longrightarrow> fold (\<lambda>i hs. hs[i := g i]) ks hs ! i = (if i \<in> set ks then g i else hs ! i)"
  by (induction ks arbitrary: hs) (auto simp: nth_list_update)

lemma length_fold_update [simp]: "length (fold (\<lambda>i hs. hs[i := g i]) ks hs) = length hs"
  by (induction ks arbitrary: hs) simp_all

lemma concat_filter: "concat (map (\<lambda>i. if P i then f i else []) xs) = concat (map f (filter P xs))"
  by (induction xs) simp_all

lemma parse_chunks_branches:
  "parse_chunks (concat (map (\<lambda>i. if bit br i then hash_bytes (childPreimageHash cs hs i) @ [of_nat i] else [])
      [0..<16])) (replicate 16 0, 0) = Inr (sent_hashes cs hs br, br)"
proof -
  let ?js = "filter (bit br) [0..<16]"
  have "fold (\<lambda>i hs'. hs'[i := childPreimageHash cs hs i]) ?js (replicate 16 0) = sent_hashes cs hs br"
    by (rule nth_equalityI) (simp_all add: nth_fold_update)
  moreover have "fold (\<lambda>i w. w OR push_bit i 1) ?js 0 = br"
    using bit_fold_or[where P = "\<lambda>_. False" and w = 0 and ks = ?js]
    by (intro u16_eqI) simp
  moreover have "set ?js \<subseteq> {..<16}" by auto
  ultimately show ?thesis by (simp only: concat_filter parse_chunks_run)
qed

section \<open>Round trips\<close>

text \<open>
  The contract of a node format: every admissible node has a serialisation, and decoding it gives
  the node's stub, the node as it is known from its own bytes alone.
\<close>

locale node_codec =
  fixes ser :: "'n \<Rightarrow> 'e + bytes" and des :: "bytes \<Rightarrow> 'e + 'n"
    and ok :: "'n \<Rightarrow> bool" and stub_of :: "'n \<Rightarrow> 'n"
  assumes des_ser: "ok n \<Longrightarrow> \<exists>bs. ser n = Inr bs \<and> des bs = Inr (stub_of n)"
begin

lemma ser_inject:
  assumes "ok m" "ok n" "ser m = ser n"
  shows "stub_of m = stub_of n"
  using des_ser[OF assms(1)] des_ser[OF assms(2)] assms(3) by auto

end

fun stub :: "node \<Rightarrow> node" where
  "stub (InnerNode h d cs hs br g) = InnerNode h False (replicate 16 None) (sent_hashes cs hs br) br 0"
| "stub (LeafNode h d it k) = LeafNode h False it k"

text \<open>
  Admissible nodes: the cached hash is up to date, an inner node has a branch and no branch with a
  zero hash, a leaf has at least 12 bytes, a state leaf has a key other than zero, and a transaction
  leaf has its transaction id as its key.
\<close>

fun sendable :: "(bytes \<Rightarrow> hash256) \<Rightarrow> node \<Rightarrow> bool" where
  "sendable H (InnerNode h d cs hs br g) \<longleftrightarrow>
     h = inner_hash H cs hs br \<and> br \<noteq> 0 \<and> (\<forall>i<16. bit br i \<longrightarrow> childPreimageHash cs hs i \<noteq> 0)"
| "sendable H (LeafNode h d it k) \<longleftrightarrow>
     h = H (leaf_preimage it k) \<and> 12 \<le> length (idata it) \<and>
     (k = leafAccountState \<longrightarrow> ikey it \<noteq> 0) \<and>
     (k = leafTransaction \<longrightarrow> ikey it = H (HashPrefixTransactionID @ idata it))"

lemma length_compressed:
  "length (concat (map (\<lambda>i. if bit br i then hash_bytes (f i) @ [w i] else []) [0..<16])) = 33 * OnesCount16 br"
proof -
  have "length (concat (map (\<lambda>i. hash_bytes (f i) @ [w i]) xs)) = 33 * length xs" for xs
    by (induction xs) simp_all
  then show ?thesis by (simp only: concat_filter OnesCount16_def)
qed

lemma wire_round_trip_inner:
  assumes "sendable H (InnerNode h d cs hs br g)"
  shows "\<exists>bs. SerializeForWire (InnerNode h d cs hs br g) = Inr bs \<and>
    deserializeNodeFromWire H bs = Inr (stub (InnerNode h d cs hs br g))"
proof -
  have br: "br \<noteq> 0" and h: "h = inner_hash H cs hs br" using assms by simp_all
  have nz: "bit br i \<Longrightarrow> childPreimageHash cs hs i \<noteq> 0" for i
    using assms by (auto dest: bit_u16_less)
  show ?thesis
  proof (cases "OnesCount16 br < 12")
    case True
    with br show ?thesis
      by (simp add: deserializeNodeFromWire_def newInnerNodeFromWire_def wire_type_defs Let_def h
          parseCompressedInnerNode_def length_compressed parse_chunks_branches)
  next
    case False
    with br show ?thesis
      by (simp add: deserializeNodeFromWire_def newInnerNodeFromWire_def wire_type_defs Let_def h
          parseFullInnerNode_def hash_slots_branches length_concat_const[where c = 32]
          branch_mask_sent[OF nz])
  qed
qed

lemma wire_round_trip_leaf:
  assumes "sendable H (LeafNode h d it k)"
  shows "\<exists>bs. SerializeForWire (LeafNode h d it k) = Inr bs \<and>
    deserializeNodeFromWire H bs = Inr (stub (LeafNode h d it k))"
  using assms
  by (cases k; cases it) (simp_all add: deserializeNodeFromWire_def newAccountStateLeafFromWire_def
      newTransactionLeafFromWire_def newTransactionWithMetaLeafFromWire_def wire_type_defs Let_def
      butlast_append newLeafNode_def NewItem_def isZeroHash_def)

interpretation wire: node_codec SerializeForWire "deserializeNodeFromWire H" "sendable H" stub for H
proof
  show "\<exists>bs. SerializeForWire n = Inr bs \<and> deserializeNodeFromWire H bs = Inr (stub n)"
    if "sendable H n" for n
    using that wire_round_trip_inner wire_round_trip_leaf by (cases n) blast+
qed

lemma prefix_round_trip_inner:
  assumes "sendable H (InnerNode h d cs hs br g)"
  shows "deserializeFromPrefix H (inner_preimage cs hs br) = Inr (stub (InnerNode h d cs hs br g))"
proof -
  have br: "br \<noteq> 0" and h: "h = inner_hash H cs hs br" using assms by simp_all
  have nz: "bit br i \<Longrightarrow> childPreimageHash cs hs i \<noteq> 0" for i
    using assms by (auto dest: bit_u16_less)
  have t: "take 4 (inner_preimage cs hs br) = HashPrefixInnerNode"
    "drop 4 (inner_preimage cs hs br) = concat (map (branch_bytes cs hs br) [0..<16])"
    by (simp_all add: inner_preimage_def HashPrefixInnerNode_def)
  show ?thesis
    by (simp add: deserializeFromPrefix_def decodePrefixBody_def t materializePrefixNode_def
        decodeInnerBranches_def length_concat_const[where c = 32] hash_slots_branches Let_def
        branch_mask_sent[OF nz] h)
qed

lemma decodePrefixBody_keyed:
  assumes "length p = 4" "p = HashPrefixLeafNode \<and> key \<noteq> 0 \<and> sk = storedAccountState \<or>
    p = HashPrefixTxNode \<and> sk = storedTransactionWithMeta"
  shows "decodePrefixBody (p @ data @ hash_bytes key) = Inr \<lparr>bkind = sk, payload = data, bkey = key\<rparr>"
proof -
  have "take 4 (p @ data @ hash_bytes key) = p" using assms(1) by simp
  moreover have "drop 4 (take (length (p @ data @ hash_bytes key) - 32) (p @ data @ hash_bytes key)) = data"
    "drop (length (p @ data @ hash_bytes key) - 32) (p @ data @ hash_bytes key) = hash_bytes key"
    using assms(1) by simp_all
  moreover have "HashPrefixLeafNode \<noteq> HashPrefixInnerNode" "HashPrefixTxNode \<noteq> HashPrefixInnerNode"
    "HashPrefixTxNode \<noteq> HashPrefixLeafNode" "HashPrefixTxNode \<noteq> HashPrefixTransactionID"
    by (simp_all add: prefix_defs)
  ultimately show ?thesis using assms
    by (auto simp only: decodePrefixBody_def Let_def isZeroHash_def hash_of_bytes_inverse
        prefixNodeBody.simps if_True if_False length_append length_hash_bytes) simp_all
qed

lemma decodePrefixBody_transaction:
  "data \<noteq> [] \<Longrightarrow> decodePrefixBody (HashPrefixTransactionID @ data) =
     Inr \<lparr>bkind = storedTransaction, payload = data, bkey = 0\<rparr>"
  by (simp add: decodePrefixBody_def prefix_defs)

lemma prefix_round_trip_leaf:
  assumes "sendable H (LeafNode h d it k)"
  shows "deserializeFromPrefix H (leaf_preimage it k) = Inr (stub (LeafNode h d it k))"
proof -
  have "idata it \<noteq> []" using assms by auto
  moreover have "length HashPrefixLeafNode = 4" "length HashPrefixTxNode = 4" by (simp_all add: prefix_defs)
  ultimately show ?thesis using assms
    by (cases k; cases it) (simp_all add: deserializeFromPrefix_def leaf_preimage_def
        decodePrefixBody_transaction decodePrefixBody_keyed[where sk = storedAccountState]
        decodePrefixBody_keyed[where sk = storedTransactionWithMeta]
        materializePrefixNode_def newLeafNode_def NewItem_def)
qed

interpretation prefix: node_codec SerializeWithPrefix "deserializeFromPrefix H" "sendable H" stub for H
proof
  show "\<exists>bs. SerializeWithPrefix n = Inr bs \<and> deserializeFromPrefix H bs = Inr (stub n)"
    if "sendable H n" for n
    using that prefix_round_trip_inner prefix_round_trip_leaf by (cases n) auto
qed

section \<open>Stored bytes determine the node\<close>

lemma hash_bytes_0: "hash_bytes 0 = replicate 32 0"
  by (rule nth_equalityI) (simp_all add: nth_hash_bytes)

lemma branch_bytes_slot:
  assumes "length data = 512" "i < 16"
  defines "hs \<equiv> map (hash_slot data) [0..<16]"
  shows "branch_bytes (replicate 16 None) hs (branch_mask hs) i = take 32 (drop (i * 32) data)"
proof -
  have "i * 32 + 32 \<le> 512" using assms(2) by simp
  then have len: "length (take 32 (drop (i * 32) data)) = 32" using assms(1) by simp
  have n: "hs ! i = hash_slot data i" using assms(2) by (simp add: hs_def)
  have "hash_bytes (hash_slot data i) = take 32 (drop (i * 32) data)"
    unfolding hash_slot_def by (rule hash_bytes_inverse[OF len])
  then show ?thesis
    using assms(2) n by (auto simp: branch_bytes_def childPreimageHash_def simp flip: hash_bytes_0)
qed

lemma inner_preimage_slots:
  assumes "length data = 512"
  defines "hs \<equiv> map (hash_slot data) [0..<16]"
  shows "inner_preimage (replicate 16 None) hs (branch_mask hs) = HashPrefixInnerNode @ data"
proof -
  have eq: "map (branch_bytes (replicate 16 None) hs (branch_mask hs)) [0..<16] =
      map (\<lambda>i. take 32 (drop (i * 32) data)) [0..<16]"
    unfolding hs_def by (rule map_cong) (simp_all add: branch_bytes_slot[OF assms(1)])
  show ?thesis unfolding inner_preimage_def eq using concat_slots_id[of data 16] assms(1) by simp
qed

lemma decodePrefixBody_sound:
  assumes "decodePrefixBody data = Inr body"
  shows "case bkind body of
      storedInner \<Rightarrow> data = HashPrefixInnerNode @ payload body \<and> length (payload body) = 512
    | storedAccountState \<Rightarrow> data = HashPrefixLeafNode @ payload body @ hash_bytes (bkey body)
    | storedTransaction \<Rightarrow> data = HashPrefixTransactionID @ payload body
    | storedTransactionWithMeta \<Rightarrow> data = HashPrefixTxNode @ payload body @ hash_bytes (bkey body)"
proof -
  have k: "data = take 4 data @ drop 4 (take (length data - 32) data) @
      hash_bytes (hash_of_bytes (drop (length data - 32) data))" if "36 \<le> length data"
  proof -
    have "hash_bytes (hash_of_bytes (drop (length data - 32) data)) = drop (length data - 32) data"
      using that by (intro hash_bytes_inverse) simp
    moreover have "take 4 data = take 4 (take (length data - 32) data)" using that by simp
    ultimately show ?thesis by (metis append.assoc append_take_drop_id)
  qed
  have t: "take 4 data = p \<Longrightarrow> data = p @ drop 4 data" for p by (metis append_take_drop_id)
  show ?thesis
  proof (cases "bkind body = storedInner \<or> bkind body = storedTransaction")
    case True
    then show ?thesis using assms
      by (auto simp: decodePrefixBody_def Let_def split: if_splits intro: t)
  next
    case False
    then show ?thesis using assms k
      by (auto simp: decodePrefixBody_def Let_def split: if_splits)
  qed
qed

lemma newLeafNode_eq_Inr:
  "newLeafNode H k it = Inr n \<longleftrightarrow> 12 \<le> length (idata it) \<and> n = LeafNode (H (leaf_preimage it k)) True it k"
  by (auto simp: newLeafNode_def)

lemma materialize_sound:
  assumes "decodePrefixBody data = Inr body" "materializePrefixNode H body = Inr n"
  shows "if is_inner n \<and> isBranch n = 0 then Hash n = 0 else SerializeWithPrefix n = Inr data \<and> H data = Hash n"
  using decodePrefixBody_sound[OF assms(1)] assms(2)
  by (cases "bkind body")
    (auto simp: materializePrefixNode_def decodeInnerBranches_def bindE_eq_Inr is_inner_def Let_def
      inner_preimage_slots inner_hash_def newLeafNode_eq_Inr leaf_preimage_def NewItem_def
      split: node.splits)

section \<open>Properties\<close>

text \<open>
  C19.  Wire round trip.  Every node whose hash is up to date, that has no branch with a zero hash
  and whose leaf key is the one its kind requires, serialises for the wire, and decoding these bytes
  gives the node back as far as its own bytes determine it: same hash, same branches and branch
  hashes, same item and kind; children unloaded, not dirty.
\<close>

theorem wire_round_trip:
  assumes "sendable H n"
  shows "\<exists>bs. SerializeForWire n = Inr bs \<and> deserializeNodeFromWire H bs = Inr (stub n)"
  using wire.des_ser[OF assms] .

theorem wire_round_trip_witness:
  "\<exists>bs. SerializeForWire (LeafNode 7 True \<lparr>ikey = 5, idata = replicate 12 1\<rparr> leafAccountState) = Inr bs \<and>
     deserializeNodeFromWire (\<lambda>_. 7) bs =
       Inr (stub (LeafNode 7 True \<lparr>ikey = 5, idata = replicate 12 1\<rparr> leafAccountState))"
  by (rule wire_round_trip) simp

text \<open>
  C20.  Store round trip.  Such a node has a prefix encoding whose hash is the node's hash, and
  reading these bytes back under that hash is accepted and gives the same node.
\<close>

theorem store_round_trip:
  assumes "sendable H n"
  shows "\<exists>bs. SerializeWithPrefix n = Inr bs \<and> H bs = Hash n \<and>
    decodeAndVerifyPrefixNode H bs (Hash n) = Inr (stub n)"
proof -
  obtain bs where bs: "SerializeWithPrefix n = Inr bs" "deserializeFromPrefix H bs = Inr (stub n)"
    using prefix.des_ser[OF assms] by blast
  have "H bs = Hash n" using bs(1) assms by (cases n) (auto simp: inner_hash_def)
  moreover have "Hash (stub n) = Hash n" by (cases n) simp_all
  ultimately show ?thesis using bs
    by (auto simp: deserializeFromPrefix_def bindE_eq_Inr decodeAndVerifyPrefixNode_def
        materializeAndVerifyPrefixNode_def)
qed

theorem store_round_trip_witness:
  "\<exists>bs. SerializeWithPrefix (LeafNode 7 True \<lparr>ikey = 5, idata = replicate 12 1\<rparr> leafTransactionWithMeta) = Inr bs \<and>
     7 = (7 :: hash256) \<and>
     decodeAndVerifyPrefixNode (\<lambda>_. 7) bs 7 =
       Inr (stub (LeafNode 7 True \<lparr>ikey = 5, idata = replicate 12 1\<rparr> leafTransactionWithMeta))"
  using store_round_trip[of "\<lambda>_. 7" "LeafNode 7 True \<lparr>ikey = 5, idata = replicate 12 1\<rparr> leafTransactionWithMeta"]
  by simp

text \<open>
  C21.  Reads from the store are content addressed.  A node accepted under an expected hash has that
  hash, and it serialises to exactly the bytes that were read, which hash to the expected value.  The
  only exception is the encoding of an inner node without branches, accepted only under the zero
  hash.
\<close>

theorem decodeAndVerify_content_addressed:
  assumes "decodeAndVerifyPrefixNode H data expected = Inr n"
  shows "Hash n = expected \<and>
    (if is_inner n \<and> isBranch n = 0 then expected = 0
     else SerializeWithPrefix n = Inr data \<and> H data = expected)"
proof -
  obtain body where b: "decodePrefixBody data = Inr body" "materializePrefixNode H body = Inr n"
    "Hash n = expected"
    using assms by (auto simp: decodeAndVerifyPrefixNode_def materializeAndVerifyPrefixNode_def
        split: sum.splits if_splits)
  with materialize_sound[OF b(1,2)] show ?thesis by (auto split: if_splits)
qed

theorem decodeAndVerify_content_addressed_witness:
  "let n = LeafNode 7 False \<lparr>ikey = 5, idata = replicate 12 1\<rparr> leafAccountState;
       data = leaf_preimage \<lparr>ikey = 5, idata = replicate 12 1\<rparr> leafAccountState
   in decodeAndVerifyPrefixNode (\<lambda>_. 7) data 7 = Inr n \<and> Hash n = 7 \<and>
      (if is_inner n \<and> isBranch n = 0 then (7 :: hash256) = 0
       else SerializeWithPrefix n = Inr data \<and> (7 :: hash256) = 7)"
proof -
  let ?it = "\<lparr>ikey = 5, idata = replicate 12 1\<rparr>"
  have "deserializeFromPrefix (\<lambda>_. 7) (leaf_preimage ?it leafAccountState) =
      Inr (LeafNode 7 False ?it leafAccountState)"
    using prefix_round_trip_leaf[of "\<lambda>_. 7" 7 True ?it leafAccountState] by simp
  then have "decodeAndVerifyPrefixNode (\<lambda>_. 7) (leaf_preimage ?it leafAccountState) 7 =
      Inr (LeafNode 7 False ?it leafAccountState)"
    by (auto simp: deserializeFromPrefix_def bindE_eq_Inr decodeAndVerifyPrefixNode_def
        materializeAndVerifyPrefixNode_def)
  with decodeAndVerify_content_addressed[OF this] show ?thesis by (simp add: Let_def)
qed

end
