(* ===== verification/Shamap_Ops.thy ===== *)
theory Shamap_Ops
  imports Shamap_Node
begin

text \<open>
  The operations of the SHAMap, \<^verbatim>\<open>src/shamap/{shamap,traverse,mutation,snapshot,iterator,iteration}.go\<close>:
  lookup, insertion, deletion, atomic batches, snapshots, ordered iteration.  The map is the record
  \<open>shamap\<close>; \<open>family\<close> is the backing store when there is one, as the function that fetches the stored
  bytes of a hash.  A child is read with \<open>readChild\<close>: from memory when it is loaded, else from the
  store, verified against the hash its parent keeps.  The node stack is a list with its top first.
  The recursive walks descend through nodes that the store delivers, so they take fuel; the lemmas
  show that 65 is enough on every well-formed map.
\<close>

section \<open>State\<close>

datatype mapState = stateModifying | stateImmutable | stateSyncing | stateInvalid

datatype mapType = TypeTransaction | TypeState

type_synonym family = "hash256 \<Rightarrow> shamap_error + bytes option"

record shamap =
  root :: node
  mtype :: mapType
  mstate :: mapState
  ledgerSeq :: u32
  cachedSize :: int
  family :: "family option"

definition New :: "mapType \<Rightarrow> shamap" where
  "New mt = \<lparr>root = newInnerNode, mtype = mt, mstate = stateModifying, ledgerSeq = 0,
     cachedSize = -1, family = None\<rparr>"

text \<open>The \<open>Family\<close> argument is an interface value, \<open>None\<close> when it is nil.\<close>

definition NewBacked :: "mapType \<Rightarrow> family option \<Rightarrow> shamap_error + shamap" where
  "NewBacked mt fam =
     (case fam of
        None \<Rightarrow> Inl errNilFamily
      | Some f \<Rightarrow> Inr \<lparr>root = newInnerNode, mtype = mt, mstate = stateModifying, ledgerSeq = 0,
          cachedSize = -1, family = Some f\<rparr>)"

definition NewFromRootHash ::
  "(bytes \<Rightarrow> hash256) \<Rightarrow> mapType \<Rightarrow> hash256 \<Rightarrow> family option \<Rightarrow> shamap_error + shamap" where
  "NewFromRootHash H mt rootHash fam =
     (case fam of
        None \<Rightarrow> Inl errNilFamily
      | Some f \<Rightarrow>
        bindE (f rootHash) (\<lambda>data.
          case data of
            None \<Rightarrow> Inl (MissingNodeError rootHash)
          | Some bs \<Rightarrow>
            (case decodeAndVerifyPrefixNode H bs rootHash of
               Inl e \<Rightarrow> Inl ErrInvalidNodeData
             | Inr n \<Rightarrow>
               if is_inner n then
                 Inr \<lparr>root = n, mtype = mt, mstate = stateModifying, ledgerSeq = 0, cachedSize = -1,
                      family = Some f\<rparr>
               else Inl ErrInvalidNodeData)))"

definition SetImmutable :: "shamap \<Rightarrow> shamap_error + shamap" where
  "SetImmutable sm =
     (if mstate sm = stateInvalid then Inl errInvalidState else Inr (sm\<lparr>mstate := stateImmutable\<rparr>))"

definition SetLedgerSeq :: "shamap \<Rightarrow> u32 \<Rightarrow> shamap" where
  "SetLedgerSeq sm s = sm\<lparr>ledgerSeq := s\<rparr>"

definition RootHash :: "shamap \<Rightarrow> shamap_error + hash256" where
  "RootHash sm = (if mstate sm = stateInvalid then Inl errInvalidState else Inr (Hash (root sm)))"

section \<open>Reading children\<close>

text \<open>
  \<open>readChild\<close> as the ordinary walks call it (\<open>retain\<close> is false outside the syncing state): the loaded
  child, else the node fetched from the store and verified.  The clean-residency cache in front of the
  store holds records under the hash they were verified against and is not part of the model.
\<close>

definition readChild :: "(bytes \<Rightarrow> hash256) \<Rightarrow> shamap \<Rightarrow> node \<Rightarrow> nat \<Rightarrow> shamap_error + node option" where
  "readChild H sm inner branch =
     (case LoadChild inner branch of (child, hash, hasBranch) \<Rightarrow>
        if child \<noteq> None then Inr child
        else
          case family sm of
            None \<Rightarrow> Inr None
          | Some fetch \<Rightarrow>
            if \<not> hasBranch \<or> isZeroHash hash then Inr None
            else
              bindE (fetch hash) (\<lambda>data.
                case data of
                  None \<Rightarrow> Inl (MissingNodeError hash)
                | Some bs \<Rightarrow> bindE (decodeAndVerifyPrefixNode H bs hash) (\<lambda>n. Inr (Some n))))"

text \<open>The loop of \<open>walkToKey\<close>; it ends because \<open>childNodeID\<close> refuses to go below depth 64.\<close>

function walkLoop ::
  "(bytes \<Rightarrow> hash256) \<Rightarrow> shamap \<Rightarrow> hash256 \<Rightarrow> node \<Rightarrow> NodeID \<Rightarrow> (node \<times> NodeID) list \<Rightarrow>
     shamap_error + (node option \<times> NodeID \<times> (node \<times> NodeID) list)" where
  "walkLoop H sm key n nodeID stack =
     (if \<not> is_inner n then Inr (Some n, nodeID, stack)
      else
        let stack = (n, nodeID) # stack; branch = selectBranch nodeID key in
        if IsEmptyBranch n (unat branch) then Inr (None, nodeID, stack)
        else
          bindE (readChild H sm n (unat branch)) (\<lambda>child.
            case child of
              None \<Rightarrow> Inr (None, nodeID, stack)
            | Some c \<Rightarrow>
              bindE (childNodeID nodeID branch) (\<lambda>childID. walkLoop H sm key c childID stack)))"
  by pat_completeness auto
termination
  by (relation "measure (\<lambda>(H, sm, key, n, nodeID, stack). 64 - depth nodeID)")
    (auto dest: childNodeID_depth)

declare walkLoop.simps [simp del]

definition walkToKey ::
  "(bytes \<Rightarrow> hash256) \<Rightarrow> shamap \<Rightarrow> hash256 \<Rightarrow> bool \<Rightarrow>
     shamap_error + (node option \<times> (node \<times> NodeID) list)" where
  "walkToKey H sm key pushLeaf =
     bindE (walkLoop H sm key (root sm) newRootNodeID []) (\<lambda>(n, nodeID, stack).
       case n of
         None \<Rightarrow> Inr (None, stack)
       | Some leaf \<Rightarrow> Inr (Some leaf, if pushLeaf then (leaf, nodeID) # stack else stack))"

definition findItem :: "(bytes \<Rightarrow> hash256) \<Rightarrow> shamap \<Rightarrow> hash256 \<Rightarrow> shamap_error + item option" where
  "findItem H sm key =
     bindE (walkToKey H sm key False) (\<lambda>(n, _).
       case n of
         None \<Rightarrow> Inr None
       | Some leaf \<Rightarrow>
         if is_inner leaf then Inl errInvalidType
         else if ikey (Item leaf) \<noteq> key then Inr None
         else Inr (Some (Item leaf)))"

definition Has :: "(bytes \<Rightarrow> hash256) \<Rightarrow> shamap \<Rightarrow> hash256 \<Rightarrow> shamap_error + bool" where
  "Has H sm key = bindE (findItem H sm key) (\<lambda>it. Inr (it \<noteq> None))"

definition Get :: "(bytes \<Rightarrow> hash256) \<Rightarrow> shamap \<Rightarrow> hash256 \<Rightarrow> shamap_error + (item option \<times> bool)" where
  "Get H sm key = bindE (findItem H sm key) (\<lambda>it. Inr (it, it \<noteq> None))"

section \<open>Insertion\<close>

definition getLeafNodeType :: "shamap \<Rightarrow> NodeType" where
  "getLeafNodeType sm =
     (case mtype sm of TypeTransaction \<Rightarrow> NodeTypeTransactionNoMeta | TypeState \<Rightarrow> NodeTypeAccountState)"

text \<open>The loop of \<open>dirtyUp\<close>: copy each inner node of the stack with the rebuilt child in its branch.\<close>

fun dirtyUpLoop ::
  "(bytes \<Rightarrow> hash256) \<Rightarrow> (node \<times> NodeID) list \<Rightarrow> hash256 \<Rightarrow> node \<Rightarrow> shamap_error + node" where
  "dirtyUpLoop H [] target child = Inr child"
| "dirtyUpLoop H ((n, nodeID) # stack) target child =
     (if \<not> is_inner n then Inl (Errorf ''expected inner node on stack'')
      else
        bindE (SetChild H (shallowClone n) (unat (selectBranch nodeID target)) (Some child))
          (\<lambda>cloned. dirtyUpLoop H stack target cloned))"

definition dirtyUp ::
  "(bytes \<Rightarrow> hash256) \<Rightarrow> shamap \<Rightarrow> (node \<times> NodeID) list \<Rightarrow> hash256 \<Rightarrow> node \<Rightarrow> shamap_error + node" where
  "dirtyUp H sm stack target child =
     (if mstate sm = stateSyncing \<or> mstate sm = stateImmutable then Inl errInvalidState
      else dirtyUpLoop H stack target child)"

definition assignRoot ::
  "(bytes \<Rightarrow> hash256) \<Rightarrow> shamap \<Rightarrow> node \<Rightarrow> hash256 \<Rightarrow> shamap_error + shamap" where
  "assignRoot H sm newRoot key =
     (if is_inner newRoot then Inr (sm\<lparr>root := newRoot\<rparr>)
      else
        bindE (SetChild H newInnerNode (unat (selectBranch newRootNodeID key)) (Some newRoot))
          (\<lambda>r. Inr (sm\<lparr>root := r\<rparr>)))"

text \<open>
  The chain of inner nodes between \<open>currentDepth\<close> and \<open>splitDepth\<close>.  The code builds the chain from the
  top with pointers (each \<open>SetChild\<close> installs a still empty child), attaches both leaves to the
  deepest node, and then repeats \<open>SetChild\<close> from the bottom up with the finished child.  A chain
  node's value at the end is the empty node after its two \<open>SetChild\<close> calls; \<open>m\<close> counts the levels
  left above the deepest node.
\<close>

fun splitChain ::
  "(bytes \<Rightarrow> hash256) \<Rightarrow> hash256 \<Rightarrow> hash256 \<Rightarrow> node \<Rightarrow> node \<Rightarrow> nat \<Rightarrow> nat \<Rightarrow> shamap_error + node" where
  "splitChain H key existingKey newLeaf leaf d 0 =
     bindE (SetChild H newInnerNode (getBranchAtDepth key d) (Some newLeaf)) (\<lambda>n.
       SetChild H n (getBranchAtDepth existingKey d) (Some leaf))"
| "splitChain H key existingKey newLeaf leaf d (Suc m) =
     bindE (SetChild H newInnerNode (getBranchAtDepth key d) (Some newInnerNode)) (\<lambda>n.
       bindE (splitChain H key existingKey newLeaf leaf (Suc d) m) (\<lambda>child.
         SetChild H n (getBranchAtDepth key d) (Some child)))"

definition putItemWithNodeTypeUnsafe ::
  "(bytes \<Rightarrow> hash256) \<Rightarrow> shamap \<Rightarrow> item \<Rightarrow> NodeType \<Rightarrow> shamap_error + shamap" where
  "putItemWithNodeTypeUnsafe H sm it nt =
     (let key = ikey it in
      bindE (walkToKey H sm key False) (\<lambda>(n, stack).
        case n of
          None \<Rightarrow>
            bindE (createLeafNode H nt it) (\<lambda>newLeaf.
              bindE (dirtyUp H sm stack key newLeaf) (\<lambda>newRoot. assignRoot H sm newRoot key))
        | Some leaf \<Rightarrow>
            if is_inner leaf then Inl errInvalidType
            else
              let existingKey = ikey (Item leaf) in
              if key = existingKey then
                bindE (createLeafNode H nt it) (\<lambda>newLeaf.
                  bindE (dirtyUp H sm stack key newLeaf) (\<lambda>newRoot. assignRoot H sm newRoot key))
              else
                let currentDepth = length stack;
                    splitDepth = findSplitDepth key existingKey currentDepth in
                bindE (createLeafNode H nt it) (\<lambda>newLeaf.
                  bindE (splitChain H key existingKey newLeaf leaf currentDepth (splitDepth - currentDepth))
                    (\<lambda>topInner.
                      bindE (dirtyUp H sm stack key topInner) (\<lambda>newRoot. assignRoot H sm newRoot key)))))"

definition putItemWithNodeType ::
  "(bytes \<Rightarrow> hash256) \<Rightarrow> shamap \<Rightarrow> item \<Rightarrow> NodeType \<Rightarrow> shamap_error + shamap" where
  "putItemWithNodeType H sm it nt =
     (if mstate sm \<noteq> stateModifying then Inl ErrImmutable else putItemWithNodeTypeUnsafe H sm it nt)"

definition putItemUnsafe :: "(bytes \<Rightarrow> hash256) \<Rightarrow> shamap \<Rightarrow> item \<Rightarrow> shamap_error + shamap" where
  "putItemUnsafe H sm it = putItemWithNodeTypeUnsafe H sm it (getLeafNodeType sm)"

definition putItem :: "(bytes \<Rightarrow> hash256) \<Rightarrow> shamap \<Rightarrow> item \<Rightarrow> shamap_error + shamap" where
  "putItem H sm it = (if mstate sm \<noteq> stateModifying then Inl ErrImmutable else putItemUnsafe H sm it)"

definition Put :: "(bytes \<Rightarrow> hash256) \<Rightarrow> shamap \<Rightarrow> hash256 \<Rightarrow> bytes \<Rightarrow> shamap_error + shamap" where
  "Put H sm key data = putItem H sm (NewItem key data)"

definition PutWithNodeType ::
  "(bytes \<Rightarrow> hash256) \<Rightarrow> shamap \<Rightarrow> hash256 \<Rightarrow> bytes \<Rightarrow> NodeType \<Rightarrow> shamap_error + shamap" where
  "PutWithNodeType H sm key data nt = putItemWithNodeType H sm (NewItem key data) nt"

section \<open>Snapshots and batches\<close>

definition snapshotLocked :: "shamap \<Rightarrow> bool \<Rightarrow> shamap_error + shamap" where
  "snapshotLocked sm mutable =
     (if mstate sm = stateInvalid then Inl errInvalidState
      else
        let newState = (if mutable then stateModifying else stateImmutable);
            size = (if \<not> mutable \<and> mstate sm = stateImmutable \<and> cachedSize sm \<ge> 0
                    then cachedSize sm else -1)
        in Inr \<lparr>root = root sm, mtype = mtype sm, mstate = newState, ledgerSeq = ledgerSeq sm,
             cachedSize = size, family = family sm\<rparr>)"

fun putAll :: "(bytes \<Rightarrow> hash256) \<Rightarrow> shamap \<Rightarrow> item option list \<Rightarrow> shamap_error + shamap" where
  "putAll H staged [] = Inr staged"
| "putAll H staged (it # items) =
     (case it of
        None \<Rightarrow> Inl errNilItem
      | Some i \<Rightarrow> bindE (putItemUnsafe H staged i) (\<lambda>staged. putAll H staged items))"

text \<open>The result on failure is the unchanged map: the operation returns the error and the map.\<close>

definition PutItemsAtomically ::
  "(bytes \<Rightarrow> hash256) \<Rightarrow> shamap \<Rightarrow> item option list \<Rightarrow> shamap_error option \<times> shamap" where
  "PutItemsAtomically H sm items =
     (if mstate sm \<noteq> stateModifying then (Some ErrImmutable, sm)
      else
        case bindE (snapshotLocked sm True) (\<lambda>staged. putAll H staged items) of
          Inl e \<Rightarrow> (Some e, sm)
        | Inr staged \<Rightarrow> (None, sm\<lparr>root := root staged, cachedSize := -1\<rparr>))"

section \<open>Deletion\<close>

text \<open>\<open>onlyBelow\<close>: the item of the single leaf below a node, following single-child chains.\<close>

definition TrailingZeros16 :: "u16 \<Rightarrow> nat" where
  "TrailingZeros16 w = (case find (bit w) [0..<16] of Some i \<Rightarrow> i | None \<Rightarrow> 16)"

fun onlyBelow :: "nat \<Rightarrow> (bytes \<Rightarrow> hash256) \<Rightarrow> shamap \<Rightarrow> node \<Rightarrow> shamap_error + item option" where
  "onlyBelow 0 H sm n = Inl OutOfFuel"
| "onlyBelow (Suc fuel) H sm n =
     (if \<not> is_inner n then Inr (Some (Item n))
      else if OnesCount16 (isBranch n) \<noteq> 1 then Inr None
      else
        bindE (readChild H sm n (TrailingZeros16 (isBranch n))) (\<lambda>next.
          case next of None \<Rightarrow> Inr None | Some c \<Rightarrow> onlyBelow fuel H sm c))"

definition findAndRemoveLeaf ::
  "(bytes \<Rightarrow> hash256) \<Rightarrow> shamap \<Rightarrow> hash256 \<Rightarrow> shamap_error + ((node \<times> NodeID) list \<times> node)" where
  "findAndRemoveLeaf H sm key =
     bindE (walkToKey H sm key True) (\<lambda>(_, stack).
       case stack of
         [] \<Rightarrow> Inl ErrItemNotFound
       | (leaf, _) # stack \<Rightarrow>
         if is_inner leaf then Inl ErrItemNotFound
         else if key \<noteq> ikey (Item leaf) then Inl ErrItemNotFound
         else Inr (stack, leaf))"

fun consolidateLoop ::
  "nat \<Rightarrow> (bytes \<Rightarrow> hash256) \<Rightarrow> shamap \<Rightarrow> (node \<times> NodeID) list \<Rightarrow> hash256 \<Rightarrow> node option \<Rightarrow>
     shamap_error + node option" where
  "consolidateLoop fuel H sm [] key prevNode = Inr prevNode"
| "consolidateLoop fuel H sm ((n, nodeID) # stack) key prevNode =
     (if \<not> is_inner n then Inl errInvalidType
      else
        bindE (SetChild H (shallowClone n) (unat (selectBranch nodeID key)) prevNode) (\<lambda>clonedInner.
        bindE (if \<not> IsRoot nodeID then
                 (if BranchCount clonedInner = 0 then Inr None
                  else if BranchCount clonedInner = 1 then
                    bindE (onlyBelow fuel H sm clonedInner) (\<lambda>onlyItem.
                      case onlyItem of
                        Some it \<Rightarrow>
                          bindE (createLeafNode H (getLeafNodeType sm) it) (\<lambda>newLeaf. Inr (Some newLeaf))
                      | None \<Rightarrow> Inr (Some clonedInner))
                  else Inr (Some clonedInner))
               else Inr (Some clonedInner)) (\<lambda>prevNode.
        consolidateLoop fuel H sm stack key prevNode)))"

definition consolidateAfterDelete ::
  "nat \<Rightarrow> (bytes \<Rightarrow> hash256) \<Rightarrow> shamap \<Rightarrow> (node \<times> NodeID) list \<Rightarrow> hash256 \<Rightarrow> shamap_error + node" where
  "consolidateAfterDelete fuel H sm stack key =
     bindE (consolidateLoop fuel H sm stack key None) (\<lambda>prevNode.
       case prevNode of
         None \<Rightarrow> Inl (Errorf ''unexpected nil root after deletion'')
       | Some n \<Rightarrow> Inr n)"

definition Delete ::
  "nat \<Rightarrow> (bytes \<Rightarrow> hash256) \<Rightarrow> shamap \<Rightarrow> hash256 \<Rightarrow> shamap_error + shamap" where
  "Delete fuel H sm key =
     (if mstate sm \<noteq> stateModifying then Inl ErrImmutable
      else
        bindE (findAndRemoveLeaf H sm key) (\<lambda>(stack, _).
        bindE (consolidateAfterDelete fuel H sm stack key) (\<lambda>newRoot.
          if is_inner newRoot then Inr (sm\<lparr>root := newRoot\<rparr>)
          else Inl (Errorf ''expected root to be an inner node''))))"

section \<open>Visiting the leaves\<close>

text \<open>
  A callback that closes over variables is a function that takes and returns their values; a walk
  returns the error, or whether it ran to its end, together with the callback's state, which survives
  an error.  The walks run under a context that is not cancelled.  \<open>walkBranches\<close> is the loop over the
  branches, with the recursive call as its argument.
\<close>

fun walkBranches ::
  "(bytes \<Rightarrow> hash256) \<Rightarrow> shamap \<Rightarrow> node \<Rightarrow> (node \<Rightarrow> 's \<Rightarrow> (shamap_error + bool) \<times> 's) \<Rightarrow> nat list \<Rightarrow> 's \<Rightarrow>
     (shamap_error + bool) \<times> 's" where
  "walkBranches H sm inner visit [] s = (Inr True, s)"
| "walkBranches H sm inner visit (i # is) s =
     (case readChild H sm inner i of
        Inl e \<Rightarrow> (Inl e, s)
      | Inr None \<Rightarrow> walkBranches H sm inner visit is s
      | Inr (Some child) \<Rightarrow>
          (case visit child s of
             (Inr True, s) \<Rightarrow> walkBranches H sm inner visit is s
           | (r, s) \<Rightarrow> (r, s)))"

fun walkLeavesRec ::
  "nat \<Rightarrow> (bytes \<Rightarrow> hash256) \<Rightarrow> shamap \<Rightarrow> (item \<Rightarrow> 's \<Rightarrow> bool \<times> 's) \<Rightarrow> node \<Rightarrow> 's \<Rightarrow> (shamap_error + bool) \<times> 's" where
  "walkLeavesRec 0 H sm fn n s = (Inl OutOfFuel, s)"
| "walkLeavesRec (Suc fuel) H sm fn n s =
     (if \<not> is_inner n then (case fn (Item n) s of (cont, s) \<Rightarrow> (Inr cont, s))
      else walkBranches H sm n (walkLeavesRec fuel H sm fn) [0..<16] s)"

definition walkLeavesUnsafe ::
  "nat \<Rightarrow> (bytes \<Rightarrow> hash256) \<Rightarrow> shamap \<Rightarrow> node \<Rightarrow> (item \<Rightarrow> 's \<Rightarrow> bool \<times> 's) \<Rightarrow> 's \<Rightarrow> shamap_error option \<times> 's" where
  "walkLeavesUnsafe fuel H sm start fn s =
     (case walkLeavesRec fuel H sm fn start s of (Inl e, s) \<Rightarrow> (Some e, s) | (Inr _, s) \<Rightarrow> (None, s))"

definition ForEach ::
  "nat \<Rightarrow> (bytes \<Rightarrow> hash256) \<Rightarrow> shamap \<Rightarrow> (item \<Rightarrow> 's \<Rightarrow> bool \<times> 's) \<Rightarrow> 's \<Rightarrow> shamap_error option \<times> 's" where
  "ForEach fuel H sm fn s = walkLeavesUnsafe fuel H sm (root sm) fn s"

text \<open>
  \<open>Size\<close> returns the count, also a partial one after an error, and the map with the memoised count.
\<close>

definition Size :: "nat \<Rightarrow> (bytes \<Rightarrow> hash256) \<Rightarrow> shamap \<Rightarrow> int \<times> shamap" where
  "Size fuel H sm =
     (if cachedSize sm \<ge> 0 then (cachedSize sm, sm)
      else
        case walkLeavesUnsafe fuel H sm (root sm) (\<lambda>_ count. (True, count + 1)) 0 of
          (err, count) \<Rightarrow>
            (count, if mstate sm = stateImmutable \<and> err = None then sm\<lparr>cachedSize := count\<rparr> else sm))"

section \<open>Ordered iteration\<close>

text \<open>\<open>searchBranches\<close>: the loops that look for the first leaf below a run of branches.\<close>

fun searchBranches ::
  "(bytes \<Rightarrow> hash256) \<Rightarrow> shamap \<Rightarrow> node \<Rightarrow> (node \<Rightarrow> shamap_error + node option) \<Rightarrow> nat list \<Rightarrow>
     shamap_error + node option" where
  "searchBranches H sm inner below [] = Inr None"
| "searchBranches H sm inner below (i # is) =
     bindE (readChild H sm inner i) (\<lambda>child.
       case child of
         None \<Rightarrow> searchBranches H sm inner below is
       | Some c \<Rightarrow>
           bindE (below c) (\<lambda>result.
             case result of None \<Rightarrow> searchBranches H sm inner below is | Some leaf \<Rightarrow> Inr (Some leaf)))"

fun boundBelowCtx ::
  "nat \<Rightarrow> (bytes \<Rightarrow> hash256) \<Rightarrow> shamap \<Rightarrow> bool \<Rightarrow> node \<Rightarrow> shamap_error + node option" where
  "boundBelowCtx 0 H sm ascending n = Inl OutOfFuel"
| "boundBelowCtx (Suc fuel) H sm ascending n =
     (if \<not> is_inner n then Inr (Some n)
      else searchBranches H sm n (boundBelowCtx fuel H sm ascending)
             (if ascending then [0..<16] else rev [0..<16]))"

record iterStackEntry =
  enode :: node
  enodeID :: NodeID
  ebranch :: nat

function boundWalk ::
  "(bytes \<Rightarrow> hash256) \<Rightarrow> shamap \<Rightarrow> hash256 \<Rightarrow> node \<Rightarrow> NodeID \<Rightarrow> iterStackEntry list \<Rightarrow>
     shamap_error + iterStackEntry list" where
  "boundWalk H sm key n nodeID stack =
     (if \<not> is_inner n then Inr (\<lparr>enode = n, enodeID = nodeID, ebranch = 0\<rparr> # stack)
      else
        let branch = selectBranch nodeID key;
            stack = \<lparr>enode = n, enodeID = nodeID, ebranch = unat branch + 1\<rparr> # stack in
        if IsEmptyBranch n (unat branch) then Inr stack
        else
          bindE (readChild H sm n (unat branch)) (\<lambda>child.
            case child of
              None \<Rightarrow> Inr stack
            | Some c \<Rightarrow> bindE (childNodeID nodeID branch) (\<lambda>childID. boundWalk H sm key c childID stack)))"
  by pat_completeness auto
termination
  by (relation "measure (\<lambda>(H, sm, key, n, nodeID, stack). 64 - depth nodeID)")
    (auto dest: childNodeID_depth)

declare boundWalk.simps [simp del]

definition walkBoundStack ::
  "(bytes \<Rightarrow> hash256) \<Rightarrow> shamap \<Rightarrow> hash256 \<Rightarrow> shamap_error + iterStackEntry list" where
  "walkBoundStack H sm key = boundWalk H sm key (root sm) newRootNodeID []"

text \<open>\<open>compareKeys\<close> compares the 32 bytes lexicographically.\<close>

fun compareBytes :: "bytes \<Rightarrow> bytes \<Rightarrow> int" where
  "compareBytes [] [] = 0"
| "compareBytes [] (_ # _) = -1"
| "compareBytes (_ # _) [] = 1"
| "compareBytes (a # as) (b # bs) = (if a < b then -1 else if b < a then 1 else compareBytes as bs)"

definition compareKeys :: "hash256 \<Rightarrow> hash256 \<Rightarrow> int" where
  "compareKeys a b = compareBytes (hash_bytes a) (hash_bytes b)"

fun upperBoundLoop ::
  "nat \<Rightarrow> (bytes \<Rightarrow> hash256) \<Rightarrow> shamap \<Rightarrow> hash256 \<Rightarrow> iterStackEntry list \<Rightarrow> shamap_error + item option" where
  "upperBoundLoop fuel H sm key [] = Inr None"
| "upperBoundLoop fuel H sm key (entry # stack) =
     (if \<not> is_inner (enode entry) then
        (if compareKeys (ikey (Item (enode entry))) key > 0 then Inr (Some (Item (enode entry)))
         else upperBoundLoop fuel H sm key stack)
      else
        bindE (searchBranches H sm (enode entry) (boundBelowCtx fuel H sm True)
            [unat (selectBranch (enodeID entry) key) + 1..<16]) (\<lambda>leaf.
          case leaf of Some l \<Rightarrow> Inr (Some (Item l)) | None \<Rightarrow> upperBoundLoop fuel H sm key stack))"

definition upperBoundUnsafe ::
  "nat \<Rightarrow> (bytes \<Rightarrow> hash256) \<Rightarrow> shamap \<Rightarrow> hash256 \<Rightarrow> shamap_error + item option" where
  "upperBoundUnsafe fuel H sm key = bindE (walkBoundStack H sm key) (upperBoundLoop fuel H sm key)"

fun lowerBoundLoop ::
  "nat \<Rightarrow> (bytes \<Rightarrow> hash256) \<Rightarrow> shamap \<Rightarrow> hash256 \<Rightarrow> iterStackEntry list \<Rightarrow> shamap_error + item option" where
  "lowerBoundLoop fuel H sm key [] = Inr None"
| "lowerBoundLoop fuel H sm key (entry # stack) =
     (if \<not> is_inner (enode entry) then
        (if compareKeys (ikey (Item (enode entry))) key < 0 then Inr (Some (Item (enode entry)))
         else lowerBoundLoop fuel H sm key stack)
      else
        bindE (searchBranches H sm (enode entry) (boundBelowCtx fuel H sm False)
            (rev [0..<unat (selectBranch (enodeID entry) key)])) (\<lambda>leaf.
          case leaf of Some l \<Rightarrow> Inr (Some (Item l)) | None \<Rightarrow> lowerBoundLoop fuel H sm key stack))"

definition lowerBoundUnsafe ::
  "nat \<Rightarrow> (bytes \<Rightarrow> hash256) \<Rightarrow> shamap \<Rightarrow> hash256 \<Rightarrow> shamap_error + item option" where
  "lowerBoundUnsafe fuel H sm key = bindE (walkBoundStack H sm key) (lowerBoundLoop fuel H sm key)"

text \<open>The iterator; the map it points to is an argument of its operations.\<close>

record iterator =
  current :: "item option"
  iter_err :: "shamap_error option"

definition iter_at :: "shamap_error + item option \<Rightarrow> iterator" where
  "iter_at r = (case r of Inl e \<Rightarrow> \<lparr>current = None, iter_err = Some e\<rparr>
     | Inr i \<Rightarrow> \<lparr>current = i, iter_err = None\<rparr>)"

definition UpperBound :: "nat \<Rightarrow> (bytes \<Rightarrow> hash256) \<Rightarrow> shamap \<Rightarrow> hash256 \<Rightarrow> iterator" where
  "UpperBound fuel H sm key = iter_at (upperBoundUnsafe fuel H sm key)"

definition LowerBound :: "nat \<Rightarrow> (bytes \<Rightarrow> hash256) \<Rightarrow> shamap \<Rightarrow> hash256 \<Rightarrow> iterator" where
  "LowerBound fuel H sm key = iter_at (lowerBoundUnsafe fuel H sm key)"

definition Valid :: "iterator \<Rightarrow> bool" where
  "Valid it \<longleftrightarrow> current it \<noteq> None \<and> iter_err it = None"

definition Next :: "nat \<Rightarrow> (bytes \<Rightarrow> hash256) \<Rightarrow> shamap \<Rightarrow> iterator \<Rightarrow> bool \<times> iterator" where
  "Next fuel H sm it =
     (if iter_err it \<noteq> None then (False, it)
      else
        case current it of
          None \<Rightarrow> (False, it)
        | Some cur \<Rightarrow>
            (case upperBoundUnsafe fuel H sm (ikey cur) of
               Inl e \<Rightarrow> (False, it\<lparr>iter_err := Some e, current := None\<rparr>)
             | Inr next \<Rightarrow> (next \<noteq> None, it\<lparr>current := next\<rparr>)))"

end
