(* ===== verification/Shamap_Inv.thy ===== *)
theory Shamap_Inv
  imports Shamap_Ops
begin

text \<open>
  The invariant of resident SHAMap trees and what their operations compute.  \<open>look\<close> reads a tree as a
  finite map from keys to items with their leaf kinds; \<open>node_wf\<close> is the shape every operation keeps: the
  branch bits, the cached hashes and the node hash agree with the children, every key below a branch
  has that branch's digit, leaves hold at least 12 bytes, and an inner node other than the root has
  at least two leaves below it.
\<close>

section \<open>Leaves\<close>

primrec leaves :: "node \<Rightarrow> (item \<times> leafKind) list" where
  "leaves (InnerNode h d cs hs br g) =
     concat (map (\<lambda>o'. case o' of None \<Rightarrow> [] | Some xs \<Rightarrow> xs) (map (map_option leaves) cs))"
| "leaves (LeafNode h d it k) = [(it, k)]"

definition slot_leaves :: "node option \<Rightarrow> (item \<times> leafKind) list" where
  "slot_leaves c = (case c of None \<Rightarrow> [] | Some n \<Rightarrow> leaves n)"

lemma slot_leaves_simps [simp]: "slot_leaves None = []" "slot_leaves (Some n) = leaves n"
  by (simp_all add: slot_leaves_def)

lemma leaves_inner: "is_inner n \<Longrightarrow> leaves n = concat (map slot_leaves (children n))"
proof -
  have "(case map_option leaves c of None \<Rightarrow> [] | Some xs \<Rightarrow> xs) = slot_leaves c" for c
    by (cases c) simp_all
  then show "is_inner n \<Longrightarrow> leaves n = concat (map slot_leaves (children n))"
    by (cases n) (simp_all add: is_inner_def o_def)
qed

lemma leaves_leaf: "\<not> is_inner n \<Longrightarrow> leaves n = [(Item n, kind n)]"
  by (cases n) (simp_all add: is_inner_def)

declare leaves.simps(1) [simp del]

abbreviation lkey :: "item \<times> leafKind \<Rightarrow> hash256" where
  "lkey x \<equiv> ikey (fst x)"

definition look :: "node \<Rightarrow> hash256 \<Rightarrow> (item \<times> leafKind) option" where
  "look n = map_of (map (\<lambda>x. (lkey x, x)) (leaves n))"

definition slot_look :: "node option \<Rightarrow> hash256 \<Rightarrow> (item \<times> leafKind) option" where
  "slot_look c k = (case c of None \<Rightarrow> None | Some n \<Rightarrow> look n k)"

lemma slot_look_simps [simp]: "slot_look None k = None" "slot_look (Some n) k = look n k"
  by (simp_all add: slot_look_def)

lemma look_leaf [simp]: "\<not> is_inner n \<Longrightarrow> look n k = (if k = ikey (Item n) then Some (Item n, kind n) else None)"
  by (auto simp: look_def leaves_leaf)

lemma look_Some_in: "look n k = Some x \<Longrightarrow> x \<in> set (leaves n) \<and> lkey x = k"
  by (auto simp: look_def dest: map_of_SomeD)

lemma look_None_iff: "look n k = None \<longleftrightarrow> k \<notin> lkey ` set (leaves n)"
  by (simp add: look_def map_of_eq_None_iff image_image)

section \<open>The invariant\<close>

text \<open>\<open>weak_wf\<close> drops the lower bound on the number of leaves below the node itself.\<close>

definition slot_ok :: "(nat \<Rightarrow> node \<Rightarrow> bool) \<Rightarrow> nat \<Rightarrow> node \<Rightarrow> nat \<Rightarrow> bool" where
  "slot_ok W d n i \<longleftrightarrow>
     (case children n ! i of
        None \<Rightarrow> \<not> bit (isBranch n) i \<and> hashes n ! i = 0
      | Some c \<Rightarrow> bit (isBranch n) i \<and> hashes n ! i = Hash c \<and>
          list_all (\<lambda>x. nib (lkey x) d = i) (leaves c) \<and> W (Suc d) c)"

definition inner_ok :: "(bytes \<Rightarrow> hash256) \<Rightarrow> (nat \<Rightarrow> node \<Rightarrow> bool) \<Rightarrow> nat \<Rightarrow> node \<Rightarrow> bool" where
  "inner_ok H W d n \<longleftrightarrow>
     d < 64 \<and> length (children n) = 16 \<and> length (hashes n) = 16 \<and>
     Hash n = inner_hash H (children n) (hashes n) (isBranch n) \<and>
     list_all (slot_ok W d n) [0..<16]"

definition leaf_ok :: "(bytes \<Rightarrow> hash256) \<Rightarrow> nat \<Rightarrow> node \<Rightarrow> bool" where
  "leaf_ok H d n \<longleftrightarrow>
     1 \<le> d \<and> d \<le> 64 \<and> Hash n = H (leaf_preimage (Item n) (kind n)) \<and> 12 \<le> length (idata (Item n))"

lemma slot_ok_cong [fundef_cong]:
  assumes "n = n'" "d = d'" "i = i'"
    and "\<And>c. children n' ! i' = Some c \<Longrightarrow> W (Suc d') c = W' (Suc d') c"
  shows "slot_ok W d n i = slot_ok W' d' n' i'"
  using assms by (auto simp: slot_ok_def split: option.splits)

lemma inner_ok_cong [fundef_cong]:
  assumes "H = H'" "n = n'" "d = d'"
    and "\<And>i c. length (children n') = 16 \<Longrightarrow> i < 16 \<Longrightarrow> children n' ! i = Some c \<Longrightarrow> W (Suc d') c = W' (Suc d') c"
  shows "inner_ok H W d n = inner_ok H' W' d' n'"
proof (cases "length (children n') = 16")
  case True
  then have "slot_ok W d n i = slot_ok W' d' n' i" if "i < 16" for i
    using assms that by (intro slot_ok_cong) auto
  then show ?thesis using assms(1-3) by (auto simp: inner_ok_def list_all_iff)
qed (use assms in \<open>simp add: inner_ok_def\<close>)

lemma size_child:
  assumes "children n ! i = Some c" "i < length (children n)" "is_inner n"
  shows "size c < size n"
proof -
  have "Some c \<in> set (children n)" using assms by (metis nth_mem)
  then show ?thesis using assms(3)
    by (cases n) (auto simp: is_inner_def dest!: size_list_estimation'[where f = "size_option size" and y = "size c"])
qed

function node_wf :: "(bytes \<Rightarrow> hash256) \<Rightarrow> nat \<Rightarrow> node \<Rightarrow> bool" where
  "node_wf H d n \<longleftrightarrow>
     (if is_inner n then inner_ok H (node_wf H) d n \<and> (d = 0 \<or> 2 \<le> length (leaves n)) else leaf_ok H d n)"
  by pat_completeness auto
termination
  by (relation "measure (\<lambda>(H, d, n). size n)") (auto intro: size_child)

declare node_wf.simps [simp del]

lemma node_wf_inner:
  "is_inner n \<Longrightarrow> node_wf H d n \<longleftrightarrow> inner_ok H (node_wf H) d n \<and> (d = 0 \<or> 2 \<le> length (leaves n))"
  by (subst node_wf.simps) simp

lemma node_wf_leaf: "\<not> is_inner n \<Longrightarrow> node_wf H d n \<longleftrightarrow> leaf_ok H d n"
  by (subst node_wf.simps) simp

abbreviation weak_wf :: "(bytes \<Rightarrow> hash256) \<Rightarrow> nat \<Rightarrow> node \<Rightarrow> bool" where
  "weak_wf H d n \<equiv> is_inner n \<and> inner_ok H (node_wf H) d n"

lemma inner_ok_slot: "inner_ok H W d n \<Longrightarrow> i < 16 \<Longrightarrow> slot_ok W d n i"
  by (simp add: inner_ok_def list_all_iff)

lemma inner_ok_child:
  assumes "inner_ok H W d n" "i < 16" "children n ! i = Some c"
  shows "W (Suc d) c" "bit (isBranch n) i" "\<And>x. x \<in> set (leaves c) \<Longrightarrow> nib (lkey x) d = i"
  using inner_ok_slot[OF assms(1,2)] assms(3) by (auto simp: slot_ok_def list_all_iff)

lemma node_wf_nonempty: "node_wf H d n \<Longrightarrow> 0 < d \<Longrightarrow> leaves n \<noteq> []"
  by (cases "is_inner n") (auto simp: node_wf_inner leaves_leaf)

section \<open>Reading one branch\<close>

lemma map_of_concat_at:
  "j < length xss \<Longrightarrow> (\<And>i. i < length xss \<Longrightarrow> i \<noteq> j \<Longrightarrow> k \<notin> fst ` set (xss ! i)) \<Longrightarrow>
     map_of (concat xss) k = map_of (xss ! j) k"
proof (induction xss arbitrary: j)
  case (Cons xs xss)
  show ?case
  proof (cases j)
    case 0
    have "k \<notin> fst ` set ys" if "ys \<in> set xss" for ys
    proof -
      obtain i where "i < length xss" "ys = xss ! i" using \<open>ys \<in> set xss\<close> by (metis in_set_conv_nth)
      then show ?thesis using Cons.prems(2)[of "Suc i"] 0 by simp
    qed
    then have "map_of (concat xss) k = None" by (auto simp: map_of_eq_None_iff)
    with 0 show ?thesis by (simp add: map_add_def split: option.splits)
  next
    case (Suc j')
    have "map_of xs k = None" using Cons.prems(2)[of 0] Suc by (simp add: map_of_eq_None_iff)
    moreover have "map_of (concat xss) k = map_of (xss ! j') k"
    proof (rule Cons.IH)
      show "j' < length xss" using Cons.prems(1) Suc by simp
      show "k \<notin> fst ` set (xss ! i)" if "i < length xss" "i \<noteq> j'" for i
        using Cons.prems(2)[of "Suc i"] that Suc by simp
    qed
    ultimately show ?thesis using Suc by (simp add: map_add_def split: option.splits)
  qed
qed simp

lemma look_inner:
  assumes "weak_wf H d n"
  shows "look n k = slot_look (children n ! nib k d) k"
proof -
  let ?f = "\<lambda>c. map (\<lambda>x. (lkey x, x)) (slot_leaves c)"
  have len: "length (children n) = 16" using assms by (simp add: inner_ok_def)
  have "look n k = map_of (concat (map ?f (children n))) k"
    using assms by (simp add: look_def leaves_inner map_concat o_def)
  also have "\<dots> = map_of (map ?f (children n) ! nib k d) k"
  proof (rule map_of_concat_at)
    show "k \<notin> fst ` set (map ?f (children n) ! i)" if "i < length (map ?f (children n))" "i \<noteq> nib k d" for i
      using inner_ok_child(3)[of H "node_wf H" d n i] assms that len
      by (cases "children n ! i") auto
  qed (simp add: len)
  also have "\<dots> = slot_look (children n ! nib k d) k"
    using len by (cases "children n ! nib k d") (simp_all add: look_def)
  finally show ?thesis .
qed

section \<open>Replacing one branch\<close>

lemma length_concat_update:
  "i < length xs \<Longrightarrow> length (concat (map f (xs[i := y]))) + length (f (xs ! i)) =
     length (concat (map f xs)) + length (f y)"
proof (induction xs arbitrary: i)
  case (Cons x xs)
  then show ?case by (cases i) simp_all
qed simp

lemma bit_set_branch: "bit ((w :: u16) OR push_bit i 1) j \<longleftrightarrow> bit w j \<or> (j = i \<and> j < 16)"
  unfolding bit_or_iff bit_push_1 ..

lemma bit_clear_branch: "i < 16 \<Longrightarrow> bit ((w :: u16) AND NOT (push_bit i 1)) j \<longleftrightarrow> bit w j \<and> j \<noteq> i"
  unfolding bit_and_iff bit_not_iff bit_push_1 by (auto dest: bit_u16_less)

definition slot_wf :: "(bytes \<Rightarrow> hash256) \<Rightarrow> nat \<Rightarrow> nat \<Rightarrow> node option \<Rightarrow> bool" where
  "slot_wf H d i c \<longleftrightarrow>
     (case c of None \<Rightarrow> True | Some n \<Rightarrow> node_wf H (Suc d) n \<and> (\<forall>x\<in>set (leaves n). nib (lkey x) d = i))"

lemma SetChild_weak_wf:
  assumes n: "weak_wf H d n" and i: "i < 16" and c: "slot_wf H d i c"
  obtains n' where "SetChild H (shallowClone n) i c = Inr n'" "weak_wf H d n'"
    "children n' = (children n)[i := c]"
    "length (leaves n') + length (slot_leaves (children n ! i)) = length (leaves n) + length (slot_leaves c)"
proof -
  have len: "d < 64" "length (children n) = 16" "length (hashes n) = 16" using n by (simp_all add: inner_ok_def)
  define n' where "n' = UpdateHash H (InnerNode (Hash n) True ((children n)[i := c])
    ((hashes n)[i := case c of Some c \<Rightarrow> Hash c | None \<Rightarrow> 0])
    (case c of Some c \<Rightarrow> isBranch n OR push_bit i 1 | None \<Rightarrow> isBranch n AND NOT (push_bit i 1))
    (fullBelowGen n))"
  have s: "SetChild H (shallowClone n) i c = Inr n'"
    using i by (cases c) (simp_all add: SetChild_def shallowClone_def n'_def Let_def)
  have "slot_ok (node_wf H) d n' j" if j: "j < 16" for j
  proof (cases "j = i")
    case True
    then show ?thesis using c i len
      by (auto simp: slot_ok_def n'_def slot_wf_def list_all_iff bit_set_branch bit_clear_branch
          simp del: push_bit_of_1 split: option.splits)
  next
    case False
    then show ?thesis using inner_ok_slot[of H "node_wf H" d n j] n j i len
      by (auto simp: slot_ok_def n'_def bit_set_branch bit_clear_branch simp del: push_bit_of_1
          split: option.splits)
  qed
  then have w: "weak_wf H d n'" using len by (simp add: inner_ok_def list_all_iff n'_def is_inner_def)
  have cs: "children n' = (children n)[i := c]" by (simp add: n'_def)
  have "length (leaves n') + length (slot_leaves (children n ! i)) = length (leaves n) + length (slot_leaves c)"
    using length_concat_update[of i "children n" slot_leaves c] i len w n cs by (simp add: leaves_inner)
  with s w cs show thesis by (rule that)
qed

lemma SetChild_look:
  assumes "weak_wf H d n" "weak_wf H d n'" "children n' = (children n)[i := c]" "i < 16"
  shows "look n' k = (if nib k d = i then slot_look c k else look n k)"
proof -
  have "length (children n) = 16" using assms(1) by (simp add: inner_ok_def)
  then show ?thesis using look_inner[OF assms(1)] look_inner[OF assms(2)] assms(3,4) by simp
qed

lemma shallowClone_new [simp]: "shallowClone newInnerNode = newInnerNode"
  by (simp add: shallowClone_def newInnerNode_def)

lemma newInnerNode_weak_wf: "d < 64 \<Longrightarrow> weak_wf H d newInnerNode"
  by (auto simp: newInnerNode_def is_inner_def inner_ok_def slot_ok_def list_all_iff inner_hash_def)

lemma look_new [simp]: "look newInnerNode k = None"
  by (simp add: look_def leaves_inner is_inner_def newInnerNode_def)

section \<open>The path to a key\<close>

text \<open>
  \<open>path k d n r ps\<close>: the walk toward \<open>k\<close> from the inner node \<open>n\<close> at depth \<open>d\<close> passes the inner nodes
  of \<open>ps\<close> (deepest first) and ends in the slot \<open>r\<close> that is empty or holds a leaf.
\<close>

inductive path :: "hash256 \<Rightarrow> nat \<Rightarrow> node \<Rightarrow> node option \<Rightarrow> (node \<times> NodeID) list \<Rightarrow> bool" for k where
  path_end: "\<lbrakk>is_inner n; depth nid = d; children n ! nib k d = r; \<And>c. r = Some c \<Longrightarrow> \<not> is_inner c\<rbrakk>
     \<Longrightarrow> path k d n r [(n, nid)]"
| path_step: "\<lbrakk>is_inner n; depth nid = d; children n ! nib k d = Some c; path k (Suc d) c r ps\<rbrakk>
     \<Longrightarrow> path k d n r (ps @ [(n, nid)])"

lemma path_inner: "path k d n r ps \<Longrightarrow> is_inner n"
  by (induction rule: path.induct)

lemma path_result: "path k d n (Some c) ps \<Longrightarrow> \<not> is_inner c"
  by (induction d n "Some c" ps rule: path.induct) auto

lemma readChild_resident:
  assumes "weak_wf H d n" "i < 16"
  shows "readChild H sm n i = Inr (children n ! i)"
  using inner_ok_slot[of H "node_wf H" d n i] assms
  by (auto simp: readChild_def LoadChild_def slot_ok_def isZeroHash_def split: option.splits)

lemma IsEmptyBranch_resident:
  assumes "weak_wf H d n" "i < 16"
  shows "IsEmptyBranch n i \<longleftrightarrow> children n ! i = None"
  using inner_ok_slot[of H "node_wf H" d n i] assms
  by (auto simp: IsEmptyBranch_def slot_ok_def split: option.splits)

lemma node_wf_weak: "node_wf H d n \<Longrightarrow> is_inner n \<Longrightarrow> weak_wf H d n"
  by (simp add: node_wf_inner)

lemma weak_wf_child: "weak_wf H d n \<Longrightarrow> children n ! nib k d = Some c \<Longrightarrow> node_wf H (Suc d) c"
  using inner_ok_child(1)[of H "node_wf H" d n "nib k d" c] nib_less[of k d] by blast

lemma walkLoop_path:
  assumes "weak_wf H d n" "depth nid = d"
  shows "\<exists>r nid' ps. walkLoop H sm k n nid stk = Inr (r, nid', ps @ stk) \<and> path k d n r ps"
  using assms
proof (induction "64 - d" arbitrary: d n nid stk rule: less_induct)
  case less
  have d: "d < 64" using less.prems by (simp add: inner_ok_def)
  have br: "unat (selectBranch nid k) = nib k d" using d less.prems by simp
  show ?case
  proof (cases "children n ! nib k d")
    case None
    then have "walkLoop H sm k n nid stk = Inr (None, nid, [(n, nid)] @ stk)"
      using less.prems IsEmptyBranch_resident[OF less.prems(1)] by (simp add: walkLoop.simps[of H sm k n] br)
    then show ?thesis using path_end[of n nid d k None] less.prems None by blast
  next
    case (Some c)
    obtain cid where cid: "childNodeID nid (selectBranch nid k) = Inr cid" "depth cid = Suc d"
      using childNodeID_defined[of nid k] d less.prems(2) by auto
    have w: "walkLoop H sm k n nid stk = walkLoop H sm k c cid ((n, nid) # stk)"
      using less.prems IsEmptyBranch_resident[OF less.prems(1)] readChild_resident[OF less.prems(1)] Some
      by (simp add: walkLoop.simps[of H sm k n] br cid)
    have c: "node_wf H (Suc d) c" by (rule weak_wf_child[OF less.prems(1) Some])
    show ?thesis
    proof (cases "is_inner c")
      case True
      have "64 - Suc d < 64 - d" using d by simp
      from less.hyps[OF this node_wf_weak[OF c True] cid(2), of "(n, nid) # stk"] obtain r nid' ps
        where "walkLoop H sm k c cid ((n, nid) # stk) = Inr (r, nid', ps @ (n, nid) # stk)"
          "path k (Suc d) c r ps" by blast
      then show ?thesis using path_step[of n nid d k c r ps] less.prems Some w
        by (intro exI[of _ r] exI[of _ nid'] exI[of _ "ps @ [(n, nid)]"]) simp
    next
      case False
      then have "walkLoop H sm k c cid ((n, nid) # stk) = Inr (Some c, cid, (n, nid) # stk)"
        by (simp add: walkLoop.simps)
      then show ?thesis using path_end[of n nid d k "Some c"] less.prems Some w False
        by (intro exI[of _ "Some c"] exI[of _ cid] exI[of _ "[(n, nid)]"]) simp
    qed
  qed
qed

text \<open>Keys that agree with \<open>k\<close> on the digits from \<open>d\<close> to before \<open>D\<close>.\<close>

definition agree :: "hash256 \<Rightarrow> hash256 \<Rightarrow> nat \<Rightarrow> nat \<Rightarrow> bool" where
  "agree k q d D \<longleftrightarrow> (\<forall>j. d \<le> j \<and> j < D \<longrightarrow> nib q j = nib k j)"

lemma agree_step: "d < D \<Longrightarrow> agree k q d D \<longleftrightarrow> nib q d = nib k d \<and> agree k q (Suc d) D"
  unfolding agree_def by (metis Suc_leD Suc_leI le_neq_implies_less order_refl)

lemma agree_refl [simp]: "agree k k d D" "agree k q d d"
  by (auto simp: agree_def)

lemma path_length: "path k d n r ps \<Longrightarrow> 1 \<le> length ps"
  by (induction rule: path.induct) simp_all

lemma path_depth: "path k d n r ps \<Longrightarrow> weak_wf H d n \<Longrightarrow> d + length ps \<le> 64"
proof (induction rule: path.induct)
  case (path_step n nid d c r ps)
  have "node_wf H (Suc d) c" by (rule weak_wf_child[OF path_step.prems(1) path_step.hyps(3)])
  then show ?case using path_step.IH path_inner[OF path_step.hyps(4)] by (simp add: node_wf_inner)
qed (simp add: inner_ok_def)

lemma path_look:
  "path k d n r ps \<Longrightarrow> weak_wf H d n \<Longrightarrow> agree k q d (d + length ps) \<Longrightarrow> look n q = slot_look r q"
proof (induction rule: path.induct)
  case (path_end n nid d r)
  then have "nib q d = nib k d" by (simp add: agree_def)
  then show ?case using look_inner[OF path_end.prems(1), of q] path_end.hyps by simp
next
  case (path_step n nid d c r ps)
  have "node_wf H (Suc d) c" by (rule weak_wf_child[OF path_step.prems(1) path_step.hyps(3)])
  then have "weak_wf H (Suc d) c" using path_inner[OF path_step.hyps(4)] by (simp add: node_wf_inner)
  moreover have "nib q d = nib k d" "agree k q (Suc d) (Suc d + length ps)"
    using path_step.prems(2) by (simp_all add: agree_step)
  ultimately show ?case using look_inner[OF path_step.prems(1), of q] path_step by simp
qed

lemma path_agree:
  "path k d n r ps \<Longrightarrow> weak_wf H d n \<Longrightarrow> r = Some c \<Longrightarrow> node_wf H (d + length ps) c \<and> agree k (ikey (Item c)) d (d + length ps)"
proof (induction rule: path.induct)
  case (path_end n nid d r)
  then have "leaves c = [(Item c, kind c)]" by (simp add: leaves_leaf)
  then show ?case using inner_ok_child[of H "node_wf H" d n "nib k d" c] path_end
    by (auto simp: agree_def less_Suc_eq)
next
  case (path_step n nid d b r ps)
  have b: "node_wf H (Suc d) b" by (rule weak_wf_child[OF path_step.prems(1) path_step.hyps(3)])
  then have w: "weak_wf H (Suc d) b" using path_inner[OF path_step.hyps(4)] by (simp add: node_wf_inner)
  with path_step have IH: "node_wf H (Suc d + length ps) c" "agree k (ikey (Item c)) (Suc d) (Suc d + length ps)" by auto
  have "look b (ikey (Item c)) = Some (Item c, kind c)"
    using path_look[OF path_step.hyps(4) w IH(2)] path_step.prems(2) path_result path_step.hyps(4) by auto
  then have "nib (ikey (Item c)) d = nib k d"
    using inner_ok_child(3)[of H "node_wf H" d n "nib k d" b "(Item c, kind c)"] path_step look_Some_in by auto
  with IH show ?case by (simp add: agree_step)
qed

section \<open>Rebuilding the path\<close>

lemma dirtyUpLoop_append:
  "dirtyUpLoop H (ps @ qs) k x = bindE (dirtyUpLoop H ps k x) (dirtyUpLoop H qs k)"
proof (induction ps arbitrary: x)
  case (Cons p ps)
  show ?case
  proof (cases p)
    case (Pair n nid)
    show ?thesis unfolding Pair
      by (cases "SetChild H (shallowClone n) (unat (selectBranch nid k)) (Some x)")
        (simp_all add: Cons.IH)
  qed
qed simp

lemma slot_wf_Some:
  assumes "node_wf H (Suc d) x" "\<forall>y\<in>set (leaves x). agree k (lkey y) d D" "d < D"
  shows "slot_wf H d (nib k d) (Some x)"
  using assms by (auto simp: slot_wf_def agree_def)

lemma dirtyUpLoop_path:
  assumes "path k d n r ps" "weak_wf H d n" "D = d + length ps" "node_wf H D x"
    "\<forall>y\<in>set (leaves x). agree k (lkey y) d D" "length (slot_leaves r) \<le> length (leaves x)"
  shows "\<exists>n'. dirtyUpLoop H ps k x = Inr n' \<and> weak_wf H d n' \<and>
    length (leaves n') + length (slot_leaves r) = length (leaves n) + length (leaves x) \<and>
    (\<forall>q. look n' q = (if agree k q d D then look x q else look n q))"
  using assms
proof (induction arbitrary: D rule: path.induct)
  case (path_end n nid d r)
  have d: "d < 64" using path_end.prems(1) by (simp add: inner_ok_def)
  have D: "D = Suc d" using path_end.prems by simp
  have x: "slot_wf H d (nib k d) (Some x)" using path_end.prems(3,4) unfolding D by (rule slot_wf_Some) simp
  obtain n' where n': "SetChild H (shallowClone n) (nib k d) (Some x) = Inr n'" "weak_wf H d n'"
    "children n' = (children n)[nib k d := Some x]"
    "length (leaves n') + length (slot_leaves (children n ! nib k d)) = length (leaves n) + length (leaves x)"
    using SetChild_weak_wf[OF path_end.prems(1) nib_less x] by auto
  have "look n' q = (if agree k q d D then look x q else look n q)" for q
    using SetChild_look[OF path_end.prems(1) n'(2,3) nib_less, of q] by (simp add: D agree_step)
  then show ?case using n' path_end.hyps d by auto
next
  case (path_step n nid d c r ps)
  have d: "d < 64" using path_step.prems(1) by (simp add: inner_ok_def)
  have c: "node_wf H (Suc d) c" by (rule weak_wf_child[OF path_step.prems(1) path_step.hyps(3)])
  have w: "weak_wf H (Suc d) c" using c path_inner[OF path_step.hyps(4)] by (simp add: node_wf_inner)
  have D: "D = Suc d + length ps" "d < D" using path_step.prems(2) by simp_all
  have ag: "\<forall>y\<in>set (leaves x). agree k (lkey y) (Suc d) D"
    using path_step.prems(4) D by (simp add: agree_step)
  obtain c' where c': "dirtyUpLoop H ps k x = Inr c'" "weak_wf H (Suc d) c'"
    "length (leaves c') + length (slot_leaves r) = length (leaves c) + length (leaves x)"
    "\<And>q. look c' q = (if agree k q (Suc d) D then look x q else look c q)"
    using path_step.IH[OF w D(1) path_step.prems(3) ag path_step.prems(5)] by blast
  have "2 \<le> length (leaves c)" using c w by (simp add: node_wf_inner)
  then have c'2: "node_wf H (Suc d) c'" using c' path_step.prems(5) by (simp add: node_wf_inner)
  have nibs: "\<forall>y\<in>set (leaves c'). nib (lkey y) d = nib k d"
  proof
    fix y assume "y \<in> set (leaves c')"
    then have "look c' (lkey y) \<noteq> None" by (simp add: look_None_iff)
    then consider "agree k (lkey y) (Suc d) D" "look x (lkey y) \<noteq> None" | "look c (lkey y) \<noteq> None"
      using c'(4)[of "lkey y"] by (auto split: if_splits)
    then show "nib (lkey y) d = nib k d"
    proof cases
      case 1
      then obtain z where "z \<in> set (leaves x)" "lkey z = lkey y" by (auto simp: look_None_iff)
      then show ?thesis using path_step.prems(4) D by (metis agree_step)
    next
      case 2
      then obtain z where "z \<in> set (leaves c)" "lkey z = lkey y" by (auto simp: look_None_iff)
      then show ?thesis
        using inner_ok_child(3)[OF _ nib_less path_step.hyps(3)] path_step.prems(1) by metis
    qed
  qed
  have slot: "slot_wf H d (nib k d) (Some c')" using c'2 nibs by (simp add: slot_wf_def)
  obtain n' where n': "SetChild H (shallowClone n) (nib k d) (Some c') = Inr n'" "weak_wf H d n'"
    "children n' = (children n)[nib k d := Some c']"
    "length (leaves n') + length (leaves c) = length (leaves n) + length (leaves c')"
    using SetChild_weak_wf[OF path_step.prems(1) nib_less slot] path_step.hyps(3) by auto
  have "look n' q = (if agree k q d D then look x q else look n q)" for q
    using SetChild_look[OF path_step.prems(1) n'(2,3) nib_less, of q] c'(4)[of q] D(2)
      look_inner[OF path_step.prems(1), of q] path_step.hyps(3)
    by (auto simp: agree_step)
  moreover have "dirtyUpLoop H (ps @ [(n, nid)]) k x = Inr n'"
    using c'(1) n'(1) path_step.hyps d by (simp add: dirtyUpLoop_append)
  ultimately show ?case using n' c'(3) by auto
qed

section \<open>Insertion\<close>

fun type_kind :: "NodeType \<Rightarrow> leafKind" where
  "type_kind NodeTypeTransactionNoMeta = leafTransaction"
| "type_kind NodeTypeTransactionWithMeta = leafTransactionWithMeta"
| "type_kind _ = leafAccountState"

definition fresh_leaf :: "(bytes \<Rightarrow> hash256) \<Rightarrow> item \<Rightarrow> leafKind \<Rightarrow> node" where
  "fresh_leaf H it k = LeafNode (H (leaf_preimage it k)) True it k"

lemma fresh_leaf_simps [simp]:
  "\<not> is_inner (fresh_leaf H it k)" "Item (fresh_leaf H it k) = it" "kind (fresh_leaf H it k) = k"
  by (simp_all add: fresh_leaf_def is_inner_def)

lemma createLeafNode_eq:
  "createLeafNode H nt it =
     (if nt = NodeTypeInner then Inl (Errorf ''invalid node type for leaf'')
      else if length (idata it) < 12 then Inl errItemTooSmall
      else Inr (fresh_leaf H it (type_kind nt)))"
  by (cases nt) (simp_all add: createLeafNode_def newLeafNode_def fresh_leaf_def)

lemma fresh_leaf_wf: "1 \<le> d \<Longrightarrow> d \<le> 64 \<Longrightarrow> 12 \<le> length (idata it) \<Longrightarrow> node_wf H d (fresh_leaf H it k)"
  by (simp add: node_wf_leaf leaf_ok_def fresh_leaf_def is_inner_def)

lemma leaf_wf_depth: "\<not> is_inner n \<Longrightarrow> node_wf H d n \<Longrightarrow> 1 \<le> d' \<Longrightarrow> d' \<le> 64 \<Longrightarrow> node_wf H d' n"
  by (simp add: node_wf_leaf leaf_ok_def)

lemma SetChild_overwrite:
  assumes "SetChild H n i (Some a) = Inr n'"
  shows "SetChild H n' i (Some b) = SetChild H n i (Some b)"
proof -
  have i: "\<not> 16 \<le> i" using assms by (auto simp: SetChild_def)
  then have n': "n' = UpdateHash H (InnerNode (Hash n) True ((children n)[i := Some a])
      ((hashes n)[i := Hash a]) (isBranch n OR push_bit i 1) (fullBelowGen n))"
    using assms by (simp add: SetChild_def Let_def del: push_bit_of_1)
  have "(isBranch n OR push_bit i 1) OR push_bit i 1 = isBranch n OR push_bit i 1"
    by (simp only: or.assoc or.idem)
  then show ?thesis using i by (simp add: SetChild_def Let_def n' del: push_bit_of_1)
qed

lemma SetChild_new_defined: "i < 16 \<Longrightarrow> \<exists>n. SetChild H newInnerNode i (Some c) = Inr n"
  by (simp add: SetChild_def Let_def)

lemma splitChain_Suc:
  assumes "d < 64"
  shows "splitChain H k k' a b d (Suc m) =
    bindE (splitChain H k k' a b (Suc d) m) (\<lambda>c. SetChild H newInnerNode (nib k d) (Some c))"
proof -
  obtain n where n: "SetChild H newInnerNode (nib k d) (Some newInnerNode) = Inr n"
    using SetChild_new_defined[OF nib_less] by blast
  have "SetChild H n (nib k d) (Some c) = SetChild H newInnerNode (nib k d) (Some c)" for c
    by (rule SetChild_overwrite[OF n])
  with n assms show ?thesis by simp
qed

lemma shallowClone_dirty: "is_inner n \<Longrightarrow> IsDirty n \<Longrightarrow> shallowClone n = n"
  by (cases n) (simp_all add: shallowClone_def is_inner_def)

lemma SetChild_dirty: "SetChild H n i c = Inr n' \<Longrightarrow> is_inner n' \<and> IsDirty n'"
  by (auto simp: SetChild_def Let_def is_inner_def split: if_splits option.splits)

lemma slot_wf_leaf: "\<not> is_inner a \<Longrightarrow> node_wf H (Suc d) a \<Longrightarrow> slot_wf H d (nib (ikey (Item a)) d) (Some a)"
  by (simp add: slot_wf_def leaves_leaf)

lemma leaves_new [simp]: "leaves newInnerNode = []"
  by (simp add: newInnerNode_def leaves_inner is_inner_def)

lemma children_new [simp]: "i < 16 \<Longrightarrow> children newInnerNode ! i = None"
  by (simp add: newInnerNode_def)

lemma SetChild_new:
  assumes "d < 64" "slot_wf H d i (Some c)" "i < 16"
  obtains n where "SetChild H newInnerNode i (Some c) = Inr n" "weak_wf H d n" "shallowClone n = n"
    "children n = (children newInnerNode)[i := Some c]" "length (leaves n) = length (leaves c)"
    "\<forall>q. look n q = (if nib q d = i then look c q else None)"
proof -
  note w = newInnerNode_weak_wf[OF assms(1), of H]
  obtain n where n: "SetChild H (shallowClone newInnerNode) i (Some c) = Inr n" "weak_wf H d n"
    "children n = (children newInnerNode)[i := Some c]"
    "length (leaves n) + length (slot_leaves (children newInnerNode ! i)) =
      length (leaves newInnerNode) + length (slot_leaves (Some c))"
    by (rule SetChild_weak_wf[OF w assms(3,2)])
  have "length (leaves n) = length (leaves c)" using n(4) assms(3) by simp
  moreover have "shallowClone n = n" using SetChild_dirty[OF n(1)] by (simp add: shallowClone_dirty)
  moreover have "\<forall>q. look n q = (if nib q d = i then look c q else None)"
    using SetChild_look[OF w n(2,3) assms(3)] by simp
  ultimately show thesis using that[OF n(1)[unfolded shallowClone_new] n(2) _ n(3)] by blast
qed

abbreviation two_items :: "node \<Rightarrow> node \<Rightarrow> hash256 \<Rightarrow> (item \<times> leafKind) option" where
  "two_items a b q \<equiv> (if q = ikey (Item a) then Some (Item a, kind a)
     else if q = ikey (Item b) then Some (Item b, kind b) else None)"

lemma splitChain_base:
  assumes "\<not> is_inner a" "\<not> is_inner b" "node_wf H (Suc d) a" "node_wf H (Suc d) b" "d < 64" "1 \<le> d"
    and k: "k = ikey (Item a)" "k' = ikey (Item b)" and ne: "nib k d \<noteq> nib k' d"
  shows "\<exists>x. splitChain H k k' a b d 0 = Inr x \<and> node_wf H d x \<and> is_inner x \<and> length (leaves x) = 2 \<and>
    (\<forall>q. look x q = two_items a b q)"
proof -
  have s: "slot_wf H d (nib k d) (Some a)" "slot_wf H d (nib k' d) (Some b)"
    unfolding k by (rule slot_wf_leaf; fact)+
  obtain n1 where n1: "SetChild H newInnerNode (nib k d) (Some a) = Inr n1" "weak_wf H d n1" "shallowClone n1 = n1"
    "children n1 = (children newInnerNode)[nib k d := Some a]" "length (leaves n1) = length (leaves a)"
    "\<forall>q. look n1 q = (if nib q d = nib k d then look a q else None)"
    by (rule SetChild_new[OF assms(5) s(1) nib_less])
  obtain x where x: "SetChild H (shallowClone n1) (nib k' d) (Some b) = Inr x" "weak_wf H d x"
    "children x = (children n1)[nib k' d := Some b]"
    "length (leaves x) + length (slot_leaves (children n1 ! nib k' d)) = length (leaves n1) + length (slot_leaves (Some b))"
    by (rule SetChild_weak_wf[OF n1(2) nib_less s(2)])
  have "children n1 ! nib k' d = None" using ne by (simp add: n1(4))
  then have "length (leaves x) = 2" using x(4) n1(5) assms(1,2) by (simp add: leaves_leaf)
  moreover have "look x q = two_items a b q" for q
    using SetChild_look[OF n1(2) x(2,3) nib_less, of q] n1(6) ne assms(1,2) k by auto
  moreover have "splitChain H k k' a b d 0 = Inr x" using n1(1,3) x(1) assms(5) by simp
  ultimately show ?thesis using x(2) by (simp add: node_wf_inner)
qed

lemma splitChain_correct:
  assumes "\<not> is_inner a" "\<not> is_inner b" "node_wf H (Suc (d + m)) a" "node_wf H (Suc (d + m)) b"
    "d + m < 64" "1 \<le> d"
    and k: "k = ikey (Item a)" "k' = ikey (Item b)"
    and eq: "\<And>j. d \<le> j \<Longrightarrow> j < d + m \<Longrightarrow> nib k j = nib k' j" and ne: "nib k (d + m) \<noteq> nib k' (d + m)"
  shows "\<exists>x. splitChain H k k' a b d m = Inr x \<and> node_wf H d x \<and> is_inner x \<and> length (leaves x) = 2 \<and>
    (\<forall>q. look x q = two_items a b q)"
  using assms(3-6) eq ne
proof (induction m arbitrary: d)
  case 0
  show ?case by (rule splitChain_base[OF assms(1,2) _ _ _ _ k]) (use 0 in simp_all)
next
  case (Suc m)
  have d: "d < 64" and nd: "nib k d = nib k' d" using Suc.prems(3) Suc.prems(5)[of d] by simp_all
  have "\<exists>x. splitChain H k k' a b (Suc d) m = Inr x \<and> node_wf H (Suc d) x \<and> is_inner x \<and>
      length (leaves x) = 2 \<and> (\<forall>q. look x q = two_items a b q)"
  proof (rule Suc.IH)
    show "node_wf H (Suc (Suc d + m)) a" "node_wf H (Suc (Suc d + m)) b" "Suc d + m < 64" "1 \<le> Suc d"
      "nib k (Suc d + m) \<noteq> nib k' (Suc d + m)"
      using Suc.prems(1-4,6) by simp_all
    show "nib k j = nib k' j" if "Suc d \<le> j" "j < Suc d + m" for j
      using Suc.prems(5)[of j] that by simp
  qed
  then obtain c where c: "splitChain H k k' a b (Suc d) m = Inr c" "node_wf H (Suc d) c" "length (leaves c) = 2"
    "\<And>q. look c q = two_items a b q" by blast
  have "slot_wf H d (nib k d) (Some c)"
  proof -
    have "nib (lkey y) d = nib k d" if "y \<in> set (leaves c)" for y
    proof -
      have "look c (lkey y) \<noteq> None" using that by (simp add: look_None_iff)
      then show ?thesis using nd k by (simp add: c(4) split: if_splits)
    qed
    then show ?thesis using c(2) by (simp add: slot_wf_def)
  qed
  then have sc: "slot_wf H d (nib k d) (Some c)" .
  obtain x where x: "SetChild H newInnerNode (nib k d) (Some c) = Inr x" "weak_wf H d x"
    "shallowClone x = x" "children x = (children newInnerNode)[nib k d := Some c]"
    "length (leaves x) = length (leaves c)" "\<forall>q. look x q = (if nib q d = nib k d then look c q else None)"
    by (rule SetChild_new[OF d sc nib_less])
  have "look x q = two_items a b q" for q 
  proof (cases "nib q d = nib k d")
    case True
    then show ?thesis by (simp only: x(6)[rule_format] c(4) if_True simp_thms)
  next
    case False
    then have "q \<noteq> ikey (Item a)" "q \<noteq> ikey (Item b)" using nd unfolding k by metis+
    then show ?thesis using False by (simp only: x(6)[rule_format] if_False)
  qed
  moreover have "splitChain H k k' a b d (Suc m) = Inr x"
    unfolding splitChain_Suc[OF d] c(1) bindE_Inr by (rule x(1))
  ultimately show ?case using x c(3) by (simp add: node_wf_inner)
qed

text \<open>The map-level invariant of resident maps: the root is a well-formed inner node at depth 0.\<close>

definition map_wf :: "(bytes \<Rightarrow> hash256) \<Rightarrow> shamap \<Rightarrow> bool" where
  "map_wf H sm \<longleftrightarrow> is_inner (root sm) \<and> node_wf H 0 (root sm)"

lemma map_wf_weak: "map_wf H sm \<longleftrightarrow> weak_wf H 0 (root sm)"
  by (auto simp: map_wf_def node_wf_inner)

lemma walkToKey_path:
  assumes "map_wf H sm"
  shows "\<exists>r nid ps. walkToKey H sm k False = Inr (r, ps) \<and>
    walkToKey H sm k True = Inr (r, case r of None \<Rightarrow> ps | Some c \<Rightarrow> (c, nid) # ps) \<and>
    path k 0 (root sm) r ps \<and> 1 \<le> length ps \<and> length ps \<le> 64"
proof -
  have w: "weak_wf H 0 (root sm)" using assms by (simp add: map_wf_weak)
  obtain r nid ps where "walkLoop H sm k (root sm) newRootNodeID [] = Inr (r, nid, ps @ [])" "path k 0 (root sm) r ps"
    using walkLoop_path[OF w, of newRootNodeID sm k "[]"] by (auto simp: newRootNodeID_def)
  moreover have "length ps \<le> 64" using path_depth[OF \<open>path k 0 (root sm) r ps\<close> w] by simp
  ultimately show ?thesis using path_length
    by (intro exI[of _ r] exI[of _ nid] exI[of _ ps]) (cases r; simp add: walkToKey_def)
qed

lemma attach_correct:
  assumes "map_wf H sm" "path k 0 (root sm) r ps" "mstate sm = stateModifying"
    and x: "node_wf H (length ps) x" "\<forall>y\<in>set (leaves x). agree k (lkey y) 0 (length ps)"
      "length (slot_leaves r) \<le> length (leaves x)"
  shows "\<exists>n. bindE (dirtyUp H sm ps k x) (\<lambda>newRoot. assignRoot H sm newRoot k) = Inr (sm\<lparr>root := n\<rparr>) \<and>
    weak_wf H 0 n \<and> (\<forall>q. look n q = (if agree k q 0 (length ps) then look x q else look (root sm) q))"
proof -
  have w: "weak_wf H 0 (root sm)" using assms(1) by (simp add: map_wf_weak)
  show ?thesis using dirtyUpLoop_path[OF assms(2) w _ x(1) _ x(3)] x(2) assms(3)
    by (auto simp: dirtyUp_def assignRoot_def)
qed

lemma leaf_agree:
  assumes "map_wf H sm" "path k 0 (root sm) r ps"
    and r: "\<And>c. r = Some c \<Longrightarrow> ikey (Item c) = k"
  shows "(if agree k q 0 (length ps) then (if q = k then Some y else None) else look (root sm) q) =
    ((look (root sm))(k \<mapsto> y)) q"
proof -
  have w: "weak_wf H 0 (root sm)" using assms(1) by (simp add: map_wf_weak)
  have "slot_look r q = None" if "q \<noteq> k"
    using r path_result assms(2) that by (cases r) auto
  then show ?thesis using path_look[OF assms(2) w, of q] by auto
qed

lemma split_correct:
  assumes wf: "map_wf H sm" and path: "path (ikey it) 0 (root sm) (Some c) ps"
    and ne: "ikey (Item c) \<noteq> ikey it" and len: "12 \<le> length (idata it)"
  shows "\<exists>x. splitChain H (ikey it) (ikey (Item c)) (fresh_leaf H it kd) c (length ps)
      (findSplitDepth (ikey it) (ikey (Item c)) (length ps) - length ps) = Inr x \<and>
    node_wf H (length ps) x \<and> length (leaves x) = 2 \<and>
    (\<forall>y\<in>set (leaves x). agree (ikey it) (lkey y) 0 (length ps)) \<and>
    (\<forall>q. look x q = two_items (fresh_leaf H it kd) c q)"
proof -
  let ?k = "ikey it" and ?k' = "ikey (Item c)" and ?L = "length ps"
  define sd where "sd = findSplitDepth ?k ?k' ?L"
  note w = wf[unfolded map_wf_weak]
  have c: "\<not> is_inner c" "node_wf H ?L c" "agree ?k ?k' 0 ?L"
    using path_result[OF path] path_agree[OF path w] by simp_all
  have L: "1 \<le> ?L" "?L \<le> 64" using path_length[OF path] path_depth[OF path w] by simp_all
  have "pre ?k ?L = pre ?k' ?L" using c(3) L by (simp add: pre_eq_iff agree_def)
  note sd = findSplitDepth_first[OF ne[symmetric] L(2) this, folded sd_def]
  have eq: "nib ?k j = nib ?k' j" if "j < sd" for j
    using sd(1,4) that by (simp add: pre_eq_iff)
  have "\<exists>x. splitChain H ?k ?k' (fresh_leaf H it kd) c ?L (sd - ?L) = Inr x \<and> node_wf H ?L x \<and> is_inner x \<and>
      length (leaves x) = 2 \<and> (\<forall>q. look x q = two_items (fresh_leaf H it kd) c q)"
  proof (rule splitChain_correct)
    have "Suc (?L + (sd - ?L)) = Suc sd" using sd(2) by simp
    then show "node_wf H (Suc (?L + (sd - ?L))) (fresh_leaf H it kd)" "node_wf H (Suc (?L + (sd - ?L))) c"
      using fresh_leaf_wf[of "Suc sd" it H kd] leaf_wf_depth[OF c(1,2), of "Suc sd"] sd(1) len by simp_all
    show "nib ?k (?L + (sd - ?L)) \<noteq> nib ?k' (?L + (sd - ?L))" using sd(2,3) by simp
    show "nib ?k j = nib ?k' j" if "j < ?L + (sd - ?L)" for j using eq that sd(2) by simp
  qed (use c L sd(1,2) in simp_all)
  then obtain x where x: "splitChain H ?k ?k' (fresh_leaf H it kd) c ?L (sd - ?L) = Inr x" "node_wf H ?L x"
    "length (leaves x) = 2" "\<forall>q. look x q = two_items (fresh_leaf H it kd) c q" by blast
  have "agree ?k (lkey y) 0 ?L" if "y \<in> set (leaves x)" for y
  proof -
    have "look x (lkey y) \<noteq> None" using that by (simp add: look_None_iff)
    then have "lkey y = ?k \<or> lkey y = ?k'" using x(4)[rule_format, of "lkey y"] by (auto split: if_splits)
    then show ?thesis using c(3) by auto
  qed
  with x show ?thesis unfolding sd_def by blast
qed

lemma put_correct:
  assumes wf: "map_wf H sm" and st: "mstate sm = stateModifying" and nt: "nt \<noteq> NodeTypeInner"
    and len: "12 \<le> length (idata it)"
  shows "\<exists>n. putItemWithNodeTypeUnsafe H sm it nt = Inr (sm\<lparr>root := n\<rparr>) \<and> weak_wf H 0 n \<and>
    look n = (look (root sm))(ikey it \<mapsto> (it, type_kind nt))"
proof -
  let ?k = "ikey it" and ?new = "fresh_leaf H it (type_kind nt)"
  obtain r nid ps where walk: "walkToKey H sm ?k False = Inr (r, ps)"
    and path: "path ?k 0 (root sm) r ps" and ps: "1 \<le> length ps" "length ps \<le> 64"
    using walkToKey_path[OF wf, of ?k] by blast
  have create: "createLeafNode H nt it = Inr ?new" using nt len by (simp add: createLeafNode_eq)
  note new_wf = fresh_leaf_wf[OF _ _ len, of _ H "type_kind nt"]
  show ?thesis
  proof (cases "\<exists>c. r = Some c \<and> ikey (Item c) \<noteq> ?k")
    case False
    then have same: "ikey (Item c) = ?k" if "r = Some c" for c using that by simp
    have "length (slot_leaves r) \<le> 1" using path_result path by (cases r) (auto simp: leaves_leaf)
    then obtain n where n: "bindE (dirtyUp H sm ps ?k ?new) (\<lambda>newRoot. assignRoot H sm newRoot ?k) = Inr (sm\<lparr>root := n\<rparr>)"
      "weak_wf H 0 n" "\<forall>q. look n q = (if agree ?k q 0 (length ps) then look ?new q else look (root sm) q)"
      using attach_correct[OF wf path st new_wf[OF ps]] by (auto simp: leaves_leaf)
    have "look n = (look (root sm))(?k \<mapsto> (it, type_kind nt))"
    proof
      show "look n q = ((look (root sm))(?k \<mapsto> (it, type_kind nt))) q" for q
        using n(3)[rule_format, of q] leaf_agree[OF wf path same, of q "(it, type_kind nt)"]
        by (cases "q = ?k") auto
    qed
    moreover have "putItemWithNodeTypeUnsafe H sm it nt = Inr (sm\<lparr>root := n\<rparr>)"
      using n(1) walk same path_result path create
      by (cases r) (auto simp: putItemWithNodeTypeUnsafe_def Let_def)
    ultimately show ?thesis using n(2) by blast
  next
    case True
    then obtain c where r: "r = Some c" "ikey (Item c) \<noteq> ?k" by blast
    let ?L = "length ps" and ?m = "findSplitDepth ?k (ikey (Item c)) (length ps) - length ps"
    obtain x where x: "splitChain H ?k (ikey (Item c)) ?new c ?L ?m = Inr x" "node_wf H ?L x"
      "length (leaves x) = 2" "\<forall>y\<in>set (leaves x). agree ?k (lkey y) 0 ?L" "\<And>q. look x q = two_items ?new c q"
      using split_correct[OF wf path[unfolded r(1)] r(2) len] by blast
    have "\<not> is_inner c" using path_result path r(1) by simp
    then have "length (slot_leaves r) \<le> length (leaves x)" using x(3) r(1) by (simp add: leaves_leaf)
    from attach_correct[OF wf path st x(2,4) this] obtain n where n:
      "bindE (dirtyUp H sm ps ?k x) (\<lambda>newRoot. assignRoot H sm newRoot ?k) = Inr (sm\<lparr>root := n\<rparr>)"
      "weak_wf H 0 n" "\<forall>q. look n q = (if agree ?k q 0 ?L then look x q else look (root sm) q)" by blast
    have "look n = (look (root sm))(?k \<mapsto> (it, type_kind nt))"
    proof
      show "look n q = ((look (root sm))(?k \<mapsto> (it, type_kind nt))) q" for q
      using n(3)[rule_format, of q] x(5)[of q] path_look[OF path wf[unfolded map_wf_weak], of q] r \<open>\<not> is_inner c\<close>
      by auto
    qed
    moreover have "putItemWithNodeTypeUnsafe H sm it nt = Inr (sm\<lparr>root := n\<rparr>)"
      using n(1) walk r \<open>\<not> is_inner c\<close> create x(1)
      by (auto simp: putItemWithNodeTypeUnsafe_def Let_def)
    ultimately show ?thesis using n(2) by blast
  qed
qed

section \<open>Deletion\<close>

lemma leaves_bits:
  assumes "weak_wf H d n"
  shows "leaves n = concat (map (\<lambda>i. slot_leaves (children n ! i)) (filter (bit (isBranch n)) [0..<16]))"
proof -
  have len: "length (children n) = 16" using assms by (simp add: inner_ok_def)
  have "children n = map (\<lambda>i. children n ! i) [0..<16]" using len by (metis map_nth)
  then have "leaves n = concat (map (\<lambda>i. slot_leaves (children n ! i)) [0..<16])"
    using assms by (simp add: leaves_inner) (metis (no_types, lifting) comp_apply map_map map_eq_conv)
  also have "map (\<lambda>i. slot_leaves (children n ! i)) [0..<16] =
      map (\<lambda>i. if bit (isBranch n) i then slot_leaves (children n ! i) else []) [0..<16]"
  proof (rule map_cong)
    fix i assume "i \<in> set [0..<16 :: nat]"
    then have "slot_ok (node_wf H) d n i" using inner_ok_slot[of H "node_wf H" d n i] assms by simp
    then show "slot_leaves (children n ! i) = (if bit (isBranch n) i then slot_leaves (children n ! i) else [])"
      by (auto simp: slot_ok_def split: option.splits)
  qed simp
  finally show ?thesis by (simp only: concat_filter)
qed

lemma bit_child: "weak_wf H d n \<Longrightarrow> i < 16 \<Longrightarrow> bit (isBranch n) i \<Longrightarrow> \<exists>c. children n ! i = Some c \<and> node_wf H (Suc d) c"
  using inner_ok_slot[of H "node_wf H" d n i] by (auto simp: slot_ok_def split: option.splits)

lemma length_concat_ge: "(\<And>i. i \<in> set xs \<Longrightarrow> f i \<noteq> []) \<Longrightarrow> length xs \<le> length (concat (map f xs))"
proof (induction xs)
  case (Cons x xs)
  then have "1 \<le> length (f x)" "length xs \<le> length (concat (map f xs))" by (auto simp: Suc_le_eq)
  then show ?case by simp
qed simp

lemma slot_nonempty:
  assumes "weak_wf H d n" "i < 16" "bit (isBranch n) i"
  shows "slot_leaves (children n ! i) \<noteq> []"
  using bit_child[OF assms] node_wf_nonempty by fastforce

lemma BranchCount_le_leaves: "weak_wf H d n \<Longrightarrow> OnesCount16 (isBranch n) \<le> length (leaves n)"
  unfolding OnesCount16_def leaves_bits
  by (rule length_concat_ge) (use slot_nonempty in auto)

lemma OnesCount16_0 [simp]: "OnesCount16 0 = 0"
  by simp

lemma no_branch:
  assumes "weak_wf H d n" "OnesCount16 (isBranch n) = 0"
  shows "leaves n = []"
  using leaves_bits[OF assms(1)] assms(2) by simp

lemma find_filter: "find P xs = (case filter P xs of [] \<Rightarrow> None | x # _ \<Rightarrow> Some x)"
  by (induction xs) simp_all

lemma single_branch:
  assumes "weak_wf H d n" "OnesCount16 (isBranch n) = 1"
  obtains c where "children n ! TrailingZeros16 (isBranch n) = Some c" "TrailingZeros16 (isBranch n) < 16"
    "node_wf H (Suc d) c" "leaves n = leaves c"
proof -
  obtain i where i: "filter (bit (isBranch n)) [0..<16] = [i]"
    using assms(2) by (auto simp: OnesCount16_def length_Suc_conv)
  then have "i \<in> set (filter (bit (isBranch n)) [0..<16])" by simp
  then have i16: "i < 16" "bit (isBranch n) i" by auto
  obtain c where c: "children n ! i = Some c" "node_wf H (Suc d) c" using bit_child[OF assms(1) i16] by blast
  have "TrailingZeros16 (isBranch n) = i" by (simp add: TrailingZeros16_def find_filter i)
  moreover have "leaves n = leaves c" by (subst leaves_bits[OF assms(1)]) (simp add: i c(1))
  ultimately show thesis using that c i16 by simp
qed

lemma onlyBelow_correct:
  assumes "is_inner n \<longrightarrow> weak_wf H d n" "64 < d + fuel"  "d \<le> 64"
  shows "onlyBelow fuel H sm n = Inr (if length (leaves n) = 1 then Some (fst (hd (leaves n))) else None)"
  using assms
proof (induction fuel arbitrary: d n)
  case (Suc fuel)
  show ?case
  proof (cases "is_inner n")
    case True
    then have w: "weak_wf H d n" using Suc.prems(1) by blast
    consider "OnesCount16 (isBranch n) = 0" | "OnesCount16 (isBranch n) = 1" | "2 \<le> OnesCount16 (isBranch n)"
      by linarith
    then show ?thesis
    proof cases
      case 1
      then have "leaves n = []" using leaves_bits[OF w] by simp
      then show ?thesis using 1 True by simp
    next
      case 2
      obtain c where c: "children n ! TrailingZeros16 (isBranch n) = Some c" "TrailingZeros16 (isBranch n) < 16"
        "node_wf H (Suc d) c" "leaves n = leaves c" by (rule single_branch[OF w 2])
      have "d < 64" using w by (simp add: inner_ok_def)
      then have "onlyBelow fuel H sm c = Inr (if length (leaves c) = 1 then Some (fst (hd (leaves c))) else None)"
        using Suc.prems(2) node_wf_weak[OF c(3)] by (intro Suc.IH[of _ "Suc d"]) auto
      then show ?thesis using 2 True c readChild_resident[OF w c(2), of sm] by simp
    next
      case 3
      then show ?thesis using BranchCount_le_leaves[OF w] True by simp
    qed
  qed (simp add: leaves_leaf)
qed simp

lemma leaves_data: "node_wf H d n \<Longrightarrow> y \<in> set (leaves n) \<Longrightarrow> 12 \<le> length (idata (fst y))"
proof (induction H d n rule: node_wf.induct)
  case (1 H d n)
  show ?case
  proof (cases "is_inner n")
    case True
    then have w: "weak_wf H d n" using "1.prems"(1) by (simp add: node_wf_inner)
    then have len: "length (children n) = 16" by (simp add: inner_ok_def)
    obtain i c where i: "i < 16" "children n ! i = Some c" "y \<in> set (leaves c)"
      using "1.prems"(2) leaves_bits[OF w] bit_child[OF w] by fastforce
    then show ?thesis using "1.IH"[OF True len i(1,2)] inner_ok_child(1)[of H "node_wf H" d n i c] w by blast
  next
    case False
    then show ?thesis using "1.prems" by (simp add: node_wf_leaf leaf_ok_def leaves_leaf)
  qed
qed

text \<open>Equal up to leaf kinds replaced by \<open>dk\<close>.\<close>

definition up_to_kind :: "leafKind \<Rightarrow> (item \<times> leafKind) option \<Rightarrow> (item \<times> leafKind) option \<Rightarrow> bool" where
  "up_to_kind dk a b \<longleftrightarrow> map_option fst a = map_option fst b \<and> (\<forall>y. a = Some y \<longrightarrow> b = Some y \<or> snd y = dk)"

lemma up_to_kind_refl [simp]: "up_to_kind dk a a"
  by (simp add: up_to_kind_def)

lemma up_to_kind_None: "up_to_kind dk a b \<Longrightarrow> a = None \<longleftrightarrow> b = None"
  by (cases a; cases b) (auto simp: up_to_kind_def)

lemma up_to_kind_trans: "up_to_kind dk a b \<Longrightarrow> up_to_kind dk b c \<Longrightarrow> up_to_kind dk a c"
  by (auto simp: up_to_kind_def)

definition collapse :: "nat \<Rightarrow> (bytes \<Rightarrow> hash256) \<Rightarrow> shamap \<Rightarrow> NodeID \<Rightarrow> node \<Rightarrow> shamap_error + node option" where
  "collapse fuel H sm nodeID clonedInner =
     (if \<not> IsRoot nodeID then
        (if BranchCount clonedInner = 0 then Inr None
         else if BranchCount clonedInner = 1 then
           bindE (onlyBelow fuel H sm clonedInner) (\<lambda>onlyItem.
             case onlyItem of
               Some it \<Rightarrow>
                 bindE (createLeafNode H (getLeafNodeType sm) it) (\<lambda>newLeaf. Inr (Some newLeaf))
             | None \<Rightarrow> Inr (Some clonedInner))
         else Inr (Some clonedInner))
      else Inr (Some clonedInner))"

abbreviation default_kind :: "shamap \<Rightarrow> leafKind" where
  "default_kind sm \<equiv> type_kind (getLeafNodeType sm)"

lemma getLeafNodeType_leaf [simp]: "getLeafNodeType sm \<noteq> NodeTypeInner"
  by (simp add: getLeafNodeType_def split: mapType.splits)

lemma collapse_correct:
  assumes w: "weak_wf H d n" and d: "depth nid = d" and ne: "0 < d \<longrightarrow> leaves n \<noteq> []" and fuel: "65 \<le> fuel"
  shows "\<exists>n'. collapse fuel H sm nid n = Inr (Some n') \<and> (if d = 0 then weak_wf H 0 n' else node_wf H d n') \<and>
    length (leaves n') = length (leaves n) \<and>
    (0 < d \<and> length (leaves n) = 1 \<longrightarrow> (\<exists>it. n' = fresh_leaf H it (default_kind sm))) \<and> (\<forall>q. up_to_kind (default_kind sm) (look n' q) (look n q))"
proof (cases "0 < d \<and> length (leaves n) = 1")
  case True
  obtain y where y: "leaves n = [y]" using True by (auto simp: length_Suc_conv)
  have "OnesCount16 (isBranch n) \<noteq> 0" using no_branch[OF w] y by (metis list.distinct(1))
  then have "OnesCount16 (isBranch n) = 1" using BranchCount_le_leaves[OF w] y by (simp del: OnesCount16_eq_0_iff)
  moreover have "d < 64" using w by (simp add: inner_ok_def)
  moreover have "onlyBelow fuel H sm n = Inr (Some (fst y))"
    using onlyBelow_correct[of n H d fuel sm] w fuel \<open>d < 64\<close> y by simp
  moreover have len: "12 \<le> length (idata (fst y))"
  proof -
    obtain c where "node_wf H (Suc d) c" "leaves n = leaves c"
      using single_branch[OF w \<open>OnesCount16 (isBranch n) = 1\<close>] by blast
    then show ?thesis using leaves_data[of H "Suc d" c y] y by (metis list.set_intros(1))
  qed
  ultimately have "collapse fuel H sm nid n = Inr (Some (fresh_leaf H (fst y) (default_kind sm)))"
    using True d by (simp add: collapse_def IsRoot_def BranchCount_def createLeafNode_eq)
  moreover have "look n q = (if q = lkey y then Some y else None)" for q by (simp add: look_def y)
  then have "up_to_kind (default_kind sm) (look (fresh_leaf H (fst y) (default_kind sm)) q) (look n q)" for q
    by (auto simp: up_to_kind_def)
  ultimately show ?thesis
    using fresh_leaf_wf[OF _ _ len, of d H "default_kind sm"] True \<open>d < 64\<close> y by (auto simp: leaves_leaf)
next
  case False
  have "collapse fuel H sm nid n = Inr (Some n)"
  proof (cases "d = 0")
    case True
    then show ?thesis using d by (simp add: collapse_def IsRoot_def)
  next
    case d0: False
    have "OnesCount16 (isBranch n) \<noteq> 0" using no_branch[OF w] ne d0 by blast
    moreover have "d < 64" using w by (simp add: inner_ok_def)
    moreover have "onlyBelow fuel H sm n = Inr None"
      using onlyBelow_correct[of n H d fuel sm] w fuel \<open>d < 64\<close> False d0 by simp
    ultimately show ?thesis using d d0 by (simp add: collapse_def IsRoot_def BranchCount_def)
  qed
  moreover have "node_wf H d n" if "0 < d"
    using w ne False that by (simp add: node_wf_inner) (metis One_nat_def Suc_leI le_antisym length_greater_0_conv not_less_eq_eq numeral_2_eq_2)
  ultimately show ?thesis using w False by auto
qed

lemma consolidateLoop_snoc:
  "consolidateLoop fuel H sm (ps @ [(n, nid)]) k prev =
     bindE (consolidateLoop fuel H sm ps k prev) (\<lambda>prev.
       if \<not> is_inner n then Inl errInvalidType
       else bindE (SetChild H (shallowClone n) (unat (selectBranch nid k)) prev) (collapse fuel H sm nid))"
proof (induction ps arbitrary: prev)
  case Nil
  have "bindE r Inr = r" for r :: "shamap_error + node option" by (cases r) simp_all
  moreover have "consolidateLoop fuel H sm [] k = Inr" by (rule ext) simp
  ultimately show ?case by (simp add: collapse_def[abs_def])
next
  case (Cons p ps)
  have assoc: "bindE (bindE r f) g = bindE r (\<lambda>x. bindE (f x) g)"
    for r :: "shamap_error + 'b" and f :: "'b \<Rightarrow> shamap_error + 'c" and g :: "'c \<Rightarrow> shamap_error + 'd"
    by (cases r) simp_all
  have "consolidateLoop fuel H sm (ps @ [(n, nid)]) k = (\<lambda>prev. bindE (consolidateLoop fuel H sm ps k prev)
      (\<lambda>prev. if \<not> is_inner n then Inl errInvalidType
        else bindE (SetChild H (shallowClone n) (unat (selectBranch nid k)) prev) (collapse fuel H sm nid)))"
    by (rule ext) (rule Cons.IH)
  then show ?case by (cases p) (simp add: assoc)
qed

text \<open>One step up: replace the child on the path by \<open>prev\<close>, then collapse.\<close>

lemma consolidate_step:
  assumes w: "weak_wf H d n" and d: "depth nid = d" and fuel: "65 \<le> fuel"
    and slot: "slot_wf H d (nib k d) prev"
    and cnt: "length (slot_leaves prev) + 1 = length (slot_leaves (children n ! nib k d))"
    and two: "d = 0 \<or> 2 \<le> length (leaves n)"
    and lk: "\<And>q. nib q d = nib k d \<Longrightarrow>
      up_to_kind (default_kind sm) (slot_look prev q) (if q = k then None else look n q)"
  shows "\<exists>n'. bindE (SetChild H (shallowClone n) (unat (selectBranch nid k)) prev) (collapse fuel H sm nid) =
      Inr (Some n') \<and> (if d = 0 then weak_wf H 0 n' else node_wf H d n') \<and>
    length (leaves n') + 1 = length (leaves n) \<and>
    (0 < d \<and> length (leaves n) = 2 \<longrightarrow> (\<exists>it. n' = fresh_leaf H it (default_kind sm))) \<and>
    (\<forall>q. up_to_kind (default_kind sm) (look n' q) (if q = k then None else look n q))"
proof -
  have "d < 64" using w by (simp add: inner_ok_def)
  obtain n1 where n1: "SetChild H (shallowClone n) (nib k d) prev = Inr n1" "weak_wf H d n1"
    "children n1 = (children n)[nib k d := prev]"
    "length (leaves n1) + length (slot_leaves (children n ! nib k d)) = length (leaves n) + length (slot_leaves prev)"
    by (rule SetChild_weak_wf[OF w nib_less slot])
  have len: "length (leaves n1) + 1 = length (leaves n)" using n1(4) cnt by linarith
  then have "0 < d \<longrightarrow> leaves n1 \<noteq> []" using two by auto
  from collapse_correct[OF n1(2) d this fuel, of sm] obtain n' where n':
    "collapse fuel H sm nid n1 = Inr (Some n')" "if d = 0 then weak_wf H 0 n' else node_wf H d n'"
    "length (leaves n') = length (leaves n1)" "\<forall>q. up_to_kind (default_kind sm) (look n' q) (look n1 q)"
    "0 < d \<and> length (leaves n1) = 1 \<longrightarrow> (\<exists>it. n' = fresh_leaf H it (default_kind sm))" by blast
  have "up_to_kind (default_kind sm) (look n' q) (if q = k then None else look n q)" for q
  proof (rule up_to_kind_trans[OF n'(4)[rule_format]])
    show "up_to_kind (default_kind sm) (look n1 q) (if q = k then None else look n q)"
      using SetChild_look[OF w n1(2,3) nib_less, of q] lk[of q] by auto
  qed
  moreover have "unat (selectBranch nid k) = nib k d" using d \<open>d < 64\<close> by simp
  ultimately show ?thesis using n1(1) n'(1-3,5) len by auto
qed

lemma consolidateLoop_path:
  assumes "path k d n r ps" "r = Some c" "ikey (Item c) = k" "weak_wf H d n" "65 \<le> fuel"
    "d = 0 \<or> 2 \<le> length (leaves n)"
  shows "\<exists>n'. consolidateLoop fuel H sm ps k None = Inr (Some n') \<and>
    (if d = 0 then weak_wf H 0 n' else node_wf H d n') \<and> length (leaves n') + 1 = length (leaves n) \<and>
    (0 < d \<and> length (leaves n) = 2 \<longrightarrow> (\<exists>it. n' = fresh_leaf H it (default_kind sm))) \<and>
    (\<forall>q. up_to_kind (default_kind sm) (look n' q) (if q = k then None else look n q))"
  using assms
proof (induction rule: path.induct)
  case (path_end n nid d r)
  have c: "\<not> is_inner c" using path_end by blast
  have "\<exists>n'. bindE (SetChild H (shallowClone n) (unat (selectBranch nid k)) None) (collapse fuel H sm nid) =
      Inr (Some n') \<and> (if d = 0 then weak_wf H 0 n' else node_wf H d n') \<and>
    length (leaves n') + 1 = length (leaves n) \<and>
    (0 < d \<and> length (leaves n) = 2 \<longrightarrow> (\<exists>it. n' = fresh_leaf H it (default_kind sm))) \<and>
    (\<forall>q. up_to_kind (default_kind sm) (look n' q) (if q = k then None else look n q))"
  proof (rule consolidate_step[OF path_end.prems(3) path_end.hyps(2) path_end.prems(4)])
    show "length (slot_leaves None) + 1 = length (slot_leaves (children n ! nib k d))"
      using path_end c by (simp add: leaves_leaf)
    show "up_to_kind (default_kind sm) (slot_look None q) (if q = k then None else look n q)"
      if "nib q d = nib k d" for q
      using look_inner[OF path_end.prems(3), of q] that path_end c by simp
  qed (use path_end in \<open>simp_all add: slot_wf_def\<close>)
  then show ?case using consolidateLoop_snoc[of fuel H sm "[]" n nid k None] path_end.hyps(1) by simp
next
  case (path_step n nid d b r ps)
  have b: "node_wf H (Suc d) b" by (rule weak_wf_child[OF path_step.prems(3) path_step.hyps(3)])
  have w: "weak_wf H (Suc d) b" "2 \<le> length (leaves b)"
    using b path_inner[OF path_step.hyps(4)] by (simp_all add: node_wf_inner)
  then obtain b' where b': "consolidateLoop fuel H sm ps k None = Inr (Some b')" "node_wf H (Suc d) b'"
    "length (leaves b') + 1 = length (leaves b)"
    "\<forall>q. up_to_kind (default_kind sm) (look b' q) (if q = k then None else look b q)"
    using path_step.IH[OF path_step.prems(1,2) w(1) path_step.prems(4)] by auto
  have keys: "nib (lkey y) d = nib k d" if "y \<in> set (leaves b')" for y
  proof -
    have "look b' (lkey y) \<noteq> None" using that by (simp add: look_None_iff)
    then have "look b (lkey y) \<noteq> None" 
      using up_to_kind_None[OF b'(4)[rule_format, of "lkey y"]] by (auto split: if_splits)
    then obtain z where "z \<in> set (leaves b)" "lkey z = lkey y" by (auto simp: look_None_iff)
    then show ?thesis using inner_ok_child(3)[OF _ nib_less path_step.hyps(3)] path_step.prems(3) by metis
  qed
  have "\<exists>n'. bindE (SetChild H (shallowClone n) (unat (selectBranch nid k)) (Some b')) (collapse fuel H sm nid) =
      Inr (Some n') \<and> (if d = 0 then weak_wf H 0 n' else node_wf H d n') \<and>
    length (leaves n') + 1 = length (leaves n) \<and>
    (0 < d \<and> length (leaves n) = 2 \<longrightarrow> (\<exists>it. n' = fresh_leaf H it (default_kind sm))) \<and>
    (\<forall>q. up_to_kind (default_kind sm) (look n' q) (if q = k then None else look n q))"
  proof (rule consolidate_step[OF path_step.prems(3) path_step.hyps(2) path_step.prems(4)])
    show "slot_wf H d (nib k d) (Some b')" using b'(2) keys by (simp add: slot_wf_def)
    show "up_to_kind (default_kind sm) (slot_look (Some b') q) (if q = k then None else look n q)"
      if "nib q d = nib k d" for q
      using look_inner[OF path_step.prems(3), of q] that path_step.hyps(3) b'(4)[rule_format, of q] by auto
  qed (use path_step.prems(5) path_step.hyps(3) b'(3) in simp_all)
  then show ?case using b'(1) path_step.hyps(1) by (simp add: consolidateLoop_snoc)
qed

lemma delete_correct:
  assumes wf: "map_wf H sm" and st: "mstate sm = stateModifying" and fuel: "65 \<le> fuel"
    and mem: "look (root sm) k \<noteq> None"
  shows "\<exists>n. Delete fuel H sm k = Inr (sm\<lparr>root := n\<rparr>) \<and> weak_wf H 0 n \<and>
    (\<forall>q. up_to_kind (default_kind sm) (look n q) (if q = k then None else look (root sm) q))"
proof -
  have w: "weak_wf H 0 (root sm)" using wf by (simp add: map_wf_weak)
  obtain r nid ps where walk: "walkToKey H sm k True = Inr (r, case r of None \<Rightarrow> ps | Some c \<Rightarrow> (c, nid) # ps)"
    and path: "path k 0 (root sm) r ps" using walkToKey_path[OF wf, of k] by blast
  have "slot_look r k \<noteq> None" using path_look[OF path w, of k] mem by simp
  then obtain c where c: "r = Some c" "ikey (Item c) = k" "\<not> is_inner c"
    using path_result path by (cases r) (auto split: if_splits)
  from consolidateLoop_path[OF path c(1,2) w fuel, of sm] obtain n where
    "consolidateLoop fuel H sm ps k None = Inr (Some n)" "weak_wf H 0 n"
    "\<forall>q. up_to_kind (default_kind sm) (look n q) (if q = k then None else look (root sm) q)" by auto
  then show ?thesis using walk c st
    by (intro exI[of _ n]) (simp add: Delete_def findAndRemoveLeaf_def consolidateAfterDelete_def)
qed

lemma delete_absent:
  assumes wf: "map_wf H sm" and st: "mstate sm = stateModifying" and mem: "look (root sm) k = None"
  shows "Delete fuel H sm k = Inl ErrItemNotFound"
proof -
  have w: "weak_wf H 0 (root sm)" using wf by (simp add: map_wf_weak)
  obtain r nid ps where walk: "walkToKey H sm k True = Inr (r, case r of None \<Rightarrow> ps | Some c \<Rightarrow> (c, nid) # ps)"
    and path: "path k 0 (root sm) r ps" "1 \<le> length ps" using walkToKey_path[OF wf, of k] by blast
  have "slot_look r k = None" using path_look[OF path(1) w, of k] mem by simp
  moreover have "\<exists>n nid. ps = (n, nid) # tl ps \<and> is_inner n" using path(1)
  proof (induction rule: path.induct)
    case (path_step n nid d c r ps)
    then show ?case by (cases ps) auto
  qed auto
  ultimately show ?thesis using walk st path_result[of k 0 "root sm" _ ps] path
    by (cases r) (auto simp: Delete_def findAndRemoveLeaf_def split: if_splits list.splits)
qed

lemma get_correct:
  assumes "map_wf H sm"
  shows "findItem H sm k = Inr (map_option fst (look (root sm) k))"
proof -
  have w: "weak_wf H 0 (root sm)" using assms by (simp add: map_wf_weak)
  obtain r ps where "walkToKey H sm k False = Inr (r, ps)" and path: "path k 0 (root sm) r ps"
    using walkToKey_path[OF assms, of k] by blast
  then show ?thesis using path_look[OF path w, of k] path_result[of k 0 "root sm" _ ps]
    by (cases r) (auto simp: findItem_def)
qed

end
