(* ===== verification/Shamap_Spec.thy ===== *)
theory Shamap_Spec
  imports Shamap_Inv
begin

text \<open>
  What the SHAMap promises its clients.  The leaves of a well-formed tree are in ascending key order;
  two well-formed trees with the same contents have the same root hash, whatever operations built
  them; and trees without a hash collision between their nodes have the same contents when they have
  the same root hash.  The locale \<open>authenticated_map\<close> is the client's view: a finite map with a digest
  that depends on the contents only; maps changed through \<open>Put\<close>, \<open>Delete\<close> and \<open>PutItemsAtomically\<close>
  interpret it.
\<close>

section \<open>Leaves in key order\<close>

lemma sorted_wrt_concat:
  assumes "\<And>i. i < n \<Longrightarrow> sorted_wrt R (f i)"
    and "\<And>i j x y. i < j \<Longrightarrow> j < n \<Longrightarrow> x \<in> set (f i) \<Longrightarrow> y \<in> set (f j) \<Longrightarrow> R x y"
  shows "sorted_wrt R (concat (map f [0..<n]))"
  using assms
proof (induction n)
  case (Suc n)
  have "sorted_wrt R (concat (map f [0..<n]))"
  proof (rule Suc.IH)
    show "sorted_wrt R (f i)" if "i < n" for i using Suc.prems(1)[of i] that by simp
    show "R x y" if "i < j" "j < n" "x \<in> set (f i)" "y \<in> set (f j)" for i j x y
      using Suc.prems(2)[OF that(1) _ that(3,4)] that(2) by simp
  qed
  then show ?case using Suc.prems(1)[of n] Suc.prems(2)[of _ n] by (auto simp: sorted_wrt_append)
qed simp

lemma leaves_slots:
  assumes "weak_wf H d n"
  shows "leaves n = concat (map (\<lambda>i. slot_leaves (children n ! i)) [0..<16])"
proof -
  have "length (children n) = 16" using assms by (simp add: inner_ok_def)
  then have "children n = map (\<lambda>i. children n ! i) [0..<16]" by (metis map_nth)
  then show ?thesis using assms by (simp add: leaves_inner) (metis (no_types, lifting) comp_apply map_map map_eq_conv)
qed

definition common_prefix :: "nat \<Rightarrow> node \<Rightarrow> bool" where
  "common_prefix d n \<longleftrightarrow> (\<forall>x\<in>set (leaves n). \<forall>y\<in>set (leaves n). pre (lkey x) d = pre (lkey y) d)"

lemma common_prefix_keys:
  "common_prefix d n \<longleftrightarrow>
     (\<forall>x\<in>lkey ` set (leaves n). \<forall>y\<in>lkey ` set (leaves n). pre x d = pre y d)"
  by (simp add: common_prefix_def)

lemma common_prefix_0 [simp]: "common_prefix 0 n"
  by (simp add: common_prefix_def)

lemma in_slot_leaves: "x \<in> set (slot_leaves c) \<longleftrightarrow> (\<exists>n. c = Some n \<and> x \<in> set (leaves n))"
  by (cases c) simp_all

lemma leaves_in_child:
  assumes "weak_wf H d n" "i < 16" "children n ! i = Some c" "x \<in> set (leaves c)"
  shows "x \<in> set (leaves n)"
proof -
  have "x \<in> set (slot_leaves (children n ! i))" using assms(3,4) by simp
  then show ?thesis unfolding leaves_slots[OF assms(1)] using assms(2) by (auto intro!: bexI[of _ i])
qed

lemma common_prefix_child:
  assumes "weak_wf H d n" "i < 16" "children n ! i = Some c" "common_prefix d n"
  shows "common_prefix (Suc d) c"
proof -
  have "d < 64" using assms(1) by (simp add: inner_ok_def)
  moreover have "nib (lkey x) d = i" if "x \<in> set (leaves c)" for x
    using inner_ok_child(3)[OF _ assms(2,3) that] assms(1) by blast
  ultimately show ?thesis
    using assms(4) leaves_in_child[OF assms(1-3)] by (simp add: common_prefix_def pre_Suc_eq_iff)
qed

lemma leaves_sorted_weak:
  assumes w: "weak_wf H d n" and cp: "common_prefix d n"
    and ch: "\<And>i c. i < 16 \<Longrightarrow> children n ! i = Some c \<Longrightarrow> sorted_wrt (<) (map lkey (leaves c))"
  shows "sorted_wrt (<) (map lkey (leaves n))"
proof -
  have "d < 64" using w by (simp add: inner_ok_def)
  let ?f = "\<lambda>i. map lkey (slot_leaves (children n ! i))"
  have "sorted_wrt (<) (concat (map ?f [0..<16]))"
  proof (rule sorted_wrt_concat)
    show "sorted_wrt (<) (?f i)" if "i < 16" for i
      using ch[OF that] by (cases "children n ! i") simp_all
    show "x < y" if ij: "i < j" "j < 16" and x: "x \<in> set (?f i)" and y: "y \<in> set (?f j)" for i j x y
    proof -
      obtain a b c c' where a: "x = lkey a" "y = lkey b" "children n ! i = Some c" "children n ! j = Some c'"
        "a \<in> set (leaves c)" "b \<in> set (leaves c')" using x y by (force simp: in_slot_leaves)
      have i: "i < 16" using ij by simp
      have "nib x d = i" "nib y d = j"
        using inner_ok_child(3)[OF _ i a(3,5)] inner_ok_child(3)[OF _ ij(2) a(4,6)] w a(1,2) by blast+
      moreover have "pre x d = pre y d"
        using cp leaves_in_child[OF w i a(3,5)] leaves_in_child[OF w ij(2) a(4,6)]
        unfolding a(1,2) common_prefix_def by blast
      ultimately show ?thesis using nib_less_imp_less[OF \<open>d < 64\<close>] ij(1) by simp
    qed
  qed
  then show ?thesis by (simp add: leaves_slots[OF w] map_concat o_def)
qed

lemma leaves_sorted: "node_wf H d n \<Longrightarrow> common_prefix d n \<Longrightarrow> sorted_wrt (<) (map lkey (leaves n))"
proof (induction H d n rule: node_wf.induct)
  case (1 H d n)
  show ?case
  proof (cases "is_inner n")
    case True
    then have w: "weak_wf H d n" using "1.prems"(1) by (simp add: node_wf_inner)
    then have len: "length (children n) = 16" by (simp add: inner_ok_def)
    show ?thesis
    proof (rule leaves_sorted_weak[OF w "1.prems"(2)])
      show "sorted_wrt (<) (map lkey (leaves c))" if "i < 16" "children n ! i = Some c" for i c
        using "1.IH"[OF True len that] inner_ok_child(1)[OF _ that] w
          common_prefix_child[OF w that "1.prems"(2)] by blast
    qed
  qed (simp add: leaves_leaf)
qed

lemma map_leaves_sorted: "map_wf H sm \<Longrightarrow> sorted_wrt (<) (map lkey (leaves (root sm)))"
  using leaves_sorted[of H 0 "root sm"] by (simp add: map_wf_def)

section \<open>The root hash is determined by the contents\<close>

lemma look_child_iff:
  assumes "weak_wf H d n" "i < 16"
  shows "slot_look (children n ! i) q = (if nib q d = i then look n q else None)"
proof (cases "nib q d = i")
  case True
  then show ?thesis using look_inner[OF assms(1), of q] by simp
next
  case False
  show ?thesis
  proof (cases "children n ! i")
    case (Some c)
    then have "q \<notin> lkey ` set (leaves c)" using inner_ok_child(3)[OF _ assms(2) Some] assms(1) False by auto
    then show ?thesis using Some False by (simp add: look_None_iff)
  qed (use False in simp)
qed

lemma two_keys:
  assumes "node_wf H d n" "common_prefix d n" "2 \<le> length (leaves n)"
  obtains k k' where "k \<noteq> k'" "look n k \<noteq> None" "look n k' \<noteq> None"
proof -
  obtain a b xs where l: "leaves n = a # b # xs"
    using assms(3) by (cases "leaves n"; cases "tl (leaves n)") auto
  then have "lkey a < lkey b" using leaves_sorted[OF assms(1,2)] by simp
  then show thesis using that[of "lkey a" "lkey b"] l by (auto simp: look_None_iff)
qed

lemma look_nonempty_slot:
  assumes "weak_wf H d n" "i < 16" "children n ! i \<noteq> None"
  shows "\<exists>q. slot_look (children n ! i) q \<noteq> None"
proof -
  obtain c where c: "children n ! i = Some c" using assms(3) by blast
  have "node_wf H (Suc d) c" using inner_ok_child(1)[OF _ assms(2) c] assms(1) by blast
  then obtain y ys where "leaves c = y # ys" using node_wf_nonempty[of H "Suc d" c] by (cases "leaves c") auto
  then have "look c (lkey y) \<noteq> None" by (simp add: look_None_iff)
  then show ?thesis using c by auto
qed

lemma bit_iff_child: "weak_wf H d n \<Longrightarrow> i < 16 \<Longrightarrow> bit (isBranch n) i \<longleftrightarrow> children n ! i \<noteq> None"
  using inner_ok_slot[of H "node_wf H" d n i] by (auto simp: slot_ok_def split: option.splits)

lemma same_preimage_inner:
  assumes w: "weak_wf H d n" "weak_wf H d n'" and look: "\<And>q. look n q = look n' q"
    and ch: "\<And>i c c'. i < 16 \<Longrightarrow> children n ! i = Some c \<Longrightarrow> children n' ! i = Some c' \<Longrightarrow>
      (\<And>q. look c q = look c' q) \<Longrightarrow> Hash c = Hash c'"
  shows "isBranch n = isBranch n' \<and>
    inner_preimage (children n) (hashes n) (isBranch n) = inner_preimage (children n') (hashes n') (isBranch n')"
proof -
  have slot: "slot_look (children n ! j) q = slot_look (children n' ! j) q" if "j < 16" for j q
    using look_child_iff[OF w(1) that, of q] look_child_iff[OF w(2) that, of q] look by simp
  have none: "children n ! j = None \<longleftrightarrow> children n' ! j = None" if "j < 16" for j
    using slot[OF that] look_nonempty_slot[OF w(1) that] look_nonempty_slot[OF w(2) that]
    by (metis slot_look_simps(1))
  have br: "isBranch n = isBranch n'"
    by (rule u16_eqI) (use none bit_iff_child[OF w(1)] bit_iff_child[OF w(2)] in blast)
  have "childPreimageHash (children n) (hashes n) i = childPreimageHash (children n') (hashes n') i"
    if i: "i < 16" "bit (isBranch n) i" for i
  proof -
    have "children n ! i \<noteq> None" "children n' ! i \<noteq> None" using i none bit_iff_child[OF w(1)] by blast+
    then obtain c c' where c: "children n ! i = Some c" "children n' ! i = Some c'" by blast
    have "look c q = look c' q" for q using slot[OF i(1), of q] c by simp
    then show ?thesis using ch[OF i(1) c] c by (simp add: childPreimageHash_def)
  qed
  then have eq: "map (branch_bytes (children n) (hashes n) (isBranch n)) [0..<16] =
      map (branch_bytes (children n') (hashes n') (isBranch n')) [0..<16]"
    using br by (auto simp: branch_bytes_def)
  show ?thesis unfolding inner_preimage_def eq by (simp only: br)
qed

lemma same_hash_inner:
  assumes w: "weak_wf H d n" "weak_wf H d n'" and look: "\<And>q. look n q = look n' q"
    and ch: "\<And>i c c'. i < 16 \<Longrightarrow> children n ! i = Some c \<Longrightarrow> children n' ! i = Some c' \<Longrightarrow>
      (\<And>q. look c q = look c' q) \<Longrightarrow> Hash c = Hash c'"
  shows "Hash n = Hash n'"
proof -
  have "Hash n = inner_hash H (children n) (hashes n) (isBranch n)"
    "Hash n' = inner_hash H (children n') (hashes n') (isBranch n')"
    using w by (simp_all add: inner_ok_def)
  moreover have "isBranch n = isBranch n' \<and>
    inner_preimage (children n) (hashes n) (isBranch n) = inner_preimage (children n') (hashes n') (isBranch n')"
    by (rule same_preimage_inner[OF w look]) (rule ch)
  ultimately show ?thesis unfolding inner_hash_def by metis
qed

lemma same_contents_same_hash:
  "node_wf H d n \<Longrightarrow> node_wf H d n' \<Longrightarrow> common_prefix d n \<Longrightarrow> (\<And>q. look n q = look n' q) \<Longrightarrow> Hash n = Hash n'"
proof (induction H d n arbitrary: n' rule: node_wf.induct)
  case (1 H d n)
  have keys: "lkey ` set (leaves n) = lkey ` set (leaves n')"
    by (rule set_eqI) (use "1.prems"(4) look_None_iff in metis)
  then have cp': "common_prefix d n'" using "1.prems"(3) by (simp only: common_prefix_keys)
  have one: "\<not> (k \<noteq> k' \<and> look m k \<noteq> None \<and> look m k' \<noteq> None)" if "\<not> is_inner m" for m k k'
    using that by auto
  consider "is_inner n" "is_inner n'" | "\<not> is_inner n" "\<not> is_inner n'" | "is_inner n" "\<not> is_inner n'"
    | "\<not> is_inner n" "is_inner n'" by blast
  then show ?case
  proof cases
    case 1
    then have w: "weak_wf H d n" "weak_wf H d n'" using "1.prems" by (simp_all add: node_wf_inner)
    have len: "length (children n) = 16" using w by (simp add: inner_ok_def)
    show ?thesis
    proof (rule same_hash_inner[OF w "1.prems"(4)])
      show "Hash c = Hash c'" if c: "i < 16" "children n ! i = Some c" "children n' ! i = Some c'"
        and lk: "\<And>q. look c q = look c' q" for i c c'
      proof (rule "1.IH"[OF \<open>is_inner n\<close> len c(1,2)])
        show "node_wf H (Suc d) c" "node_wf H (Suc d) c'"
          using inner_ok_child(1)[OF _ c(1,2)] inner_ok_child(1)[OF _ c(1,3)] w by blast+
        show "common_prefix (Suc d) c" by (rule common_prefix_child[OF w(1) c(1,2) "1.prems"(3)])
      qed (rule lk)
    qed
  next
    case 2
    then have "Item n' = Item n \<and> kind n' = kind n"
      using "1.prems"(4)[of "ikey (Item n)"] by (auto split: if_splits)
    then show ?thesis using "1.prems"(1,2) 2 by (simp add: node_wf_leaf leaf_ok_def)
  next
    case 3
    then have "2 \<le> length (leaves n)" using "1.prems"(1,2) by (auto simp: node_wf_inner node_wf_leaf leaf_ok_def)
    from two_keys[OF "1.prems"(1,3) this] one[OF 3(2)] "1.prems"(4) show ?thesis by metis
  next
    case 4
    then have "2 \<le> length (leaves n')" using "1.prems"(1,2) by (auto simp: node_wf_inner node_wf_leaf leaf_ok_def)
    from two_keys[OF "1.prems"(2) cp' this] one[OF 4(1)] "1.prems"(4) show ?thesis by metis
  qed
qed

lemma same_contents_same_preimage:
  assumes w: "weak_wf H d n" "weak_wf H d n'" and cp: "common_prefix d n" and look: "\<And>q. look n q = look n' q"
  shows "inner_preimage (children n) (hashes n) (isBranch n) = inner_preimage (children n') (hashes n') (isBranch n')"
proof (rule conjunct2[OF same_preimage_inner[OF w look]])
  show "Hash c = Hash c'" if c: "i < 16" "children n ! i = Some c" "children n' ! i = Some c'"
    and lk: "\<And>q. look c q = look c' q" for i c c'
  proof (rule same_contents_same_hash[OF _ _ common_prefix_child[OF w(1) c(1,2) cp] lk])
    show "node_wf H (Suc d) c" "node_wf H (Suc d) c'"
      using inner_ok_child(1)[OF _ c(1,2)] inner_ok_child(1)[OF _ c(1,3)] w by blast+
  qed
qed

section \<open>The contents are determined by the root hash\<close>

text \<open>The byte strings hashed for the nodes of a tree.\<close>

primrec preimages :: "node \<Rightarrow> bytes list" where
  "preimages (InnerNode h d cs hs br g) =
     (if br = 0 then [] else [inner_preimage cs hs br]) @
     concat (map (\<lambda>o'. case o' of None \<Rightarrow> [] | Some xs \<Rightarrow> xs) (map (map_option preimages) cs))"
| "preimages (LeafNode h d it k) = [leaf_preimage it k]"

lemma preimages_child:
  assumes "is_inner n" "i < length (children n)" "children n ! i = Some c"
  shows "set (preimages c) \<subseteq> set (preimages n)"
proof -
  have "Some c \<in> set (children n)" using assms by (metis nth_mem)
  then show ?thesis using assms(1)
    by (cases n) (force simp: is_inner_def intro!: bexI[of _ "Some c"])+
qed

lemma preimages_inner: "is_inner n \<Longrightarrow> isBranch n \<noteq> 0 \<Longrightarrow>
    inner_preimage (children n) (hashes n) (isBranch n) \<in> set (preimages n)"
  by (cases n) (simp_all add: is_inner_def)

lemma preimages_leaf: "\<not> is_inner n \<Longrightarrow> preimages n = [leaf_preimage (Item n) (kind n)]"
  by (cases n) (simp_all add: is_inner_def)

text \<open>
  The hashing assumptions between two trees: no two of their preimages collide, none hashes to zero,
  and a transaction leaf, whose preimage does not contain its key, has the hash of it as its key.
\<close>

definition no_collision :: "(bytes \<Rightarrow> hash256) \<Rightarrow> node \<Rightarrow> node \<Rightarrow> bool" where
  "no_collision H m n \<longleftrightarrow> list_all (\<lambda>a. list_all (\<lambda>b. H a = H b \<longrightarrow> a = b) (preimages n)) (preimages m)"

definition nonzero_hashes :: "(bytes \<Rightarrow> hash256) \<Rightarrow> node \<Rightarrow> bool" where
  "nonzero_hashes H n \<longleftrightarrow> list_all (\<lambda>a. H a \<noteq> 0) (preimages n)"

definition tx_keys_ok :: "(bytes \<Rightarrow> hash256) \<Rightarrow> node \<Rightarrow> bool" where
  "tx_keys_ok H n \<longleftrightarrow>
     list_all (\<lambda>x. snd x = leafTransaction \<longrightarrow> lkey x = H (HashPrefixTransactionID @ idata (fst x))) (leaves n)"

lemma leaf_preimage_inject:
  assumes "leaf_preimage it k = leaf_preimage it' k'"
  shows "k = k'" "idata it = idata it'" "k \<noteq> leafTransaction \<Longrightarrow> ikey it = ikey it'"
  using assms by (cases k; cases k'; simp add: leaf_preimage_def prefix_defs)+

lemma leaf_inner_preimage: "leaf_preimage it k \<noteq> inner_preimage cs hs br"
  by (cases k) (simp_all add: leaf_preimage_def inner_preimage_def prefix_defs)

lemma node_hash_nonzero:
  assumes "node_wf H d n" "0 < d" "nonzero_hashes H n"
  shows "Hash n \<noteq> 0"
proof (cases "is_inner n")
  case True
  then have w: "weak_wf H d n" "leaves n \<noteq> []" using assms by (auto simp: node_wf_inner)
  then have "isBranch n \<noteq> 0" using no_branch[OF w(1)] by auto
  then show ?thesis using w preimages_inner[OF True] assms(3)
    by (auto simp: inner_ok_def inner_hash_def nonzero_hashes_def list_all_iff)
next
  case False
  then show ?thesis using assms by (simp add: node_wf_leaf leaf_ok_def nonzero_hashes_def preimages_leaf)
qed

lemma inner_preimage_inject:
  assumes "inner_preimage cs hs br = inner_preimage cs' hs' br'"
  shows "sent_hashes cs hs br = sent_hashes cs' hs' br'"
  using assms hash_slots_branches unfolding inner_preimage_def by (metis append_same_eq same_append_eq)

lemma weak_wf_hash:
  "weak_wf H d n \<Longrightarrow> Hash n =
     (if isBranch n = 0 then 0 else H (inner_preimage (children n) (hashes n) (isBranch n)))"
  by (simp add: inner_ok_def inner_hash_def)

lemma weak_wf_hash_0:
  assumes "weak_wf H d n" "nonzero_hashes H n"
  shows "Hash n = 0 \<longleftrightarrow> isBranch n = 0"
  using weak_wf_hash[OF assms(1)] preimages_inner[of n] assms by (auto simp: nonzero_hashes_def list_all_iff)

lemma inner_leaf_hash:
  assumes m: "weak_wf H d m" and l: "\<not> is_inner l" "Hash l = H (leaf_preimage (Item l) (kind l))" "Hash l \<noteq> 0"
    and nc: "\<And>a. a \<in> set (preimages m) \<Longrightarrow> H a = Hash l \<Longrightarrow> a = leaf_preimage (Item l) (kind l)"
  shows "Hash m \<noteq> Hash l"
proof
  assume eq: "Hash m = Hash l"
  then have br: "isBranch m \<noteq> 0" using weak_wf_hash[OF m] l(3) by auto
  let ?p = "inner_preimage (children m) (hashes m) (isBranch m)"
  have "?p = leaf_preimage (Item l) (kind l)"
    using nc[OF preimages_inner] m br weak_wf_hash[OF m] eq by simp
  then show False using leaf_inner_preimage by metis
qed

lemma same_leaves_inner:
  assumes w: "weak_wf H d n" "weak_wf H d n'" and eq: "Hash n = Hash n'"
    and nc: "no_collision H n n'" and nz: "nonzero_hashes H n" "nonzero_hashes H n'"
    and ch: "\<And>i c c'. i < 16 \<Longrightarrow> children n ! i = Some c \<Longrightarrow> children n' ! i = Some c' \<Longrightarrow> Hash c = Hash c' \<Longrightarrow>
      leaves c = leaves c'"
  shows "leaves n = leaves n'"
proof (cases "isBranch n = 0 \<or> isBranch n' = 0")
  case True
  then have "isBranch n = 0" "isBranch n' = 0"
    using weak_wf_hash_0[OF w(1) nz(1)] weak_wf_hash_0[OF w(2) nz(2)] eq by metis+
  then show ?thesis using no_branch[OF w(1)] no_branch[OF w(2)] by simp
next
  case False
  let ?p = "\<lambda>m. inner_preimage (children m) (hashes m) (isBranch m)"
  have "H (?p n) = H (?p n')"
    using weak_wf_hash[OF w(1)] weak_wf_hash[OF w(2)] eq False by presburger
  moreover have "?p n \<in> set (preimages n)" "?p n' \<in> set (preimages n')"
    using preimages_inner[of n] preimages_inner[of n'] w False by blast+
  ultimately have "?p n = ?p n'" using nc unfolding no_collision_def list_all_iff by blast
  from inner_preimage_inject[OF this]
  have sent: "sent_hashes (children n) (hashes n) (isBranch n) ! i = sent_hashes (children n') (hashes n') (isBranch n') ! i" for i
    by simp
  have len: "length (children n) = 16" "length (children n') = 16" using w by (simp_all add: inner_ok_def)
  have hash: "sent_hashes (children m) (hashes m) (isBranch m) ! i = (case children m ! i of None \<Rightarrow> 0 | Some c \<Rightarrow> Hash c)"
    if "weak_wf H d m" "i < 16" for m i
    using bit_iff_child[OF that] that(2) by (auto simp: childPreimageHash_def split: option.splits)
  have nzc: "Hash c \<noteq> 0" if "weak_wf H d m" "nonzero_hashes H m" "i < 16" "children m ! i = Some c" for m i c
  proof (rule node_hash_nonzero)
    show "node_wf H (Suc d) c" using inner_ok_child(1)[OF _ that(3,4)] that(1) by blast
    have "length (children m) = 16" using that(1) by (simp add: inner_ok_def)
    then show "nonzero_hashes H c" using preimages_child[of m i c] that by (auto simp: nonzero_hashes_def list_all_iff)
  qed simp
  have "slot_leaves (children n ! i) = slot_leaves (children n' ! i)" if i: "i < 16" for i
  proof -
    have "(case children n ! i of None \<Rightarrow> 0 | Some c \<Rightarrow> Hash c) = (case children n' ! i of None \<Rightarrow> 0 | Some c \<Rightarrow> Hash c)"
      using sent[of i] hash[OF w(1) i] hash[OF w(2) i] by simp
    note e = this
    show ?thesis
    proof (cases "children n ! i")
      case None
      then have "children n' ! i = None" using e nzc[OF w(2) nz(2) i] by (cases "children n' ! i") simp_all
      with None show ?thesis by simp
    next
      case (Some c)
      then have "Hash c \<noteq> 0" by (rule nzc[OF w(1) nz(1) i])
      then obtain c' where c': "children n' ! i = Some c'" using e Some by (cases "children n' ! i") simp_all
      have "leaves c = leaves c'" using e Some c' by (intro ch[OF i Some c']) simp
      then show ?thesis using Some c' by simp
    qed
  qed
  then show ?thesis unfolding leaves_slots[OF w(1)] leaves_slots[OF w(2)]
    by (intro arg_cong[where f = concat] map_cong) auto
qed

lemma same_hash_same_leaves:
  "\<lbrakk>node_wf H d n; node_wf H d n'; Hash n = Hash n'; no_collision H n n'; nonzero_hashes H n; nonzero_hashes H n';
    tx_keys_ok H n; tx_keys_ok H n'\<rbrakk> \<Longrightarrow> leaves n = leaves n'"
proof (induction H d n arbitrary: n' rule: node_wf.induct)
  case (1 H d n)
  note nz = "1.prems"(5,6) and nc = "1.prems"(4) and eq = "1.prems"(3) and tx = "1.prems"(7,8)
  consider "is_inner n" "is_inner n'" | "\<not> is_inner n" "\<not> is_inner n'" | "is_inner n" "\<not> is_inner n'"
    | "\<not> is_inner n" "is_inner n'" by blast
  then show ?case
  proof cases
    case 1
    then have w: "weak_wf H d n" "weak_wf H d n'" using "1.prems" by (simp_all add: node_wf_inner)
    have len: "length (children n) = 16" "length (children n') = 16" using w by (simp_all add: inner_ok_def)
    show ?thesis
    proof (rule same_leaves_inner[OF w eq nc nz])
      fix i c c' assume c: "i < 16" "children n ! i = Some c" "children n' ! i = Some c'" "Hash c = Hash c'"
      have sub: "set (preimages c) \<subseteq> set (preimages n)" "set (preimages c') \<subseteq> set (preimages n')"
        using preimages_child[OF 1(1) _ c(2)] preimages_child[OF 1(2) _ c(3)] c(1) len by simp_all
      have lv: "set (leaves c) \<subseteq> set (leaves n)" "set (leaves c') \<subseteq> set (leaves n')"
        using leaves_in_child[OF w(1) c(1,2)] leaves_in_child[OF w(2) c(1,3)] by auto
      show "leaves c = leaves c'"
      proof (rule "1.IH"[OF 1(1) len(1) c(1,2)])
        show "node_wf H (Suc d) c" "node_wf H (Suc d) c'"
          using inner_ok_child(1)[OF _ c(1,2)] inner_ok_child(1)[OF _ c(1,3)] w by blast+
        show "no_collision H c c'" "nonzero_hashes H c" "nonzero_hashes H c'"
          using sub nc nz unfolding no_collision_def nonzero_hashes_def list_all_iff by blast+
        show "tx_keys_ok H c" "tx_keys_ok H c'" using lv tx unfolding tx_keys_ok_def list_all_iff by blast+
      qed (rule c(4))
    qed
  next
    case 2
    then have "leaf_preimage (Item n) (kind n) = leaf_preimage (Item n') (kind n')"
      using "1.prems"(1,2) eq nc by (simp add: node_wf_leaf leaf_ok_def no_collision_def preimages_leaf)
    note p = leaf_preimage_inject[OF this]
    have "ikey (Item n) = ikey (Item n')"
      using p tx 2 by (cases "kind n = leafTransaction") (auto simp: tx_keys_ok_def leaves_leaf)
    then show ?thesis using p 2 by (simp add: leaves_leaf)
  next
    case 3
    have l: "Hash n' = H (leaf_preimage (Item n') (kind n'))" "Hash n' \<noteq> 0"
      using "1.prems"(2) 3 nz by (simp_all add: node_wf_leaf leaf_ok_def nonzero_hashes_def preimages_leaf)
    have "a = leaf_preimage (Item n') (kind n')" if "a \<in> set (preimages n)" "H a = Hash n'" for a
      using nc that 3 l(1) by (simp add: no_collision_def list_all_iff preimages_leaf)
    then show ?thesis using inner_leaf_hash[OF node_wf_weak[OF "1.prems"(1) 3(1)] 3(2) l] eq by metis
  next
    case 4
    have l: "Hash n = H (leaf_preimage (Item n) (kind n))" "Hash n \<noteq> 0"
      using "1.prems"(1) 4 nz by (simp_all add: node_wf_leaf leaf_ok_def nonzero_hashes_def preimages_leaf)
    have "a = leaf_preimage (Item n) (kind n)" if "a \<in> set (preimages n')" "H a = Hash n" for a
      using nc that 4 l(1) by (auto simp: no_collision_def list_all_iff preimages_leaf)
    then show ?thesis using inner_leaf_hash[OF node_wf_weak[OF "1.prems"(2) 4(2)] 4(1) l] eq by metis
  qed
qed

section \<open>The client's view\<close>

text \<open>
  A finite map with a digest: updates and removals act as on a function, a removal of an absent key
  is refused, and the digest is a function of the contents.
\<close>

locale authenticated_map =
  fixes inv :: "'s \<Rightarrow> bool" and get :: "'s \<Rightarrow> 'k \<Rightarrow> 'v option"
    and put :: "'s \<Rightarrow> 'k \<Rightarrow> 'v \<Rightarrow> 'e + 's" and del :: "'s \<Rightarrow> 'k \<Rightarrow> 'e + 's"
    and digest :: "'s \<Rightarrow> 'h" and ok :: "'v \<Rightarrow> bool" and missing :: 'e
  assumes put_ok: "inv s \<Longrightarrow> ok v \<Longrightarrow> \<exists>s'. put s k v = Inr s' \<and> inv s' \<and> get s' = (get s)(k \<mapsto> v)"
    and del_ok: "inv s \<Longrightarrow> get s k \<noteq> None \<Longrightarrow> \<exists>s'. del s k = Inr s' \<and> inv s' \<and> get s' = (get s)(k := None)"
    and del_missing: "inv s \<Longrightarrow> get s k = None \<Longrightarrow> del s k = Inl missing"
    and digest_canonical: "inv s \<Longrightarrow> inv t \<Longrightarrow> get s = get t \<Longrightarrow> digest s = digest t"
begin

lemma put_defined:
  assumes "inv s" "ok v" "put s k v = Inr s'"
  shows "inv s' \<and> get s' = (get s)(k \<mapsto> v)"
  using put_ok[OF assms(1,2), of k] assms(3) by auto

lemma del_defined:
  assumes "inv s" "del s k = Inr s'"
  shows "inv s' \<and> get s' = (get s)(k := None)"
  using del_ok[OF assms(1), of k] del_missing[OF assms(1), of k] assms(2) by (cases "get s k") auto

lemma put_commute:
  assumes "inv s" "ok v" "ok w" "k \<noteq> l"
  shows "\<exists>a b. bindE (put s k v) (\<lambda>t. put t l w) = Inr a \<and> bindE (put s l w) (\<lambda>t. put t k v) = Inr b \<and>
    digest a = digest b \<and> get a = get b"
proof -
  obtain s1 where s1: "put s k v = Inr s1" "inv s1" "get s1 = (get s)(k \<mapsto> v)" using put_ok assms by blast
  obtain s2 where s2: "put s l w = Inr s2" "inv s2" "get s2 = (get s)(l \<mapsto> w)" using put_ok assms by blast
  obtain a where a: "put s1 l w = Inr a" "inv a" "get a = (get s1)(l \<mapsto> w)" using put_ok s1 assms by blast
  obtain b where b: "put s2 k v = Inr b" "inv b" "get b = (get s2)(k \<mapsto> v)" using put_ok s2 assms by blast
  have "get a = get b" unfolding a(3) b(3) s1(3) s2(3) by (rule fun_upd_twist[OF assms(4)])
  moreover have "digest a = digest b" by (rule digest_canonical[OF a(2) b(2) calculation])
  ultimately show ?thesis using a(1) b(1) s1(1) s2(1) by (intro exI[of _ a] exI[of _ b]) simp
qed

lemma put_del:
  assumes "inv s" "ok v"
  shows "\<exists>t. bindE (put s k v) (\<lambda>t. del t k) = Inr t \<and> get t = (get s)(k := None) \<and>
    (get s k = None \<longrightarrow> digest t = digest s) \<and> (\<forall>u. del s k = Inr u \<longrightarrow> digest t = digest u)"
proof -
  obtain s1 where s1: "put s k v = Inr s1" "inv s1" "get s1 = (get s)(k \<mapsto> v)" using put_ok assms by blast
  then obtain t where t: "del s1 k = Inr t" "inv t" "get t = (get s1)(k := None)" using del_ok[of s1 k] by auto
  have get: "get t = (get s)(k := None)" using t(3) s1(3) by simp
  then have "digest t = digest s" if "get s k = None"
    using digest_canonical[OF t(2) assms(1)] that by (simp add: fun_upd_idem)
  moreover have "digest t = digest u" if "del s k = Inr u" for u
    using del_defined[OF assms(1) that] digest_canonical[OF t(2)] get by simp
  ultimately show ?thesis using t(1) s1(1) get by (intro exI[of _ t]) simp
qed

end

lemma Get_look: "map_wf H sm \<Longrightarrow> Get H sm k = Inr (map_option fst (look (root sm) k), look (root sm) k \<noteq> None)"
  by (simp add: Get_def get_correct)

definition sm_get :: "(bytes \<Rightarrow> hash256) \<Rightarrow> shamap \<Rightarrow> hash256 \<Rightarrow> bytes option" where
  "sm_get H sm k = (case Get H sm k of Inr (Some it, _) \<Rightarrow> Some (idata it) | _ \<Rightarrow> None)"

lemma sm_get_look: "map_wf H sm \<Longrightarrow> sm_get H sm k = map_option (\<lambda>x. idata (fst x)) (look (root sm) k)"
  by (simp add: sm_get_def Get_look split: option.splits)

text \<open>Maps of one type whose leaves all have the default kind of the type.\<close>

definition uniform :: "shamap \<Rightarrow> bool" where
  "uniform sm \<longleftrightarrow> list_all (\<lambda>x. snd x = default_kind sm) (leaves (root sm))"

definition plain_map :: "(bytes \<Rightarrow> hash256) \<Rightarrow> mapType \<Rightarrow> shamap \<Rightarrow> bool" where
  "plain_map H mt sm \<longleftrightarrow> map_wf H sm \<and> mstate sm = stateModifying \<and> mtype sm = mt \<and> uniform sm"

lemma default_kind_root [simp]: "default_kind (sm\<lparr>root := n\<rparr>) = default_kind sm"
  by (simp add: getLeafNodeType_def)

lemma look_lkey: "look n k = Some x \<Longrightarrow> lkey x = k"
  using look_Some_in by blast

lemma look_in_iff:
  assumes "map_wf H sm"
  shows "x \<in> set (leaves (root sm)) \<longleftrightarrow> look (root sm) (lkey x) = Some x"
proof
  assume "x \<in> set (leaves (root sm))"
  moreover have "distinct (map lkey (leaves (root sm)))"
    using map_leaves_sorted[OF assms] strict_sorted_iff by blast
  ultimately show "look (root sm) (lkey x) = Some x"
    unfolding look_def by (intro map_of_is_SomeI) (auto simp: o_def)
qed (use look_Some_in in blast)

lemma uniform_iff:
  assumes "map_wf H sm"
  shows "uniform sm \<longleftrightarrow> (\<forall>k x. look (root sm) k = Some x \<longrightarrow> snd x = default_kind sm)"
proof
  assume u: "uniform sm"
  show "\<forall>k x. look (root sm) k = Some x \<longrightarrow> snd x = default_kind sm"
    using u look_Some_in unfolding uniform_def list_all_iff by blast
next
  assume u: "\<forall>k x. look (root sm) k = Some x \<longrightarrow> snd x = default_kind sm"
  have "snd x = default_kind sm" if "x \<in> set (leaves (root sm))" for x
    using u look_in_iff[OF assms, of x] that by blast
  then show "uniform sm" unfolding uniform_def list_all_iff by blast
qed

lemma look_uniform:
  assumes "map_wf H sm" "uniform sm"
  shows "look (root sm) k = map_option (\<lambda>d. (\<lparr>ikey = k, idata = d\<rparr>, default_kind sm)) (sm_get H sm k)"
proof (cases "look (root sm) k")
  case (Some x)
  then have "snd x = default_kind sm" "ikey (fst x) = k"
    using assms(2)[unfolded uniform_iff[OF assms(1)]] look_lkey[OF Some] by blast+
  then have "x = (\<lparr>ikey = k, idata = idata (fst x)\<rparr>, default_kind sm)"
    by (intro prod_eqI item.equality) simp_all
  then show ?thesis unfolding sm_get_look[OF assms(1)] Some option.map by (rule arg_cong)
qed (simp add: sm_get_look[OF assms(1)])

lemma up_to_kind_uniform:
  assumes "up_to_kind dk a b" "\<And>y. b = Some y \<Longrightarrow> snd y = dk"
  shows "a = b"
proof (cases b)
  case (Some y)
  then have "snd y = dk" by (rule assms(2))
  then show ?thesis using assms(1) Some by (auto simp: up_to_kind_def intro: prod_eqI)
qed (use assms(1) up_to_kind_None in blast)

lemma root_hash_canonical:
  assumes "map_wf H s" "map_wf H t" "\<And>k. look (root s) k = look (root t) k"
  shows "Hash (root s) = Hash (root t)"
  using same_contents_same_hash[of H 0 "root s" "root t"] assms by (simp add: map_wf_def)

lemma plain_put:
  assumes s: "plain_map H mt s" and v: "12 \<le> length (v :: bytes)"
  shows "\<exists>s'. Put H s k v = Inr s' \<and> plain_map H mt s' \<and> sm_get H s' = (sm_get H s)(k \<mapsto> v)"
proof -
  have w: "map_wf H s" "mstate s = stateModifying" "uniform s" using s by (simp_all add: plain_map_def)
  have "12 \<le> length (idata (NewItem k v))" using v by (simp add: NewItem_def)
  from put_correct[OF w(1,2) getLeafNodeType_leaf this] obtain n where
    n: "putItemWithNodeTypeUnsafe H s (NewItem k v) (getLeafNodeType s) = Inr (s\<lparr>root := n\<rparr>)"
    "weak_wf H 0 n" "look n = (look (root s))(k \<mapsto> (NewItem k v, default_kind s))" by (auto simp: NewItem_def)
  let ?s = "s\<lparr>root := n\<rparr>"
  have w': "map_wf H ?s" using n(2) by (simp add: map_wf_weak)
  have "uniform ?s" unfolding uniform_iff[OF w']
    using w(3)[unfolded uniform_iff[OF w(1)]] by (simp add: n(3))
  moreover have "sm_get H ?s = (sm_get H s)(k \<mapsto> v)"
    by (rule ext) (simp add: sm_get_look[OF w'] sm_get_look[OF w(1)] n(3) NewItem_def)
  moreover have "Put H s k v = Inr ?s" using n(1) w by (simp add: Put_def putItem_def putItemUnsafe_def)
  ultimately show ?thesis using s w' by (simp add: plain_map_def)
qed

lemma plain_delete:
  assumes s: "plain_map H mt s" and k: "sm_get H s k \<noteq> None" and fuel: "65 \<le> fuel"
  shows "\<exists>s'. Delete fuel H s k = Inr s' \<and> plain_map H mt s' \<and> sm_get H s' = (sm_get H s)(k := None)"
proof -
  have w: "map_wf H s" "mstate s = stateModifying" "uniform s" using s by (simp_all add: plain_map_def)
  have "look (root s) k \<noteq> None" using k by (simp add: sm_get_look[OF w(1)])
  from delete_correct[OF w(1,2) fuel this] obtain n where n: "Delete fuel H s k = Inr (s\<lparr>root := n\<rparr>)" "weak_wf H 0 n"
    "\<forall>q. up_to_kind (default_kind s) (look n q) (if q = k then None else look (root s) q)" by blast
  let ?s = "s\<lparr>root := n\<rparr>"
  note u = w(3)[unfolded uniform_iff[OF w(1)]]
  have w': "map_wf H ?s" using n(2) by (simp add: map_wf_weak)
  have look: "look n q = (if q = k then None else look (root s) q)" for q
  proof (rule up_to_kind_uniform[OF n(3)[rule_format]])
    show "snd y = default_kind s" if "(if q = k then None else look (root s) q) = Some y" for y
      using u that by (metis option.distinct(1))
  qed
  have "uniform ?s" unfolding uniform_iff[OF w'] using u by (simp add: look)
  moreover have "sm_get H ?s = (sm_get H s)(k := None)"
    by (rule ext) (simp add: sm_get_look[OF w'] sm_get_look[OF w(1)] look)
  ultimately show ?thesis using s n(1) w' by (simp add: plain_map_def)
qed

interpretation sm: authenticated_map "plain_map H mt" "sm_get H" "Put H" "Delete 65 H" "\<lambda>s. Hash (root s)"
  "\<lambda>d. 12 \<le> length d" ErrItemNotFound for H mt
proof
  show "\<exists>s'. Put H s k v = Inr s' \<and> plain_map H mt s' \<and> sm_get H s' = (sm_get H s)(k \<mapsto> v)"
    if "plain_map H mt s" "12 \<le> length v" for s k v using that by (rule plain_put)
  show "\<exists>s'. Delete 65 H s k = Inr s' \<and> plain_map H mt s' \<and> sm_get H s' = (sm_get H s)(k := None)"
    if "plain_map H mt s" "sm_get H s k \<noteq> None" for s k using that by (rule plain_delete) simp
  show "Delete 65 H s k = Inl ErrItemNotFound" if "plain_map H mt s" "sm_get H s k = None" for s k
    using that by (intro delete_absent) (simp_all add: plain_map_def sm_get_look)
  show "Hash (root s) = Hash (root t)"
    if st: "plain_map H mt s" "plain_map H mt t" and eq: "sm_get H s = sm_get H t" for s t
  proof -
    have "look (root s) k = look (root t) k" for k
      using look_uniform[of H s k] look_uniform[of H t k] st eq by (simp add: plain_map_def getLeafNodeType_def)
    then show ?thesis using st root_hash_canonical[of H s t] by (simp add: plain_map_def)
  qed
qed

section \<open>Reachable maps\<close>

lemma New_wf: "map_wf H (New mt)"
  using newInnerNode_weak_wf[of 0 H] by (simp add: map_wf_weak New_def)

lemma put_too_small:
  assumes wf: "map_wf H sm" and len: "length (idata it) < 12" and nt: "nt \<noteq> NodeTypeInner"
  shows "putItemWithNodeTypeUnsafe H sm it nt = Inl errItemTooSmall"
proof -
  obtain r ps where walk: "walkToKey H sm (ikey it) False = Inr (r, ps)" and path: "path (ikey it) 0 (root sm) r ps"
    using walkToKey_path[OF wf, of "ikey it"] by blast
  have "\<not> is_inner c" if "r = Some c" for c using path path_result that by blast
  then show ?thesis using walk len nt
    by (cases r) (simp_all add: putItemWithNodeTypeUnsafe_def createLeafNode_eq Let_def)
qed

lemma put_inner_type:
  assumes "map_wf H sm"
  shows "\<exists>e. putItemWithNodeTypeUnsafe H sm it NodeTypeInner = Inl e"
proof -
  obtain r ps where walk: "walkToKey H sm (ikey it) False = Inr (r, ps)"
    using walkToKey_path[OF assms, of "ikey it"] by blast
  then show ?thesis
    by (cases r) (simp_all add: putItemWithNodeTypeUnsafe_def createLeafNode_eq Let_def)
qed

lemma put_Inr:
  assumes wf: "map_wf H sm" "mstate sm = stateModifying" and put: "putItemWithNodeTypeUnsafe H sm it nt = Inr sm'"
  shows "\<exists>n. sm' = sm\<lparr>root := n\<rparr> \<and> map_wf H sm' \<and> look n = (look (root sm))(ikey it \<mapsto> (it, type_kind nt))"
proof -
  have nt: "nt \<noteq> NodeTypeInner" using put put_inner_type[OF wf(1), of it] by auto
  have "12 \<le> length (idata it)" using put put_too_small[OF wf(1) _ nt, of it] by fastforce
  from put_correct[OF wf nt this] put show ?thesis by (auto simp: map_wf_weak)
qed

lemma put_keeps:
  assumes "map_wf H sm" "mstate sm = stateModifying" "putItemWithNodeTypeUnsafe H sm it nt = Inr sm'"
  shows "map_wf H sm' \<and> mtype sm' = mtype sm"
proof -
  obtain n where "sm' = sm\<lparr>root := n\<rparr>" "map_wf H sm'" using put_Inr[OF assms] by blast
  then show ?thesis by simp
qed

lemma delete_Inr:
  assumes wf: "map_wf H sm" and fuel: "65 \<le> fuel" and del: "Delete fuel H sm k = Inr sm'"
  shows "\<exists>n. sm' = sm\<lparr>root := n\<rparr> \<and> map_wf H sm' \<and>
    (\<forall>q. up_to_kind (default_kind sm) (look n q) (if q = k then None else look (root sm) q))"
proof -
  have st: "mstate sm = stateModifying" using del by (auto simp: Delete_def split: if_splits)
  have "look (root sm) k \<noteq> None" by (rule notI) (use del delete_absent[OF wf st, of k fuel] in simp)
  from delete_correct[OF wf st fuel this] obtain n where "Delete fuel H sm k = Inr (sm\<lparr>root := n\<rparr>)" "weak_wf H 0 n"
    "\<forall>q. up_to_kind (default_kind sm) (look n q) (if q = k then None else look (root sm) q)" by blast
  then show ?thesis using del by (intro exI[of _ n]) (simp add: map_wf_weak)
qed

definition item_ok :: "item option \<Rightarrow> bool" where
  "item_ok i \<longleftrightarrow> (case i of None \<Rightarrow> False | Some it \<Rightarrow> 12 \<le> length (idata it))"

definition put_item :: "leafKind \<Rightarrow> item option \<Rightarrow> (hash256 \<Rightarrow> (item \<times> leafKind) option) \<Rightarrow>
    hash256 \<Rightarrow> (item \<times> leafKind) option" where
  "put_item dk i m = (case i of None \<Rightarrow> m | Some it \<Rightarrow> m(ikey it \<mapsto> (it, dk)))"

lemma put_item_Some [simp]: "put_item dk (Some it) m = m(ikey it \<mapsto> (it, dk))"
  by (simp add: put_item_def)

lemma putAll_ok:
  assumes "map_wf H s" "mstate s = stateModifying" "list_all item_ok items"
  shows "\<exists>n. putAll H s items = Inr (s\<lparr>root := n\<rparr>) \<and> weak_wf H 0 n \<and>
    look n = fold (put_item (default_kind s)) items (look (root s))"
  using assms
proof (induction items arbitrary: s)
  case Nil
  then show ?case by (intro exI[of _ "root s"]) (simp add: map_wf_weak)
next
  case (Cons i items)
  then obtain it where i: "i = Some it" "12 \<le> length (idata it)" by (auto simp: item_ok_def split: option.splits)
  obtain n where n: "putItemWithNodeTypeUnsafe H s it (getLeafNodeType s) = Inr (s\<lparr>root := n\<rparr>)" "weak_wf H 0 n"
    "look n = (look (root s))(ikey it \<mapsto> (it, default_kind s))"
    using put_correct[OF Cons.prems(1,2) getLeafNodeType_leaf i(2)] by blast
  have "map_wf H (s\<lparr>root := n\<rparr>)" "mstate (s\<lparr>root := n\<rparr>) = stateModifying" "list_all item_ok items"
    using n(2) Cons.prems by (simp_all add: map_wf_weak)
  from Cons.IH[OF this] obtain n' where
    "putAll H (s\<lparr>root := n\<rparr>) items = Inr (s\<lparr>root := n\<rparr>\<lparr>root := n'\<rparr>)" "weak_wf H 0 n'"
    "look n' = fold (put_item (default_kind (s\<lparr>root := n\<rparr>))) items (look n)" by auto
  then show ?case using i(1) n(1,3)
    by (intro exI[of _ n']) (simp add: putItemUnsafe_def)
qed

lemma putAll_fail:
  assumes "map_wf H s" "mstate s = stateModifying" "\<not> list_all item_ok items"
  shows "\<exists>e. putAll H s items = Inl e"
  using assms
proof (induction items arbitrary: s)
  case (Cons i items)
  show ?case
  proof (cases "item_ok i")
    case True
    then obtain it where i: "i = Some it" "12 \<le> length (idata it)" by (auto simp: item_ok_def split: option.splits)
    obtain n where n: "putItemWithNodeTypeUnsafe H s it (getLeafNodeType s) = Inr (s\<lparr>root := n\<rparr>)" "weak_wf H 0 n"
      using put_correct[OF Cons.prems(1,2) getLeafNodeType_leaf i(2)] by blast
    have "map_wf H (s\<lparr>root := n\<rparr>)" "mstate (s\<lparr>root := n\<rparr>) = stateModifying" "\<not> list_all item_ok items"
      using n(2) Cons.prems True by (simp_all add: map_wf_weak)
    from Cons.IH[OF this] show ?thesis using i(1) n(1) by (auto simp: putItemUnsafe_def)
  next
    case False
    then show ?thesis using put_too_small[OF Cons.prems(1) _ getLeafNodeType_leaf]
      by (cases i) (auto simp: item_ok_def putItemUnsafe_def)
  qed
qed simp

lemma snapshot_Inr:
  "snapshotLocked s m = Inr t \<Longrightarrow> root t = root s \<and> mtype t = mtype s \<and> mstate t = (if m then stateModifying else stateImmutable)"
  by (auto simp: snapshotLocked_def Let_def split: if_splits)

lemma atomic_cases:
  assumes wf: "map_wf H sm" and st: "mstate sm = stateModifying"
  shows "if list_all item_ok items
    then \<exists>n. PutItemsAtomically H sm items = (None, sm\<lparr>root := n, cachedSize := -1\<rparr>) \<and> weak_wf H 0 n \<and>
      look n = fold (put_item (default_kind sm)) items (look (root sm))
    else \<exists>e. PutItemsAtomically H sm items = (Some e, sm)"
proof -
  obtain t where t: "snapshotLocked sm True = Inr t" using st by (simp add: snapshotLocked_def)
  then have t': "root t = root sm" "mtype t = mtype sm" "mstate t = stateModifying" using snapshot_Inr by force+
  have w: "map_wf H t" using wf t'(1) by (simp add: map_wf_def)
  have dk: "default_kind t = default_kind sm" using t'(2) by (simp add: getLeafNodeType_def)
  show ?thesis
  proof (cases "list_all item_ok items")
    case True
    then show ?thesis using putAll_ok[OF w t'(3) True] t st t'(1) dk by (auto simp: PutItemsAtomically_def)
  next
    case False
    then show ?thesis using putAll_fail[OF w t'(3) False] t st by (auto simp: PutItemsAtomically_def)
  qed
qed

text \<open>Every map that the package's operations produce from a new one.\<close>

inductive reachable :: "(bytes \<Rightarrow> hash256) \<Rightarrow> mapType \<Rightarrow> shamap \<Rightarrow> bool" for H mt where
  new: "reachable H mt (New mt)"
| put: "reachable H mt sm \<Longrightarrow> Put H sm k d = Inr sm' \<Longrightarrow> reachable H mt sm'"
| put_typed: "reachable H mt sm \<Longrightarrow> PutWithNodeType H sm k d nt = Inr sm' \<Longrightarrow> reachable H mt sm'"
| delete: "reachable H mt sm \<Longrightarrow> 65 \<le> fuel \<Longrightarrow> Delete fuel H sm k = Inr sm' \<Longrightarrow> reachable H mt sm'"
| atomic: "reachable H mt sm \<Longrightarrow> PutItemsAtomically H sm items = (e, sm') \<Longrightarrow> reachable H mt sm'"
| freeze: "reachable H mt sm \<Longrightarrow> SetImmutable sm = Inr sm' \<Longrightarrow> reachable H mt sm'"
| snapshot: "reachable H mt sm \<Longrightarrow> snapshotLocked sm m = Inr sm' \<Longrightarrow> reachable H mt sm'"
| stamp: "reachable H mt sm \<Longrightarrow> reachable H mt (SetLedgerSeq sm n)"
| count: "reachable H mt sm \<Longrightarrow> 65 \<le> fuel \<Longrightarrow> Size fuel H sm = (c, sm') \<Longrightarrow> reachable H mt sm'"

inductive_cases reachableE: "reachable H mt sm"

lemma map_wf_root: "root s = root t \<Longrightarrow> map_wf H s \<Longrightarrow> map_wf H t"
  by (simp add: map_wf_def)

lemma Put_unfold: "Put H sm k d = Inr sm' \<longleftrightarrow> mstate sm = stateModifying \<and>
    putItemWithNodeTypeUnsafe H sm \<lparr>ikey = k, idata = d\<rparr> (getLeafNodeType sm) = Inr sm'"
  by (simp add: Put_def putItem_def putItemUnsafe_def NewItem_def)

lemma PutWithNodeType_unfold: "PutWithNodeType H sm k d nt = Inr sm' \<longleftrightarrow> mstate sm = stateModifying \<and>
    putItemWithNodeTypeUnsafe H sm \<lparr>ikey = k, idata = d\<rparr> nt = Inr sm'"
  by (simp add: PutWithNodeType_def putItemWithNodeType_def NewItem_def)

lemma atomic_wf:
  assumes "map_wf H sm" "PutItemsAtomically H sm items = (e, sm')"
  shows "map_wf H sm' \<and> mtype sm' = mtype sm"
proof (cases "mstate sm = stateModifying")
  case True
  show ?thesis using atomic_cases[OF assms(1) True, of items] assms
    by (auto simp: map_wf_weak split: if_splits)
qed (use assms in \<open>auto simp: PutItemsAtomically_def\<close>)

lemma Size_keeps:
  "Size fuel H sm = (c, sm') \<Longrightarrow> root sm' = root sm \<and> mtype sm' = mtype sm \<and> mstate sm' = mstate sm"
  by (auto simp: Size_def split: if_splits prod.splits)

lemma reachable_inv: "reachable H mt sm \<Longrightarrow> map_wf H sm \<and> mtype sm = mt"
proof (induction rule: reachable.induct)
  case new
  show ?case using New_wf by (simp add: New_def)
next
  case (put sm k d sm')
  then show ?case using put_keeps by (metis Put_unfold)
next
  case (put_typed sm k d nt sm')
  then show ?case using put_keeps by (metis PutWithNodeType_unfold)
next
  case (delete sm fuel k sm')
  then obtain n where "sm' = sm\<lparr>root := n\<rparr>" "map_wf H sm'" using delete_Inr[of H sm fuel k sm'] by blast
  then show ?case using delete.IH by simp
next
  case (atomic sm items e sm')
  then show ?case using atomic_wf by blast
next
  case (freeze sm sm')
  then show ?case by (auto simp: SetImmutable_def map_wf_def split: if_splits)
next
  case (snapshot sm m sm')
  then show ?case using snapshot_Inr[of sm m sm'] map_wf_root by auto
next
  case (stamp sm n)
  then show ?case by (simp add: SetLedgerSeq_def map_wf_def)
next
  case (count sm fuel c sm')
  then show ?case using Size_keeps[of fuel H sm c sm'] map_wf_root[of sm sm'] by simp
qed

end
