(* ===== verification/Shamap_Contract.thy ===== *)
theory Shamap_Contract
  imports Shamap_Spec
begin

text \<open>
  What \<open>src/shamap\<close> promises its callers, stated over the operations of \<open>Shamap_Ops\<close>: \<open>Put\<close> and
  \<open>Delete\<close> are the update and the removal of a finite map, batches are atomic, every map the package can
  produce is well-formed, and the root hash is a canonical and binding digest of the contents.  The
  last section shows where the kind of a leaf is not kept by a deletion.
\<close>

section \<open>Maps built with the default leaf kind\<close>

text \<open>
  The maps produced without \<open>PutWithNodeType\<close>, the one operation that chooses the kind of a leaf: all their
  leaves have the default kind of the map's type.
\<close>

inductive built :: "(bytes \<Rightarrow> hash256) \<Rightarrow> mapType \<Rightarrow> shamap \<Rightarrow> bool" for H mt where
  built_new: "built H mt (New mt)"
| built_put: "built H mt sm \<Longrightarrow> Put H sm k d = Inr sm' \<Longrightarrow> built H mt sm'"
| built_delete: "built H mt sm \<Longrightarrow> 65 \<le> fuel \<Longrightarrow> Delete fuel H sm k = Inr sm' \<Longrightarrow> built H mt sm'"
| built_atomic: "built H mt sm \<Longrightarrow> PutItemsAtomically H sm items = (e, sm') \<Longrightarrow> built H mt sm'"
| built_freeze: "built H mt sm \<Longrightarrow> SetImmutable sm = Inr sm' \<Longrightarrow> built H mt sm'"
| built_snapshot: "built H mt sm \<Longrightarrow> snapshotLocked sm m = Inr sm' \<Longrightarrow> built H mt sm'"
| built_stamp: "built H mt sm \<Longrightarrow> built H mt (SetLedgerSeq sm n)"
| built_count: "built H mt sm \<Longrightarrow> 65 \<le> fuel \<Longrightarrow> Size fuel H sm = (c, sm') \<Longrightarrow> built H mt sm'"

lemma uniform_root: "root s = root t \<Longrightarrow> mtype s = mtype t \<Longrightarrow> uniform s \<longleftrightarrow> uniform t"
  by (simp add: uniform_def getLeafNodeType_def)

lemma uniform_put:
  assumes "map_wf H sm" "mstate sm = stateModifying" "uniform sm"
    "putItemWithNodeTypeUnsafe H sm it (getLeafNodeType sm) = Inr sm'"
  shows "uniform sm'"
proof -
  obtain n where n: "sm' = sm\<lparr>root := n\<rparr>" "map_wf H sm'" "look n = (look (root sm))(ikey it \<mapsto> (it, default_kind sm))"
    using put_Inr[OF assms(1,2,4)] by blast
  show ?thesis unfolding uniform_iff[OF n(2)] using assms(3)[unfolded uniform_iff[OF assms(1)]] n(1,3) by simp
qed

lemma uniform_delete:
  assumes "map_wf H sm" "65 \<le> fuel" "uniform sm" "Delete fuel H sm k = Inr sm'"
  shows "uniform sm'"
proof -
  obtain n where n: "sm' = sm\<lparr>root := n\<rparr>" "map_wf H sm'"
    "\<forall>q. up_to_kind (default_kind sm) (look n q) (if q = k then None else look (root sm) q)"
    using delete_Inr[OF assms(1,2,4)] by blast
  have "snd x = default_kind sm" if "look n q = Some x" for q x
    using n(3)[rule_format, of q] that assms(3)[unfolded uniform_iff[OF assms(1)]]
    unfolding up_to_kind_def by (metis option.distinct(1))
  then show ?thesis unfolding uniform_iff[OF n(2)] using n(1) by simp
qed

lemma uniform_fold:
  "(\<And>k x. m k = Some x \<Longrightarrow> snd x = dk) \<Longrightarrow> fold (put_item dk) items m k = Some x \<Longrightarrow> snd x = dk"
proof (induction items arbitrary: m)
  case (Cons i items)
  have "snd x = dk" if "put_item dk i m k = Some x" for k x
    using that Cons.prems(1) by (cases i) (auto simp: put_item_def split: if_splits)
  then show ?case using Cons.IH[of "put_item dk i m"] Cons.prems(2) by simp
qed simp

lemma uniform_atomic:
  assumes "map_wf H sm" "uniform sm" "PutItemsAtomically H sm items = (e, sm')"
  shows "uniform sm'"
proof (cases "mstate sm = stateModifying \<and> list_all item_ok items")
  case True
  then obtain n where n: "sm' = sm\<lparr>root := n, cachedSize := -1\<rparr>"
    "look n = fold (put_item (default_kind sm)) items (look (root sm))" "map_wf H sm'"
    using atomic_cases[OF assms(1), of items] assms(3) by (auto simp: map_wf_weak)
  have "default_kind sm' = default_kind sm" using n(1) by (simp add: getLeafNodeType_def)
  then show ?thesis unfolding uniform_iff[OF n(3)]
    using uniform_fold[of "look (root sm)" "default_kind sm" items] assms(2)[unfolded uniform_iff[OF assms(1)]] n(1,2)
    by simp
next
  case False
  then have "sm' = sm" using atomic_cases[OF assms(1), of items] assms(3)
    by (cases "mstate sm = stateModifying") (auto simp: PutItemsAtomically_def)
  then show ?thesis using assms(2) by simp
qed

lemma built_inv: "built H mt sm \<Longrightarrow> map_wf H sm \<and> mtype sm = mt \<and> uniform sm"
proof (induction rule: built.induct)
  case built_new
  show ?case using New_wf[of H mt] by (simp add: New_def uniform_def)
next
  case (built_put sm k d sm')
  then show ?case using put_keeps uniform_put by (metis Put_unfold)
next
  case (built_delete sm fuel k sm')
  then obtain n where "sm' = sm\<lparr>root := n\<rparr>" "map_wf H sm'" using delete_Inr[of H sm fuel k sm'] by blast
  moreover have "uniform sm'" using uniform_delete built_delete by blast
  ultimately show ?case using built_delete.IH by simp
next
  case (built_atomic sm items e sm')
  then show ?case using atomic_wf[of H sm items e sm'] uniform_atomic[of H sm items e sm'] by simp
next
  case (built_freeze sm sm')
  then have "root sm' = root sm \<and> mtype sm' = mtype sm" by (auto simp: SetImmutable_def split: if_splits)
  then show ?case using built_freeze.IH uniform_root[of sm' sm] map_wf_root[of sm sm'] by simp
next
  case (built_snapshot sm m sm')
  then show ?case using snapshot_Inr[of sm m sm'] map_wf_root[of sm sm'] uniform_root[of sm' sm] by simp
next
  case (built_stamp sm n)
  then show ?case
    using map_wf_root[of sm "SetLedgerSeq sm n"] uniform_root[of "SetLedgerSeq sm n" sm] by (simp add: SetLedgerSeq_def)
next
  case (built_count sm fuel c sm')
  then have "root sm' = root sm \<and> mtype sm' = mtype sm"
    by (auto simp: Size_def Let_def split: if_splits prod.splits)
  then show ?case using built_count.IH uniform_root[of sm' sm] map_wf_root[of sm sm'] by simp
qed

section \<open>Maps with one leaf\<close>

lemma mstate_New [simp]: "mstate (New mt) = stateModifying" "mtype (New mt) = mt" "root (New mt) = newInnerNode"
  by (simp_all add: New_def)

lemma put_New:
  assumes "12 \<le> length d"
  obtains s where "Put H (New mt) k d = Inr s" "map_wf H s" "mstate s = stateModifying" "mtype s = mt"
    "look (root s) = [k \<mapsto> (\<lparr>ikey = k, idata = d\<rparr>, default_kind s)]"
proof -
  obtain n where "putItemWithNodeTypeUnsafe H (New mt) \<lparr>ikey = k, idata = d\<rparr> (getLeafNodeType (New mt)) =
      Inr (New mt\<lparr>root := n\<rparr>)" "weak_wf H 0 n"
    "look n = [k \<mapsto> (\<lparr>ikey = k, idata = d\<rparr>, default_kind (New mt))]"
    using put_correct[OF New_wf _ getLeafNodeType_leaf, of mt "\<lparr>ikey = k, idata = d\<rparr>" H "New mt"] assms
    by (auto simp: fun_eq_iff)
  then show thesis using that[of "New mt\<lparr>root := n\<rparr>"] by (simp add: Put_unfold map_wf_weak)
qed

lemma leaves_single:
  assumes "map_wf H s" "look (root s) = [k \<mapsto> x]"
  shows "leaves (root s) = [x]"
proof -
  have x: "y \<in> set (leaves (root s)) \<longleftrightarrow> y = x" for y
    using look_in_iff[OF assms(1), of y] look_lkey[of "root s" k x] assms(2) by (auto split: if_splits)
  have "distinct (leaves (root s))"
    using map_leaves_sorted[OF assms(1)] strict_sorted_iff distinct_map by blast
  moreover have "set (leaves (root s)) = {x}" using x by auto
  ultimately have "length (leaves (root s)) = card {x}" by (metis distinct_card)
  then obtain y where "leaves (root s) = [y]" by (auto simp: length_Suc_conv)
  then show ?thesis using x[of y] by simp
qed

lemma preimages_root_single:
  assumes w: "map_wf H s" and l: "leaves (root s) = [(it, kd)]"
  shows "preimages (root s) =
    [inner_preimage (children (root s)) (hashes (root s)) (isBranch (root s)), leaf_preimage it kd]"
proof -
  let ?n = "root s" and ?p = "\<lambda>o'. case map_option preimages o' of None \<Rightarrow> [] | Some xs \<Rightarrow> xs"
  have w': "weak_wf H 0 ?n" using w by (simp add: map_wf_weak)
  have one: "OnesCount16 (isBranch ?n) = 1"
    using BranchCount_le_leaves[OF w'] no_branch[OF w'] l
    by (metis One_nat_def le_SucE le_zero_eq length_Cons list.distinct(1) list.size(3))
  obtain c where c: "children ?n ! TrailingZeros16 (isBranch ?n) = Some c" "TrailingZeros16 (isBranch ?n) < 16"
    "node_wf H (Suc 0) c" "leaves ?n = leaves c" by (rule single_branch[OF w' one])
  have leaf: "\<not> is_inner c" using c(3,4) l node_wf_inner[of c H "Suc 0"] by (metis Suc_1 Suc_n_not_le_n length_Cons list.size(3) nat.distinct(1) One_nat_def)
  have others: "children ?n ! j = None" if "j < 16" "j \<noteq> TrailingZeros16 (isBranch ?n)" for j
  proof (rule ccontr)
    assume "children ?n ! j \<noteq> None"
    then have "bit (isBranch ?n) j" "bit (isBranch ?n) (TrailingZeros16 (isBranch ?n))"
      using bit_iff_child[OF w' that(1)] bit_iff_child[OF w' c(2)] c(1) by simp_all
    then have "{j, TrailingZeros16 (isBranch ?n)} \<subseteq> set (filter (bit (isBranch ?n)) [0..<16])"
      using that c(2) by auto
    then have "card {j, TrailingZeros16 (isBranch ?n)} \<le> OnesCount16 (isBranch ?n)"
      unfolding OnesCount16_def by (meson List.finite_set card_length card_mono le_trans)
    then show False using one that(2) by simp
  qed
  have len: "length (children ?n) = 16" using w' by (simp add: inner_ok_def)
  have "concat (map ?p (children ?n)) = concat (map (\<lambda>i. if i = TrailingZeros16 (isBranch ?n) then preimages c else []) [0..<16])"
    using c(1) others len by (intro arg_cong[of _ _ concat] nth_equalityI) auto
  also have "\<dots> = preimages c"
  proof -
    have "concat (map (\<lambda>i. if i = a then xs else []) [0..<m]) = (if a < m then xs else [])" for a m and xs :: "bytes list"
      by (induction m) auto
    then show ?thesis using c(2) by simp
  qed
  also have "\<dots> = [leaf_preimage it kd]" using leaf c(4) l by (simp add: preimages_leaf leaves_leaf)
  finally have "concat (map ?p (children ?n)) = [leaf_preimage it kd]" .
  moreover have "isBranch ?n \<noteq> 0" using one by auto
  ultimately show ?thesis using w' by (cases ?n) (auto simp: is_inner_def o_def)
qed

lemma preimages_single:
  assumes "map_wf H s" "leaves (root s) = [(it, kd)]"
  obtains cs hs br where "preimages (root s) = [inner_preimage cs hs br, leaf_preimage it kd]"
  using preimages_root_single[OF assms] that by blast

lemma built_reachable: "built H mt sm \<Longrightarrow> reachable H mt sm"
  by (induction rule: built.induct) (auto intro: reachable.intros)

lemma built_canonical:
  assumes "built H mt s" "built H mt t" "\<forall>k. Get H s k = Get H t k"
  shows "Hash (root s) = Hash (root t)"
proof -
  have w: "map_wf H s" "map_wf H t" "uniform s" "uniform t" "mtype s = mtype t"
    using built_inv[OF assms(1)] built_inv[OF assms(2)] by auto
  have "sm_get H s k = sm_get H t k" for k
    using assms(3)[rule_format, of k] by (simp add: sm_get_def)
  then have "look (root s) k = look (root t) k" for k
    using look_uniform[OF w(1,3), of k] look_uniform[OF w(2,4), of k] w(5) by (simp add: getLeafNodeType_def)
  then show ?thesis by (rule root_hash_canonical[OF w(1,2)])
qed

lemma put_again:
  obtains a b c where "Put H (New TypeState) 5 (replicate 12 1) = Inr a" "Delete 65 H a 5 = Inr b"
    "Put H b 5 (replicate 12 1) = Inr c" "look (root a) = look (root c)"
    "look (root a) = [5 \<mapsto> (\<lparr>ikey = 5, idata = replicate 12 1\<rparr>, leafAccountState)]"
proof -
  let ?d = "replicate 12 1 :: bytes" and ?n = "New TypeState"
  have n: "plain_map H TypeState ?n" by (simp add: plain_map_def New_wf uniform_def)
  obtain a where a: "Put H ?n 5 ?d = Inr a" "map_wf H a" "mstate a = stateModifying" "mtype a = TypeState"
    "look (root a) = [5 \<mapsto> (\<lparr>ikey = 5, idata = ?d\<rparr>, default_kind a)]"
    using put_New[of ?d H TypeState 5] by auto
  have pa: "plain_map H TypeState a" "sm_get H a = (sm_get H ?n)(5 \<mapsto> ?d)" using plain_put[OF n, of ?d 5] a(1) by auto
  obtain b where b: "Delete 65 H a 5 = Inr b" "plain_map H TypeState b" "sm_get H b = (sm_get H a)(5 := None)"
    using plain_delete[OF pa(1), of 5 65] pa(2) by auto
  obtain c where c: "Put H b 5 ?d = Inr c" "plain_map H TypeState c" "sm_get H c = (sm_get H b)(5 \<mapsto> ?d)"
    using plain_put[OF b(2), of ?d 5] by auto
  have "look (root a) k = look (root c) k" for k
    using look_uniform[of H a k] look_uniform[of H c k] pa b(3) c(2,3) by (simp add: plain_map_def getLeafNodeType_def)
  then show thesis using that[OF a(1) b(1) c(1)] a(4,5) by (simp add: fun_eq_iff getLeafNodeType_def)
qed

lemma put_look:
  assumes "map_wf H s" "mstate s = stateModifying" "12 \<le> length v"
  obtains t where "Put H s k v = Inr t" "map_wf H t" "mstate t = stateModifying" "default_kind t = default_kind s"
    "look (root t) = (look (root s))(k \<mapsto> (\<lparr>ikey = k, idata = v\<rparr>, default_kind s))"
proof -
  obtain n where n: "putItemWithNodeTypeUnsafe H s \<lparr>ikey = k, idata = v\<rparr> (getLeafNodeType s) = Inr (s\<lparr>root := n\<rparr>)"
    "weak_wf H 0 n" "look n = (look (root s))(k \<mapsto> (\<lparr>ikey = k, idata = v\<rparr>, default_kind s))"
    using put_correct[OF assms(1,2) getLeafNodeType_leaf, of "\<lparr>ikey = k, idata = v\<rparr>"] assms(3) by auto
  then show thesis using that[of "s\<lparr>root := n\<rparr>"] assms(2) by (simp add: Put_unfold map_wf_weak)
qed

lemma put_put_commute:
  assumes "map_wf H s" "mstate s = stateModifying" "12 \<le> length v" "12 \<le> length w" "k \<noteq> l"
  shows "\<exists>a b. bindE (Put H s k v) (\<lambda>t. Put H t l w) = Inr a \<and> bindE (Put H s l w) (\<lambda>t. Put H t k v) = Inr b \<and>
      Hash (root a) = Hash (root b) \<and> (\<forall>q. Get H a q = Get H b q)"
proof -
  note p = put_look
  obtain s1 where s1: "Put H s k v = Inr s1" "map_wf H s1" "mstate s1 = stateModifying" "default_kind s1 = default_kind s"
    "look (root s1) = (look (root s))(k \<mapsto> (\<lparr>ikey = k, idata = v\<rparr>, default_kind s))" by (rule p[OF assms(1-3)])
  obtain s2 where s2: "Put H s l w = Inr s2" "map_wf H s2" "mstate s2 = stateModifying" "default_kind s2 = default_kind s"
    "look (root s2) = (look (root s))(l \<mapsto> (\<lparr>ikey = l, idata = w\<rparr>, default_kind s))" by (rule p[OF assms(1,2,4)])
  obtain a where a: "Put H s1 l w = Inr a" "map_wf H a"
    "look (root a) = (look (root s1))(l \<mapsto> (\<lparr>ikey = l, idata = w\<rparr>, default_kind s1))" by (rule p[OF s1(2,3) assms(4)])
  obtain b where b: "Put H s2 k v = Inr b" "map_wf H b"
    "look (root b) = (look (root s2))(k \<mapsto> (\<lparr>ikey = k, idata = v\<rparr>, default_kind s2))" by (rule p[OF s2(2,3) assms(3)])
  have look: "look (root a) = look (root b)"
    unfolding a(3) b(3) s1(4,5) s2(4,5) by (rule fun_upd_twist[OF assms(5)])
  have "Hash (root a) = Hash (root b)" using root_hash_canonical[OF a(2) b(2)] look by simp
  then show ?thesis using s1(1) s2(1) a b look by (intro exI[of _ a] exI[of _ b]) (simp add: Get_look)
qed

section \<open>Properties\<close>

text \<open>
  C1.  \<open>Put\<close> refines the update of a finite map.  On every well-formed modifiable map, for every key:
  data below 12 bytes is refused with \<open>errItemTooSmall\<close>; otherwise \<open>Put\<close> succeeds, the new map is
  well-formed, \<open>Get\<close> returns the new item for the key and what it returned before for every other key,
  and nothing but the root changes.
\<close>

theorem Put_refines_update:
  assumes wf: "map_wf H sm" and st: "mstate sm = stateModifying"
  shows "if length d < 12 then Put H sm k d = Inl errItemTooSmall
    else \<exists>n. Put H sm k d = Inr (sm\<lparr>root := n\<rparr>) \<and> map_wf H (sm\<lparr>root := n\<rparr>) \<and>
      (\<forall>q. Get H (sm\<lparr>root := n\<rparr>) q = (if q = k then Inr (Some \<lparr>ikey = k, idata = d\<rparr>, True) else Get H sm q))"
proof (cases "length d < 12")
  case True
  then show ?thesis using put_too_small[OF wf _ getLeafNodeType_leaf, of "NewItem k d" sm] st
    by (simp add: Put_def putItem_def putItemUnsafe_def NewItem_def)
next
  case False
  then obtain n where n: "putItemWithNodeTypeUnsafe H sm \<lparr>ikey = k, idata = d\<rparr> (getLeafNodeType sm) = Inr (sm\<lparr>root := n\<rparr>)"
    "weak_wf H 0 n" "look n = (look (root sm))(k \<mapsto> (\<lparr>ikey = k, idata = d\<rparr>, default_kind sm))"
    using put_correct[OF wf st getLeafNodeType_leaf, of "\<lparr>ikey = k, idata = d\<rparr>"] by auto
  have w: "map_wf H (sm\<lparr>root := n\<rparr>)" using n(2) by (simp add: map_wf_weak)
  have "Get H (sm\<lparr>root := n\<rparr>) q = (if q = k then Inr (Some \<lparr>ikey = k, idata = d\<rparr>, True) else Get H sm q)" for q
    using Get_look[OF w, of q] Get_look[OF wf, of q] n(3) by simp
  then show ?thesis using False w n(1) st by (auto simp: Put_unfold)
qed

theorem Put_refines_update_witness:
  "\<exists>n. Put (\<lambda>_. 7) (New TypeState) 5 (replicate 12 1) = Inr (New TypeState\<lparr>root := n\<rparr>) \<and>
     map_wf (\<lambda>_. 7) (New TypeState\<lparr>root := n\<rparr>) \<and>
     (\<forall>q. Get (\<lambda>_. 7) (New TypeState\<lparr>root := n\<rparr>) q =
        (if q = 5 then Inr (Some \<lparr>ikey = 5, idata = replicate 12 1\<rparr>, True) else Get (\<lambda>_. 7) (New TypeState) q))"
  using Put_refines_update[OF New_wf, of TypeState "replicate 12 1" "\<lambda>_. 7" 5] by (simp add: New_def)

text \<open>
  C2.  \<open>Delete\<close> refines the removal from a finite map.  With fuel for the 64 levels of the tree, on
  every well-formed modifiable map: an absent key is refused with \<open>ErrItemNotFound\<close>; otherwise
  \<open>Delete\<close> succeeds, the new map is well-formed again (chains of single-child nodes are collapsed),
  \<open>Get\<close> no longer finds the key and returns what it returned before for every other key.
\<close>

theorem Delete_refines_removal:
  assumes wf: "map_wf H sm" and st: "mstate sm = stateModifying" and fuel: "65 \<le> fuel"
  shows "if Get H sm k = Inr (None, False) then Delete fuel H sm k = Inl ErrItemNotFound
    else \<exists>n. Delete fuel H sm k = Inr (sm\<lparr>root := n\<rparr>) \<and> map_wf H (sm\<lparr>root := n\<rparr>) \<and>
      (\<forall>q. Get H (sm\<lparr>root := n\<rparr>) q = (if q = k then Inr (None, False) else Get H sm q))"
proof (cases "look (root sm) k")
  case None
  then show ?thesis using delete_absent[OF wf st] by (simp add: Get_look[OF wf])
next
  case (Some x)
  then obtain n where n: "Delete fuel H sm k = Inr (sm\<lparr>root := n\<rparr>)" "weak_wf H 0 n"
    "\<forall>q. up_to_kind (default_kind sm) (look n q) (if q = k then None else look (root sm) q)"
    using delete_correct[OF wf st fuel, of k] by auto
  have w: "map_wf H (sm\<lparr>root := n\<rparr>)" using n(2) by (simp add: map_wf_weak)
  have "Get H (sm\<lparr>root := n\<rparr>) q = (if q = k then Inr (None, False) else Get H sm q)" for q
  proof -
    have "map_option fst (look n q) = map_option fst (if q = k then None else look (root sm) q)"
      "look n q = None \<longleftrightarrow> (if q = k then None else look (root sm) q) = None"
      using n(3)[rule_format, of q] up_to_kind_None by (auto simp: up_to_kind_def simp del: not_None_eq)
    then show ?thesis using Get_look[OF w, of q] Get_look[OF wf, of q] by simp
  qed
  then show ?thesis using Some n(1) w by (simp add: Get_look[OF wf] exI[of _ n])
qed

theorem Delete_refines_removal_witness:
  "\<exists>s n. Put (\<lambda>_. 7) (New TypeState) 5 (replicate 12 1) = Inr s \<and>
     Delete 65 (\<lambda>_. 7) s 5 = Inr (s\<lparr>root := n\<rparr>) \<and> Get (\<lambda>_. 7) (s\<lparr>root := n\<rparr>) 5 = Inr (None, False)"
proof -
  obtain s where s: "Put (\<lambda>_. 7) (New TypeState) 5 (replicate 12 1) = Inr s" "map_wf (\<lambda>_. 7) s" "mstate s = stateModifying"
    "look (root s) = [5 \<mapsto> (\<lparr>ikey = 5, idata = replicate 12 1\<rparr>, default_kind s)]"
    using put_New[of "replicate 12 1" "\<lambda>_. 7" TypeState 5] by auto
  then show ?thesis using Delete_refines_removal[OF s(2,3), of 65 5] by (auto simp: Get_look)
qed

text \<open>
  C17.  Every map the package's operations produce from a new one (any sequence of \<open>Put\<close>,
  \<open>PutWithNodeType\<close>, \<open>Delete\<close>, \<open>PutItemsAtomically\<close>, \<open>SetImmutable\<close>, snapshots, \<open>SetLedgerSeq\<close> and \<open>Size\<close>) is
  well-formed: 16 slots whose bitmap, cached child hashes and children agree, every node's hash the
  hash of its contents, every leaf on its key's path, at least two leaves below every inner node but
  the root.  Its leaves are in strictly increasing key order and each is what a lookup of its key finds.
\<close>

theorem reachable_well_formed:
  assumes "reachable H mt sm"
  shows "map_wf H sm \<and> sorted_wrt (<) (map lkey (leaves (root sm))) \<and>
    (\<forall>x. x \<in> set (leaves (root sm)) \<longleftrightarrow> look (root sm) (lkey x) = Some x)"
  using reachable_inv[OF assms] map_leaves_sorted[of H sm] look_in_iff[of H sm] by blast

theorem reachable_well_formed_witness:
  "\<exists>s. Put (\<lambda>_. 7) (New TypeState) 5 (replicate 12 1) = Inr s \<and> map_wf (\<lambda>_. 7) s"
proof -
  obtain s where "Put (\<lambda>_. 7) (New TypeState) 5 (replicate 12 1) = Inr s"
    using put_New[of "replicate 12 1" "\<lambda>_. 7" TypeState 5] by auto
  then show ?thesis using reachable_well_formed[OF reachable.put[OF reachable.new]] by blast
qed

text \<open>
  C15.  The root hash is canonical (for every hash function): two maps produced by any two sequences of the
  package's operations, \<open>PutWithNodeType\<close> included, that hold the same leaves (key, data and leaf kind) have the
  same root hash.  Two maps of one type produced without \<open>PutWithNodeType\<close> have the same root hash already when
  they agree on every \<open>Get\<close>, which does not show the kind.
\<close>

theorem root_hash_depends_on_contents_only:
  assumes "reachable H mt s" "reachable H mt' t"
  shows "(set (leaves (root s)) = set (leaves (root t)) \<longrightarrow> Hash (root s) = Hash (root t)) \<and>
    (built H mt s \<and> built H mt t \<and> (\<forall>k. Get H s k = Get H t k) \<longrightarrow> Hash (root s) = Hash (root t))"
proof (intro conjI impI)
  have w: "map_wf H s" "map_wf H t" using assms reachable_inv by blast+
  assume eq: "set (leaves (root s)) = set (leaves (root t))"
  have "look (root s) k = Some x \<longleftrightarrow> look (root t) k = Some x" for k x
    using look_in_iff[OF w(1), of x] look_in_iff[OF w(2), of x] look_lkey[of _ k x] eq by blast
  then have "look (root s) k = look (root t) k" for k by (metis not_None_eq)
  then show "Hash (root s) = Hash (root t)" by (rule root_hash_canonical[OF w])
next
  assume b: "built H mt s \<and> built H mt t \<and> (\<forall>k. Get H s k = Get H t k)"
  then show "Hash (root s) = Hash (root t)" using built_canonical by blast
qed

theorem root_hash_depends_on_contents_only_witness:
  "\<exists>a b c. Put (\<lambda>_. 7) (New TypeState) 5 (replicate 12 1) = Inr a \<and> Delete 65 (\<lambda>_. 7) a 5 = Inr b \<and>
     Put (\<lambda>_. 7) b 5 (replicate 12 1) = Inr c \<and> set (leaves (root a)) = set (leaves (root c)) \<and>
     (\<forall>k. Get (\<lambda>_. 7) a k = Get (\<lambda>_. 7) c k) \<and> Hash (root a) = Hash (root c)"
proof -
  obtain a b c where abc: "Put (\<lambda>_. 7) (New TypeState) 5 (replicate 12 1) = Inr a" "Delete 65 (\<lambda>_. 7) a 5 = Inr b"
    "Put (\<lambda>_. 7) b 5 (replicate 12 1) = Inr c" "look (root a) = look (root c)" by (rule put_again)
  then have b: "built (\<lambda>_. 7) TypeState a" "built (\<lambda>_. 7) TypeState c"
    using built_put[OF built_new] built_put built_delete[of "\<lambda>_. 7" TypeState a 65] by blast+
  then have w: "map_wf (\<lambda>_. 7) a" "map_wf (\<lambda>_. 7) c" using built_inv by blast+
  have "set (leaves (root a)) = set (leaves (root c))" using look_in_iff[OF w(1)] look_in_iff[OF w(2)] abc(4) by auto
  moreover have "\<forall>k. Get (\<lambda>_. 7) a k = Get (\<lambda>_. 7) c k" using abc(4) by (simp add: Get_look[OF w(1)] Get_look[OF w(2)])
  moreover have "Hash (root a) = Hash (root c)"
    using root_hash_depends_on_contents_only[OF built_reachable[OF b(1)] built_reachable[OF b(2)]] calculation b by blast
  ultimately show ?thesis using abc by blast
qed

text \<open>
  C16.  The root hash is binding: two reachable maps with the same root hash give the same answer to
  every lookup and hold the same leaves, provided that among the finitely many preimages hashed in the
  two trees no two collide and none hashes to zero, and that every transaction leaf without metadata is
  keyed by its transaction hash (its preimage does not contain its key).
\<close>

theorem root_hash_binds_contents:
  assumes "reachable H mt s" "reachable H mt' t" "Hash (root s) = Hash (root t)"
    "no_collision H (root s) (root t)" "nonzero_hashes H (root s)" "nonzero_hashes H (root t)"
    "tx_keys_ok H (root s)" "tx_keys_ok H (root t)"
  shows "leaves (root s) = leaves (root t) \<and> (\<forall>k. Get H s k = Get H t k)"
proof -
  have w: "map_wf H s" "map_wf H t" using assms(1,2) reachable_inv by blast+
  then have l: "leaves (root s) = leaves (root t)"
    using same_hash_same_leaves[of H 0 "root s" "root t"] assms(3-) by (simp add: map_wf_def)
  then have "look (root s) = look (root t)" by (simp add: look_def fun_eq_iff)
  then show ?thesis using l by (simp add: Get_look[OF w(1)] Get_look[OF w(2)])
qed

theorem root_hash_binds_contents_witness:
  "\<exists>a b c. Put (\<lambda>b. of_nat (length b + 1)) (New TypeState) 5 (replicate 12 1) = Inr a \<and>
     Delete 65 (\<lambda>b. of_nat (length b + 1)) a 5 = Inr b \<and>
     Put (\<lambda>b. of_nat (length b + 1)) b 5 (replicate 12 1) = Inr c \<and>
     leaves (root a) = leaves (root c) \<and>
     (\<forall>k. Get (\<lambda>b. of_nat (length b + 1)) a k = Get (\<lambda>b. of_nat (length b + 1)) c k)"
proof -
  let ?H = "\<lambda>b :: bytes. of_nat (length b + 1) :: hash256" and ?d = "replicate 12 1 :: bytes"
  obtain a b c where abc: "Put ?H (New TypeState) 5 ?d = Inr a" "Delete 65 ?H a 5 = Inr b" "Put ?H b 5 ?d = Inr c"
    "look (root a) = look (root c)" "look (root a) = [5 \<mapsto> (\<lparr>ikey = 5, idata = ?d\<rparr>, leafAccountState)]" by (rule put_again)
  have r: "reachable ?H TypeState a" "reachable ?H TypeState c"
    using reachable.put[OF reachable.new abc(1)] reachable.put[OF _ abc(3)] reachable.delete[of ?H TypeState a 65] abc(2)
    by blast+
  then have w: "map_wf ?H a" "map_wf ?H c" using reachable_inv by blast+
  have l: "leaves (root a) = [(\<lparr>ikey = 5, idata = ?d\<rparr>, leafAccountState)]" "leaves (root c) = [(\<lparr>ikey = 5, idata = ?d\<rparr>, leafAccountState)]"
    using leaves_single[OF w(1) abc(5)] leaves_single[OF w(2) abc(5)[unfolded abc(4)]] .
  have pre: "preimages (root c) = preimages (root a)"
    using preimages_root_single[OF w(1) l(1)] preimages_root_single[OF w(2) l(2)]
      same_contents_same_preimage[of "root a" ?H 0 "root c"] w abc(4) by (simp add: map_wf_weak)
  have len: "length (inner_preimage (children (root a)) (hashes (root a)) (isBranch (root a))) = 516"
    "length (leaf_preimage \<lparr>ikey = 5, idata = ?d\<rparr> leafAccountState) = 48"
    by (simp_all add: leaf_preimage_def HashPrefixLeafNode_def)
  have "no_collision ?H (root a) (root c)" "nonzero_hashes ?H (root a)" "nonzero_hashes ?H (root c)"
    "tx_keys_ok ?H (root a)" "tx_keys_ok ?H (root c)"
    by (simp_all add: no_collision_def nonzero_hashes_def tx_keys_ok_def pre preimages_root_single[OF w(1) l(1)] l len)
  moreover have "Hash (root a) = Hash (root c)" using root_hash_canonical[OF w] abc(4) by simp
  ultimately show ?thesis using root_hash_binds_contents[OF r] abc(1-3) by blast
qed

text \<open>
  C18.  Order independence and undo.  In every well-formed modifiable map, whatever the kinds of its leaves,
  putting two different keys in either order succeeds with the same root hash and the same contents.  In a map
  whose leaves all have the default kind of its type (the authenticated-map contract), putting a key and
  deleting it again succeeds and leaves the contents without the key: the root hash is that of the map before if
  the key was absent, and that of deleting the key at once if it was present.
\<close>

theorem Put_commutes_and_Delete_undoes:
  assumes "map_wf H s" "mstate s = stateModifying" "12 \<le> length v" "12 \<le> length w" "k \<noteq> l"
  shows "(\<exists>a b. bindE (Put H s k v) (\<lambda>t. Put H t l w) = Inr a \<and> bindE (Put H s l w) (\<lambda>t. Put H t k v) = Inr b \<and>
      Hash (root a) = Hash (root b) \<and> (\<forall>q. Get H a q = Get H b q)) \<and>
    (uniform s \<longrightarrow> (\<exists>t. bindE (Put H s k v) (\<lambda>t. Delete 65 H t k) = Inr t \<and> sm_get H t = (sm_get H s)(k := None) \<and>
      (sm_get H s k = None \<longrightarrow> Hash (root t) = Hash (root s)) \<and>
      (\<forall>u. Delete 65 H s k = Inr u \<longrightarrow> Hash (root t) = Hash (root u))))"
  using put_put_commute[OF assms] sm.put_del[of H "mtype s" s v k] assms by (simp add: plain_map_def)

theorem Put_commutes_and_Delete_undoes_witness:
  "(\<exists>a b. bindE (Put (\<lambda>_. 7) (New TypeState) 5 (replicate 12 1)) (\<lambda>t. Put (\<lambda>_. 7) t 6 (replicate 12 2)) = Inr a \<and>
     bindE (Put (\<lambda>_. 7) (New TypeState) 6 (replicate 12 2)) (\<lambda>t. Put (\<lambda>_. 7) t 5 (replicate 12 1)) = Inr b \<and>
     Hash (root a) = Hash (root b)) \<and>
   (\<exists>t. bindE (Put (\<lambda>_. 7) (New TypeState) 5 (replicate 12 1)) (\<lambda>t. Delete 65 (\<lambda>_. 7) t 5) = Inr t \<and>
     Hash (root t) = Hash (root (New TypeState)))"
proof -
  have "uniform (New TypeState)" by (simp add: uniform_def)
  moreover have "sm_get (\<lambda>_. 7) (New TypeState) 5 = None" by (simp add: sm_get_look[OF New_wf])
  ultimately show ?thesis
    using Put_commutes_and_Delete_undoes[OF New_wf mstate_New(1), of "replicate 12 1" "replicate 12 2" 5 6 "\<lambda>_. 7" TypeState] by auto
qed

text \<open>
  C3.  \<open>PutItemsAtomically\<close> is all or nothing.  On a well-formed modifiable map it reports no error
  exactly if every item of the batch is present (not nil) and has at least 12 bytes of data; then the
  map is well-formed and \<open>Get\<close> answers from the batch's last item for a key and as before for every
  other key; otherwise the map is returned unchanged with the error.
\<close>

theorem PutItemsAtomically_all_or_nothing:
  assumes wf: "map_wf H sm" and st: "mstate sm = stateModifying"
  shows "if list_all (\<lambda>i. \<exists>it. i = Some it \<and> 12 \<le> length (idata it)) items
    then \<exists>sm'. PutItemsAtomically H sm items = (None, sm') \<and> map_wf H sm' \<and>
      (\<forall>k. Get H sm' k = (case find (\<lambda>it. ikey it = k) (rev (map the items)) of
         Some it \<Rightarrow> Inr (Some it, True) | None \<Rightarrow> Get H sm k))
    else \<exists>e. PutItemsAtomically H sm items = (Some e, sm)"
proof (cases "list_all item_ok items")
  case True
  obtain n where n: "PutItemsAtomically H sm items = (None, sm\<lparr>root := n, cachedSize := -1\<rparr>)" "weak_wf H 0 n"
    "look n = fold (put_item (default_kind sm)) items (look (root sm))" using atomic_cases[OF wf st, of items] True by auto
  have w: "map_wf H (sm\<lparr>root := n, cachedSize := -1\<rparr>)" using n(2) by (simp add: map_wf_weak)
  have "fold (put_item dk) items m k = (case find (\<lambda>it. ikey it = k) (rev (map the items)) of
      Some it \<Rightarrow> Some (it, dk) | None \<Rightarrow> m k)" for m dk k using True
    by (induction items arbitrary: m rule: rev_induct) (auto simp: item_ok_def split: option.splits)
  then have "Get H (sm\<lparr>root := n, cachedSize := -1\<rparr>) k = (case find (\<lambda>it. ikey it = k) (rev (map the items)) of
      Some it \<Rightarrow> Inr (Some it, True) | None \<Rightarrow> Get H sm k)" for k
    using n(3) by (simp add: Get_look[OF w] Get_look[OF wf] split: option.splits)
  then show ?thesis using True n(1) w by (auto simp: item_ok_def list_all_iff split: option.splits)
next
  case False
  then show ?thesis using atomic_cases[OF wf st, of items] by (auto simp: item_ok_def list_all_iff split: option.splits)
qed

theorem PutItemsAtomically_all_or_nothing_witness:
  "(\<exists>s. PutItemsAtomically (\<lambda>_. 7) (New TypeState) [Some \<lparr>ikey = 5, idata = replicate 12 1\<rparr>] = (None, s) \<and>
      Get (\<lambda>_. 7) s 5 = Inr (Some \<lparr>ikey = 5, idata = replicate 12 1\<rparr>, True)) \<and>
   (\<exists>e. PutItemsAtomically (\<lambda>_. 7) (New TypeState) [Some \<lparr>ikey = 5, idata = replicate 12 1\<rparr>, None] = (Some e, New TypeState))"
  using PutItemsAtomically_all_or_nothing[OF New_wf mstate_New(1), of "[Some \<lparr>ikey = 5, idata = replicate 12 1\<rparr>]" "\<lambda>_. 7" TypeState]
    PutItemsAtomically_all_or_nothing[OF New_wf mstate_New(1), of "[Some \<lparr>ikey = 5, idata = replicate 12 1\<rparr>, None]" "\<lambda>_. 7" TypeState]
  by auto

section \<open>The kind of the surviving sibling\<close>

lemma two_leaves:
  assumes w: "map_wf H sm" and b: "children (root sm) ! nib k 0 = Some b" "is_inner b"
    and two: "\<forall>q. nib q 0 = nib k 0 \<and> look (root sm) q \<noteq> None \<longrightarrow> q = k \<or> q = k'"
  shows "length (leaves b) = 2"
proof -
  have w': "weak_wf H 0 (root sm)" using w by (simp add: map_wf_weak)
  then have wb: "node_wf H 1 b" using weak_wf_child[OF w' b(1)] by simp
  have "common_prefix 1 b" using common_prefix_child[OF w' nib_less b(1)] by simp
  then have "distinct (map lkey (leaves b))" using leaves_sorted[OF wb] strict_sorted_iff by blast
  moreover have "lkey ` set (leaves b) \<subseteq> {k, k'}"
  proof
    fix q assume q: "q \<in> lkey ` set (leaves b)"
    then have "nib q 0 = nib k 0" using inner_ok_child(3)[OF _ nib_less b(1)] w' by blast
    moreover have "look (root sm) q \<noteq> None"
      using look_inner[OF w', of q] calculation b(1) q by (simp add: look_None_iff)
    ultimately show "q \<in> {k, k'}" using two by blast
  qed
  ultimately have "card (lkey ` set (leaves b)) = length (leaves b)" "card (lkey ` set (leaves b)) \<le> card {k, k'}"
    using distinct_card[of "map lkey (leaves b)"] card_mono[of "{k, k'}" "lkey ` set (leaves b)"] by simp_all
  moreover have "card {k, k'} \<le> 2" by (simp add: card_insert_if)
  ultimately show ?thesis using wb b(2) node_wf_inner[of b H 1] by simp
qed

lemma delete_retypes:
  assumes wf: "map_wf H sm" and st: "mstate sm = stateModifying" and fuel: "65 \<le> fuel" and ne: "k \<noteq> k'"
    and k: "look (root sm) k \<noteq> None" "look (root sm) k' = Some x" "nib k' 0 = nib k 0"
    and two: "\<forall>q. nib q 0 = nib k 0 \<and> look (root sm) q \<noteq> None \<longrightarrow> q = k \<or> q = k'"
  shows "\<exists>n. Delete fuel H sm k = Inr (sm\<lparr>root := n\<rparr>) \<and> look n k' = Some (fst x, default_kind sm)"
proof -
  have w: "weak_wf H 0 (root sm)" using wf by (simp add: map_wf_weak)
  obtain r nid ps where walk: "walkToKey H sm k True = Inr (r, case r of None \<Rightarrow> ps | Some c \<Rightarrow> (c, nid) # ps)"
    and path: "path k 0 (root sm) r ps" using walkToKey_path[OF wf, of k] by blast
  have "slot_look r k \<noteq> None" using path_look[OF path w, of k] k(1) by simp
  then obtain c where c: "r = Some c" "ikey (Item c) = k" "\<not> is_inner c"
    using path_result path by (cases r) (auto split: if_splits)
  have "\<exists>b ps0 rid. children (root sm) ! nib k 0 = Some b \<and> path k 1 b r ps0 \<and> ps = ps0 @ [(root sm, rid)] \<and> depth rid = 0"
    using path
  proof (cases rule: path.cases)
    case (path_end nid')
    then have "look (root sm) k' = None" using look_inner[OF w, of k'] k(3) c ne by simp
    then show ?thesis using k(2) by simp
  qed auto
  then obtain b ps0 rid where b: "children (root sm) ! nib k 0 = Some b" "path k 1 b r ps0"
    "ps = ps0 @ [(root sm, rid)]" "depth rid = 0" by blast
  have wb: "weak_wf H 1 b" using weak_wf_child[OF w b(1)] path_inner[OF b(2)] by (simp add: node_wf_inner)
  note len = two_leaves[OF wf b(1) path_inner[OF b(2)] two]
  from consolidateLoop_path[OF b(2) c(1,2) wb fuel, of sm] len obtain it where
    it: "consolidateLoop fuel H sm ps0 k None = Inr (Some (fresh_leaf H it (default_kind sm)))"
    "node_wf H 1 (fresh_leaf H it (default_kind sm))"
    "\<forall>q. up_to_kind (default_kind sm) (look (fresh_leaf H it (default_kind sm)) q) (if q = k then None else look b q)"
    by auto
  have "look b k' = Some x" using look_inner[OF w, of k'] k(2,3) b(1) by simp
  then have x: "ikey it = k'" "it = fst x"
    using it(3)[rule_format, of k'] ne by (auto simp: up_to_kind_def split: if_splits)
  have "slot_wf H 0 (nib k 0) (Some (fresh_leaf H it (default_kind sm)))"
    using it(2) x(1) k(3) by (simp add: slot_wf_def leaves_leaf)
  from SetChild_weak_wf[OF w nib_less this] obtain n where
    n: "SetChild H (shallowClone (root sm)) (nib k 0) (Some (fresh_leaf H it (default_kind sm))) = Inr n" "weak_wf H 0 n"
    "children n = (children (root sm))[nib k 0 := Some (fresh_leaf H it (default_kind sm))]" by blast
  have "look n k' = Some (fst x, default_kind sm)" using SetChild_look[OF w n(2,3) nib_less, of k'] k(3) x by simp
  moreover have "consolidateLoop fuel H sm ps k None = Inr (Some n)"
    unfolding b(3) consolidateLoop_snoc using it(1) n(1,2) w b(4) by (simp add: collapse_def IsRoot_def)
  ultimately show ?thesis using walk c st n(2)
    by (intro exI[of _ n]) (simp add: Delete_def findAndRemoveLeaf_def consolidateAfterDelete_def)
qed

text \<open>
  C35.  A deletion may change the kind, and so the hash, of a leaf it does not delete.  In a transaction
  tree, put two transactions with metadata whose keys share the first digit, and delete one: the other
  is rebuilt by the consolidation as a transaction leaf without metadata.
\<close>

theorem Delete_changes_sibling_kind:
  assumes "12 \<le> length d" "12 \<le> length d'" "k \<noteq> k'" "nib k' 0 = nib k 0"
  shows "\<exists>s1 s2 s3. PutWithNodeType H (New TypeTransaction) k d NodeTypeTransactionWithMeta = Inr s1 \<and>
    PutWithNodeType H s1 k' d' NodeTypeTransactionWithMeta = Inr s2 \<and>
    look (root s2) k' = Some (\<lparr>ikey = k', idata = d'\<rparr>, leafTransactionWithMeta) \<and>
    Delete 65 H s2 k = Inr s3 \<and> look (root s3) k' = Some (\<lparr>ikey = k', idata = d'\<rparr>, leafTransaction)"
proof -
  let ?nt = NodeTypeTransactionWithMeta and ?i = "\<lparr>ikey = k, idata = d\<rparr>" and ?i' = "\<lparr>ikey = k', idata = d'\<rparr>"
  obtain n1 where n1: "putItemWithNodeTypeUnsafe H (New TypeTransaction) ?i ?nt = Inr (New TypeTransaction\<lparr>root := n1\<rparr>)"
    "weak_wf H 0 n1" "look n1 = [k \<mapsto> (?i, leafTransactionWithMeta)]"
    using put_correct[OF New_wf, of TypeTransaction ?nt ?i H] assms(1) by (auto simp: fun_eq_iff)
  let ?s1 = "New TypeTransaction\<lparr>root := n1\<rparr>"
  have w1: "map_wf H ?s1" using n1(2) by (simp add: map_wf_weak)
  obtain n2 where n2: "putItemWithNodeTypeUnsafe H ?s1 ?i' ?nt = Inr (?s1\<lparr>root := n2\<rparr>)"
    "weak_wf H 0 n2" "look n2 = [k \<mapsto> (?i, leafTransactionWithMeta), k' \<mapsto> (?i', leafTransactionWithMeta)]"
    using put_correct[OF w1, of ?nt ?i'] assms(2) n1(3) by auto
  let ?s2 = "?s1\<lparr>root := n2\<rparr>"
  have "map_wf H ?s2" using n2(2) by (simp add: map_wf_weak)
  moreover have "\<forall>q. nib q 0 = nib k 0 \<and> look (root ?s2) q \<noteq> None \<longrightarrow> q = k \<or> q = k'"
    using n2(3) by auto
  ultimately obtain n3 where
    "Delete 65 H ?s2 k = Inr (?s2\<lparr>root := n3\<rparr>)" "look n3 k' = Some (?i', default_kind ?s2)"
    using delete_retypes[of H ?s2 65 k k' "(?i', leafTransactionWithMeta)"] n2(3) assms(3,4) by auto
  then show ?thesis using n1(1) n2 assms(3)
    by (intro exI[of _ ?s1] exI[of _ ?s2] exI[of _ "?s2\<lparr>root := n3\<rparr>"])
      (simp add: PutWithNodeType_unfold getLeafNodeType_def)
qed

theorem Delete_changes_sibling_kind_witness:
  "\<exists>s1 s2 s3. PutWithNodeType (\<lambda>_. 7) (New TypeTransaction) 5 (replicate 12 1) NodeTypeTransactionWithMeta = Inr s1 \<and>
    PutWithNodeType (\<lambda>_. 7) s1 6 (replicate 13 2) NodeTypeTransactionWithMeta = Inr s2 \<and>
    look (root s2) 6 = Some (\<lparr>ikey = 6, idata = replicate 13 2\<rparr>, leafTransactionWithMeta) \<and>
    Delete 65 (\<lambda>_. 7) s2 5 = Inr s3 \<and> look (root s3) 6 = Some (\<lparr>ikey = 6, idata = replicate 13 2\<rparr>, leafTransaction)"
proof (rule Delete_changes_sibling_kind)
  show "nib 6 0 = nib 5 0" by (simp add: nib_def)
qed simp_all

end
