(* ===== verification/Shamap_Iter.thy ===== *)
theory Shamap_Iter
  imports Shamap_Contract
begin

text \<open>
  Visiting the items of a SHAMap, \<^verbatim>\<open>src/shamap/{iterator,iteration,traverse}.go\<close>, whose operations are
  in \<open>Shamap_Ops\<close>: \<open>ForEach\<close> and \<open>Size\<close> against the leaves in key order, and the bounds and \<open>Next\<close>
  against the least item above and the greatest item below a key.
\<close>

section \<open>Comparing keys\<close>

lemma digit_less:
  assumes "r < (p :: nat)" "u < v"
  shows "p * u + r < p * v + s"
proof -
  have "p * u + p \<le> p * v" using assms(2) by (metis Suc_leI mult_Suc_right add.commute mult_le_mono2)
  then show ?thesis using assms(1) by linarith
qed

lemma byte_rest: "x mod 256 ^ Suc n = 256 ^ n * (x div 256 ^ n mod 256) + x mod (256 ^ n :: nat)"
  by (metis mod_mult2_eq power_Suc2)

lemma compareBytes_suffix:
  "n \<le> 32 \<Longrightarrow> compareBytes (map (byte_at a) [32 - n..<32]) (map (byte_at b) [32 - n..<32]) =
     (if unat a mod 256 ^ n < unat b mod 256 ^ n then -1
      else if unat b mod 256 ^ n < unat a mod 256 ^ n then 1 else 0)"
proof (induction n)
  case (Suc n)
  let ?u = "\<lambda>x. unat (x :: hash256) div 256 ^ n mod 256" and ?r = "\<lambda>x. unat (x :: hash256) mod 256 ^ n"
  have e: "[32 - Suc n..<32] = (31 - n) # [32 - n..<32]"
    using Suc.prems by (simp add: upt_conv_Cons Suc_diff_le[symmetric])
  have b: "unat (byte_at x (31 - n)) = ?u x" for x using Suc.prems by (simp add: unat_byte_at)
  have r: "?r a < 256 ^ n" "?r b < 256 ^ n" by simp_all
  note eq = e list.map compareBytes.simps byte_rest word_less_nat_alt b
  consider "?u a < ?u b" | "?u b < ?u a" | "?u a = ?u b" by linarith
  then show ?case
  proof cases
    case 1
    then show ?thesis using digit_less[OF r(1) 1, of "?r b"] unfolding eq by simp
  next
    case 2
    then show ?thesis using digit_less[OF r(2) 2, of "?r a"] unfolding eq by simp
  next
    case 3
    then show ?thesis using Suc unfolding eq by simp
  qed
qed simp

lemma compareKeys_eq: "compareKeys a b = (if a < b then -1 else if b < a then 1 else 0)"
proof -
  have "unat x mod 256 ^ 32 = unat x" for x :: hash256
    using unsigned_less[of x, where 'a = nat] by (simp add: power_mult[of 2 8 32, simplified])
  then show ?thesis using compareBytes_suffix[of 32 a b] by (simp add: compareKeys_def hash_bytes_def word_less_nat_alt)
qed

lemma compareKeys_sign [simp]: "0 < compareKeys a b \<longleftrightarrow> b < a" "compareKeys a b < 0 \<longleftrightarrow> a < b"
  by (auto simp: compareKeys_eq)

section \<open>Visiting every leaf\<close>

text \<open>\<open>feed\<close>: a callback is given the elements of a list until it asks to stop.\<close>

fun feed :: "('a \<Rightarrow> 's \<Rightarrow> bool \<times> 's) \<Rightarrow> 'a list \<Rightarrow> 's \<Rightarrow> bool \<times> 's" where
  "feed fn [] s = (True, s)"
| "feed fn (x # xs) s = (case fn x s of (cont, s) \<Rightarrow> if cont then feed fn xs s else (False, s))"

lemma feed_append: "feed fn (xs @ ys) s = (case feed fn xs s of (cont, s) \<Rightarrow> if cont then feed fn ys s else (False, s))"
  by (induction xs arbitrary: s) (auto split: prod.splits)

lemma child_wf: "weak_wf H d n \<Longrightarrow> i < 16 \<Longrightarrow> children n ! i = Some c \<Longrightarrow> node_wf H (Suc d) c"
  using inner_ok_child(1)[of H "node_wf H" d n i c] by blast

lemma child_weak: "weak_wf H d n \<Longrightarrow> i < 16 \<Longrightarrow> children n ! i = Some c \<Longrightarrow> is_inner c \<longrightarrow> weak_wf H (Suc d) c"
  using child_wf[of n H d i c] node_wf_weak by blast

lemma walkBranches_feed:
  assumes w: "weak_wf H d n"
    and visit: "\<And>i c s. i < 16 \<Longrightarrow> children n ! i = Some c \<Longrightarrow> visit c s = apfst Inr (feed fn (map fst (leaves c)) s)"
  shows "list_all (\<lambda>i. i < 16) is \<Longrightarrow> walkBranches H sm n visit is s =
    apfst Inr (feed fn (map fst (concat (map (\<lambda>i. slot_leaves (children n ! i)) is))) s)"
proof (induction "is" arbitrary: s)
  case (Cons i "is")
  then have i: "i < 16" by simp
  show ?case
  proof (cases "children n ! i")
    case None
    then show ?thesis using Cons readChild_resident[OF w i, of sm] by simp
  next
    case (Some c)
    then show ?thesis using Cons readChild_resident[OF w i, of sm] visit[OF i Some, of s]
      by (auto simp: feed_append split: prod.splits)
  qed
qed simp

lemma walkLeavesRec_feed:
  assumes "is_inner n \<longrightarrow> weak_wf H d n" "64 < d + fuel" "d \<le> 64"
  shows "walkLeavesRec fuel H sm fn n s = apfst Inr (feed fn (map fst (leaves n)) s)"
  using assms
proof (induction fuel arbitrary: d n s)
  case (Suc fuel)
  show ?case
  proof (cases "is_inner n")
    case True
    then have w: "weak_wf H d n" using Suc.prems(1) by blast
    have "d < 64" using w by (simp add: inner_ok_def)
    then have ih: "walkLeavesRec fuel H sm fn c s = apfst Inr (feed fn (map fst (leaves c)) s)"
      if "i < 16" "children n ! i = Some c" for i c s
      using Suc.prems(2) by (intro Suc.IH[OF child_weak[OF w that]]) simp_all
    have "walkBranches H sm n (walkLeavesRec fuel H sm fn) [0..<16] s =
        apfst Inr (feed fn (map fst (concat (map (\<lambda>i. slot_leaves (children n ! i)) [0..<16]))) s)"
      by (rule walkBranches_feed[OF w]) (simp_all add: ih list_all_iff)
    then show ?thesis using True by (simp add: leaves_slots[OF w] del: upt_rec_numeral)
  qed (auto simp: leaves_leaf split: prod.splits)
qed simp

abbreviation items :: "shamap \<Rightarrow> item list" where
  "items sm \<equiv> map fst (leaves (root sm))"

lemma ForEach_feed:
  assumes "map_wf H sm" "65 \<le> fuel"
  shows "ForEach fuel H sm fn s = (None, snd (feed fn (items sm) s))"
  using walkLeavesRec_feed[of "root sm" H 0 fuel sm fn s] assms
  by (cases "feed fn (items sm) s") (simp add: ForEach_def walkLeavesUnsafe_def map_wf_weak)

lemma feed_all: "feed (\<lambda>x s. (True, f x s)) xs s = (True, fold f xs s)"
  by (induction xs arbitrary: s) simp_all

lemma fold_count_int: "fold (\<lambda>_ n. n + 1) xs (c :: int) = c + int (length xs)"
  by (induction xs arbitrary: c) simp_all

text \<open>The memoised count is only kept on frozen maps, where it is the number of leaves.\<close>

definition size_ok :: "shamap \<Rightarrow> bool" where
  "size_ok sm \<longleftrightarrow> cachedSize sm = -1 \<or> mstate sm = stateImmutable \<and> cachedSize sm = int (length (leaves (root sm)))"

lemma Size_correct:
  assumes "map_wf H sm" "size_ok sm" "65 \<le> fuel"
  shows "Size fuel H sm =
    (int (length (leaves (root sm))),
     if mstate sm = stateImmutable then sm\<lparr>cachedSize := int (length (leaves (root sm)))\<rparr> else sm)"
proof (cases "cachedSize sm = -1")
  case True
  have "walkLeavesUnsafe fuel H sm (root sm) (\<lambda>_ count. (True, count + 1)) 0 = (None, int (length (leaves (root sm))))"
    using ForEach_feed[OF assms(1,3), of "\<lambda>_ count. (True, count + 1)" "0 :: int"] by (simp add: ForEach_def feed_all fold_count_int)
  then show ?thesis using True by (simp add: Size_def)
next
  case False
  then show ?thesis using assms(2) by (auto simp: Size_def size_ok_def)
qed

lemma put_cachedSize:
  "putItemWithNodeTypeUnsafe H sm it nt = Inr sm' \<Longrightarrow> map_wf H sm \<Longrightarrow> mstate sm = stateModifying \<Longrightarrow>
     cachedSize sm' = cachedSize sm \<and> mstate sm' = mstate sm"
  using put_Inr[of H sm it nt sm'] by auto

lemma reachable_size_ok: "reachable H mt sm \<Longrightarrow> size_ok sm"
proof (induction rule: reachable.induct)
  case new
  show ?case by (simp add: size_ok_def New_def)
next
  case (put sm k d sm')
  then show ?case using put_cachedSize[of H sm] reachable_inv[of H mt sm] by (auto simp: size_ok_def Put_unfold)
next
  case (put_typed sm k d nt sm')
  then show ?case using put_cachedSize[of H sm] reachable_inv[of H mt sm] by (auto simp: size_ok_def PutWithNodeType_unfold)
next
  case (delete sm fuel k sm')
  then show ?case using delete_Inr[of H sm fuel k sm'] reachable_inv[of H mt sm]
    by (auto simp: size_ok_def Delete_def split: if_splits)
next
  case (atomic sm items e sm')
  then show ?case by (auto simp: size_ok_def PutItemsAtomically_def split: if_splits sum.splits)
next
  case (freeze sm sm')
  then show ?case by (auto simp: size_ok_def SetImmutable_def split: if_splits)
next
  case (snapshot sm m sm')
  then show ?case by (auto simp: size_ok_def snapshotLocked_def Let_def split: if_splits)
next
  case (stamp sm n)
  then show ?case by (simp add: size_ok_def SetLedgerSeq_def)
next
  case (count sm fuel c sm')
  then show ?case using Size_correct[of H sm fuel] reachable_inv[of H mt sm] by (auto simp: size_ok_def)
qed


section \<open>The least leaf above and the greatest leaf below a key\<close>

definition first :: "'a list \<Rightarrow> 'a option" where
  "first xs = (case xs of [] \<Rightarrow> None | x # _ \<Rightarrow> Some x)"

lemma first_simps [simp]: "first [] = None" "first (x # xs) = Some x"
  by (simp_all add: first_def)

lemma first_append: "first (xs @ ys) = (case first xs of None \<Rightarrow> first ys | Some x \<Rightarrow> Some x)"
  by (cases xs) simp_all

abbreviation leaf_of :: "node \<Rightarrow> item \<times> leafKind" where
  "leaf_of n \<equiv> (Item n, kind n)"

text \<open>The leaves below a slot in the direction of a search.\<close>

definition directed :: "bool \<Rightarrow> 'a list \<Rightarrow> 'a list" where
  "directed ascending xs = (if ascending then xs else rev xs)"

lemma directed_Nil [simp]: "directed b xs = [] \<longleftrightarrow> xs = []" "directed b [] = []" "directed b [x] = [x]"
  by (simp_all add: directed_def)

definition finds :: "(item \<times> leafKind) list \<Rightarrow> shamap_error + node option \<Rightarrow> bool" where
  "finds xs r \<longleftrightarrow> (\<exists>l. r = Inr l \<and> first xs = map_option leaf_of l \<and> (\<forall>n. l = Some n \<longrightarrow> \<not> is_inner n))"

lemma searchBranches_finds:
  assumes w: "weak_wf H d n"
    and below: "\<And>i c. i < 16 \<Longrightarrow> children n ! i = Some c \<Longrightarrow> finds (directed b (leaves c)) (below c)"
  shows "list_all (\<lambda>i. i < 16) is \<Longrightarrow>
    finds (concat (map (\<lambda>i. directed b (slot_leaves (children n ! i))) is)) (searchBranches H sm n below is)"
proof (induction "is")
  case (Cons i "is")
  then have i: "i < 16" by simp
  show ?case
  proof (cases "children n ! i")
    case None
    then show ?thesis using Cons readChild_resident[OF w i, of sm] by simp
  next
    case (Some c)
    obtain l where l: "below c = Inr l" "first (directed b (leaves c)) = map_option leaf_of l" "\<forall>n. l = Some n \<longrightarrow> \<not> is_inner n"
      using below[OF i Some] by (auto simp: finds_def)
    show ?thesis using l Cons readChild_resident[OF w i, of sm] Some
      by (cases l) (auto simp: finds_def first_append)
  qed
qed (simp add: finds_def)

lemma directed_slots:
  assumes "weak_wf H d n"
  shows "directed b (leaves n) =
    concat (map (\<lambda>i. directed b (slot_leaves (children n ! i))) (if b then [0..<16] else rev [0..<16]))"
  by (simp add: directed_def leaves_slots[OF assms] rev_concat rev_map o_def del: upt_rec_numeral)

lemma boundBelowCtx_finds:
  assumes "is_inner n \<longrightarrow> weak_wf H d n" "64 < d + fuel" "d \<le> 64"
  shows "finds (directed b (leaves n)) (boundBelowCtx fuel H sm b n)"
  using assms
proof (induction fuel arbitrary: d n)
  case (Suc fuel)
  show ?case
  proof (cases "is_inner n")
    case True
    then have w: "weak_wf H d n" using Suc.prems(1) by blast
    then have "d < 64" by (simp add: inner_ok_def)
    then have ih: "finds (directed b (leaves c)) (boundBelowCtx fuel H sm b c)" if "i < 16" "children n ! i = Some c" for i c
      using Suc.prems(2) by (intro Suc.IH[OF child_weak[OF w that]]) simp_all
    have "finds (directed b (leaves n)) (searchBranches H sm n (boundBelowCtx fuel H sm b) (if b then [0..<16] else rev [0..<16]))"
      unfolding directed_slots[OF w] by (rule searchBranches_finds[OF w]) (auto simp: ih list_all_iff)
    then show ?thesis using True by simp
  qed (simp add: leaves_leaf finds_def)
qed simp


text \<open>The keys beyond \<open>k\<close>, and the branches beyond branch \<open>j\<close>, in the direction of a search.\<close>

definition beyond :: "bool \<Rightarrow> hash256 \<Rightarrow> hash256 \<Rightarrow> bool" where
  "beyond ascending k q \<longleftrightarrow> (if ascending then k < q else q < k)"

definition branches_beyond :: "bool \<Rightarrow> nat \<Rightarrow> nat list" where
  "branches_beyond ascending j = (if ascending then [j + 1..<16] else rev [0..<j])"

lemma slot_side:
  assumes w: "weak_wf H d n" and p: "\<forall>x\<in>set (leaves n). pre (lkey x) d = pre k d"
    and x: "i < 16" "x \<in> set (slot_leaves (children n ! i))"
  shows "i < nib k d \<Longrightarrow> lkey x < k" "nib k d < i \<Longrightarrow> k < lkey x"
proof -
  obtain c where c: "children n ! i = Some c" "x \<in> set (leaves c)" using x(2) by (auto simp: in_slot_leaves)
  have d: "d < 64" using w by (simp add: inner_ok_def)
  have "pre (lkey x) d = pre k d" using p leaves_in_child[OF w x(1) c] by blast
  moreover have "nib (lkey x) d = i" using inner_ok_child(3)[OF _ x(1) c] w by blast
  ultimately show "i < nib k d \<Longrightarrow> lkey x < k" "nib k d < i \<Longrightarrow> k < lkey x"
    using nib_less_imp_less[OF d, of "lkey x" k] nib_less_imp_less[OF d, of k "lkey x"] by simp_all
qed

lemma filter_concat_none: "(\<And>i x. i \<in> set is \<Longrightarrow> x \<in> set (f i) \<Longrightarrow> \<not> P x) \<Longrightarrow> filter P (concat (map f is)) = []"
  by (auto simp: filter_empty_conv)

lemma filter_concat_all: "(\<And>i x. i \<in> set is \<Longrightarrow> x \<in> set (f i) \<Longrightarrow> P x) \<Longrightarrow> filter P (concat (map f is)) = concat (map f is)"
  by (auto simp: filter_id_conv)

lemma leaves_beyond:
  assumes w: "weak_wf H d n" and p: "\<forall>x\<in>set (leaves n). pre (lkey x) d = pre k d"
  shows "directed b (filter (\<lambda>x. beyond b k (lkey x)) (leaves n)) =
    directed b (filter (\<lambda>x. beyond b k (lkey x)) (slot_leaves (children n ! nib k d))) @
    concat (map (\<lambda>i. directed b (slot_leaves (children n ! i))) (branches_beyond b (nib k d)))"
proof -
  let ?j = "nib k d" and ?s = "\<lambda>i. slot_leaves (children n ! i)" and ?P = "\<lambda>x. beyond b k (lkey x)"
  have j: "?j < 16" by simp
  have "[0..<?j + (16 - ?j)] = [0..<?j] @ [?j..<?j + (16 - ?j)]" by (rule upt_add_eq_append) simp
  then have "[0..<16] = [0..<?j] @ ?j # [Suc ?j..<16]"
    unfolding le_add_diff_inverse[OF less_imp_le_nat[OF j]] upt_conv_Cons[OF j] .
  then have l: "filter ?P (leaves n) = filter ?P (concat (map ?s [0..<?j])) @ filter ?P (?s ?j) @
      filter ?P (concat (map ?s [Suc ?j..<16]))" by (simp only: leaves_slots[OF w] map_append concat_append filter_append list.map concat.simps)
  have side: "x \<in> set (?s i) \<Longrightarrow> i < ?j \<Longrightarrow> lkey x < k" "x \<in> set (?s i) \<Longrightarrow> i < 16 \<Longrightarrow> ?j < i \<Longrightarrow> k < lkey x" for i x
    using slot_side[OF w p, of i x] j by auto
  have lo: "filter ?P (concat (map ?s [0..<?j])) = (if b then [] else concat (map ?s [0..<?j]))"
  proof (cases b)
    case True
    then show ?thesis using side(1) by (simp only: if_True) (intro filter_concat_none, force simp: beyond_def)
  next
    case False
    then show ?thesis using side(1) by (simp only: if_False) (intro filter_concat_all, simp add: beyond_def)
  qed
  have hi: "filter ?P (concat (map ?s [Suc ?j..<16])) = (if b then concat (map ?s [Suc ?j..<16]) else [])"
  proof (cases b)
    case True
    then show ?thesis using side(2) by (simp only: if_True) (intro filter_concat_all, simp add: beyond_def)
  next
    case False
    then show ?thesis using side(2) by (simp only: if_False) (intro filter_concat_none, force simp: beyond_def)
  qed
  show ?thesis unfolding l lo hi
    by (cases b) (simp_all add: directed_def branches_beyond_def rev_concat rev_map o_def)
qed

locale bound_search =
  fixes H :: "bytes \<Rightarrow> hash256" and sm :: shamap and fuel :: nat and key :: hash256 and ascending :: bool
    and loop :: "iterStackEntry list \<Rightarrow> shamap_error + item option"
  assumes loop_leaf: "\<not> is_inner (enode e) \<Longrightarrow> loop (e # st) =
      (if beyond ascending key (ikey (Item (enode e))) then Inr (Some (Item (enode e))) else loop st)"
    and loop_inner: "is_inner (enode e) \<Longrightarrow> loop (e # st) =
      bindE (searchBranches H sm (enode e) (boundBelowCtx fuel H sm ascending)
          (branches_beyond ascending (unat (selectBranch (enodeID e) key))))
        (\<lambda>leaf. case leaf of Some l \<Rightarrow> Inr (Some (Item l)) | None \<Rightarrow> loop st)"
    and loop_end: "loop [] = Inr None"
begin

abbreviation after :: "node \<Rightarrow> (item \<times> leafKind) list" where
  "after n \<equiv> directed ascending (filter (\<lambda>x. beyond ascending key (lkey x)) (leaves n))"

lemma loop_entry:
  assumes w: "weak_wf H d (enode e)" and d: "depth (enodeID e) = d" and fuel: "65 \<le> fuel"
  shows "loop (e # st) =
    (case first (concat (map (\<lambda>i. directed ascending (slot_leaves (children (enode e) ! i))) (branches_beyond ascending (nib key d)))) of
       None \<Rightarrow> loop st | Some x \<Rightarrow> Inr (Some (fst x)))"
proof -
  have "d < 64" using w by (simp add: inner_ok_def)
  then have br: "unat (selectBranch (enodeID e) key) = nib key d" using d by simp
  have "finds (directed ascending (leaves c)) (boundBelowCtx fuel H sm ascending c)" if "i < 16" "children (enode e) ! i = Some c" for i c
    using fuel \<open>d < 64\<close> by (intro boundBelowCtx_finds[OF child_weak[OF w that]]) simp_all
  moreover have "list_all (\<lambda>i. i < 16) (branches_beyond ascending (nib key d))"
    using nib_less[of key d] by (auto simp: branches_beyond_def list_all_iff simp del: nib_less)
  ultimately have "finds (concat (map (\<lambda>i. directed ascending (slot_leaves (children (enode e) ! i))) (branches_beyond ascending (nib key d))))
      (searchBranches H sm (enode e) (boundBelowCtx fuel H sm ascending) (branches_beyond ascending (nib key d)))"
    by (rule searchBranches_finds[OF w])
  then show ?thesis using loop_inner[of e st] w br by (auto simp: finds_def split: option.splits)
qed

lemma boundWalk_loop:
  assumes "is_inner n \<longrightarrow> weak_wf H d n" "depth nid = d" "65 \<le> fuel" "d \<le> 64"
    "\<forall>x\<in>set (leaves n). pre (lkey x) d = pre key d"
  shows "\<exists>es. boundWalk H sm key n nid stk = Inr (es @ stk) \<and>
    (\<forall>st. loop (es @ st) = (case first (after n) of None \<Rightarrow> loop st | Some x \<Rightarrow> Inr (Some (fst x))))"
  using assms
proof (induction "64 - d" arbitrary: d n nid stk rule: less_induct)
  case less
  show ?case
  proof (cases "is_inner n")
    case False
    then show ?thesis by (intro exI[of _ "[\<lparr>enode = n, enodeID = nid, ebranch = 0\<rparr>]"])
      (simp add: boundWalk.simps loop_leaf leaves_leaf)
  next
    case True
    let ?e = "\<lparr>enode = n, enodeID = nid, ebranch = nib key d + 1\<rparr>"
    have w: "weak_wf H d n" using less.prems True by blast
    then have d: "d < 64" by (simp add: inner_ok_def)
    have br: "unat (selectBranch nid key) = nib key d" using d less.prems by simp
    have e: "weak_wf H d (enode ?e)" "depth (enodeID ?e) = d" using w less.prems by simp_all
    note split = leaves_beyond[OF w less.prems(5), of ascending] and entry = loop_entry[OF e less.prems(3), simplified]
    show ?thesis
    proof (cases "children n ! nib key d")
      case None
      then have "boundWalk H sm key n nid stk = Inr ([?e] @ stk)"
        using True IsEmptyBranch_resident[OF w, of "nib key d"] by (simp add: boundWalk.simps br)
      then show ?thesis using entry by (intro exI[of _ "[?e]"]) (simp add: split None first_append)
    next
      case (Some c)
      obtain cid where cid: "childNodeID nid (selectBranch nid key) = Inr cid" "depth cid = Suc d"
        using childNodeID_defined[of nid key] d less.prems(2) by auto
      have p: "\<forall>x\<in>set (leaves c). pre (lkey x) (Suc d) = pre key (Suc d)"
        using less.prems(5) leaves_in_child[OF w nib_less Some] inner_ok_child(3)[OF _ nib_less Some] w d by (auto simp: pre_Suc_eq_iff)
      have m: "64 - Suc d < 64 - d" "Suc d \<le> 64" using d by simp_all
      obtain es where es: "boundWalk H sm key c cid (?e # stk) = Inr (es @ ?e # stk)"
        "\<And>st. loop (es @ st) = (case first (after c) of None \<Rightarrow> loop st | Some x \<Rightarrow> Inr (Some (fst x)))"
        using less.hyps[OF m(1) child_weak[OF w nib_less Some] cid(2) less.prems(3) m(2) p, of "?e # stk"] by auto
      have "boundWalk H sm key n nid stk = Inr ((es @ [?e]) @ stk)"
        using True IsEmptyBranch_resident[OF w, of "nib key d"] readChild_resident[OF w nib_less, of sm] es(1) Some
        by (simp add: boundWalk.simps[of H sm key n] br cid)
      moreover have "loop ((es @ [?e]) @ st) = (case first (after n) of None \<Rightarrow> loop st | Some x \<Rightarrow> Inr (Some (fst x)))" for st
        using es(2)[of "?e # st"] entry by (simp add: split Some first_append split: option.splits)
      ultimately show ?thesis by blast
    qed
  qed
qed

lemma walk_then_loop:
  assumes "map_wf H sm" "65 \<le> fuel"
  shows "bindE (walkBoundStack H sm key) loop = Inr (map_option fst (first (after (root sm))))"
proof -
  obtain es where es: "boundWalk H sm key (root sm) newRootNodeID [] = Inr (es @ [])"
    "\<And>st. loop (es @ st) = (case first (after (root sm)) of None \<Rightarrow> loop st | Some x \<Rightarrow> Inr (Some (fst x)))"
    using boundWalk_loop[of "root sm" 0 newRootNodeID "[]"] assms by (auto simp: map_wf_weak newRootNodeID_def)
  then show ?thesis using es(2)[of "[]"] loop_end by (simp add: walkBoundStack_def split: option.splits)
qed

end

interpretation upper: bound_search H sm fuel key True "upperBoundLoop fuel H sm key" for H sm fuel key
  by unfold_locales (simp_all add: beyond_def branches_beyond_def)

interpretation lower: bound_search H sm fuel key False "lowerBoundLoop fuel H sm key" for H sm fuel key
  by unfold_locales (simp_all add: beyond_def branches_beyond_def)


lemma items_sorted: "map_wf H sm \<Longrightarrow> sorted_wrt (<) (map ikey (items sm))"
  using map_leaves_sorted[of H sm] by (simp add: o_def)

lemma first_map: "first (map f xs) = map_option f (first xs)"
  by (cases xs) simp_all

lemma upperBound_first:
  assumes "map_wf H sm" "65 \<le> fuel"
  shows "upperBoundUnsafe fuel H sm key = Inr (first (filter (\<lambda>x. key < ikey x) (items sm)))"
  using upper.walk_then_loop[OF assms]
  by (simp add: upperBoundUnsafe_def directed_def beyond_def filter_map o_def first_map)

lemma lowerBound_last:
  assumes "map_wf H sm" "65 \<le> fuel"
  shows "lowerBoundUnsafe fuel H sm key = Inr (first (rev (filter (\<lambda>x. ikey x < key) (items sm))))"
  using lower.walk_then_loop[OF assms]
  by (simp add: lowerBoundUnsafe_def directed_def beyond_def filter_map o_def first_map rev_map)

section \<open>Iterating\<close>

text \<open>The loop of a caller: take the current item while the iterator is valid, then advance it.\<close>

fun collect :: "nat \<Rightarrow> nat \<Rightarrow> (bytes \<Rightarrow> hash256) \<Rightarrow> shamap \<Rightarrow> iterator \<Rightarrow> item list \<times> iterator" where
  "collect 0 fuel H sm it = ([], it)"
| "collect (Suc m) fuel H sm it =
     (if Valid it
      then (case collect m fuel H sm (snd (Next fuel H sm it)) of (xs, it') \<Rightarrow> (the (current it) # xs, it'))
      else ([], it))"

lemma filter_above_step:
  assumes "sorted_wrt (<) (map ikey xs)" "filter (\<lambda>x. k < ikey x) xs = y # ys"
  shows "filter (\<lambda>x. ikey y < ikey x) xs = ys"
  using assms
proof (induction xs)
  case (Cons x xs)
  show ?case
  proof (cases "k < ikey x")
    case True
    then have "\<forall>z\<in>set xs. k < ikey z" using Cons.prems(1) by auto
    then have "x = y" "xs = ys" using Cons.prems(2) True by (simp_all add: filter_id_conv)
    then show ?thesis using Cons.prems(1) by (simp add: filter_id_conv)
  next
    case False
    then have "filter (\<lambda>x. k < ikey x) xs = y # ys" using Cons.prems(2) by simp
    moreover have "k < ikey y" using calculation by (metis filter_eq_ConsD)
    ultimately show ?thesis using Cons False by simp
  qed
qed simp

lemma collect_above:
  assumes w: "map_wf H sm" "65 \<le> fuel"
  shows "filter (\<lambda>x. k < ikey x) (items sm) = xs \<Longrightarrow> length xs < m \<Longrightarrow>
    collect m fuel H sm \<lparr>current = first xs, iter_err = None\<rparr> = (xs, \<lparr>current = None, iter_err = None\<rparr>)"
proof (induction m arbitrary: k xs)
  case (Suc m)
  show ?case
  proof (cases xs)
    case (Cons y ys)
    have "filter (\<lambda>x. ikey y < ikey x) (items sm) = ys"
      using filter_above_step[OF items_sorted[OF w(1)]] Suc.prems(1) Cons by blast
    from Suc.IH[OF this] this show ?thesis using Suc.prems(2) Cons
      by (simp add: Valid_def Next_def upperBound_first[OF w])
  qed (simp add: Valid_def)
qed simp

lemma collect_UpperBound:
  assumes "map_wf H sm" "65 \<le> fuel" "length (items sm) < m"
  shows "collect m fuel H sm (UpperBound fuel H sm k) =
    (filter (\<lambda>x. k < ikey x) (items sm), \<lparr>current = None, iter_err = None\<rparr>)"
  using collect_above[OF assms(1,2) refl, of k m] assms le_less_trans[OF length_filter_le assms(3)]
  by (simp add: UpperBound_def iter_at_def upperBound_first)

lemma filter_above_last:
  assumes "sorted_wrt (<) (map ikey xs)" "filter (\<lambda>x. ikey x < k) xs \<noteq> []"
  shows "filter (\<lambda>x. ikey (last (filter (\<lambda>x. ikey x < k) xs)) < ikey x) xs = filter (\<lambda>x. \<not> ikey x < k) xs"
  using assms
proof (induction xs)
  case (Cons x xs)
  show ?case
  proof (cases "filter (\<lambda>x. ikey x < k) xs = []")
    case True
    then show ?thesis using Cons.prems by (auto simp: filter_empty_conv filter_id_conv split: if_splits intro!: filter_cong)
  next
    case False
    let ?l = "last (filter (\<lambda>x. ikey x < k) xs)"
    have "?l \<in> set (filter (\<lambda>x. ikey x < k) xs)" using False by (rule last_in_set)
    then have "ikey x < ikey ?l" "ikey ?l < k" using Cons.prems(1) by auto
    then show ?thesis using Cons False by auto
  qed
qed simp

lemma collect_LowerBound:
  assumes w: "map_wf H sm" "65 \<le> fuel" and m: "length (items sm) < m"
  shows "collect m fuel H sm (LowerBound fuel H sm k) =
    (case filter (\<lambda>x. ikey x < k) (items sm) of [] \<Rightarrow> [] | xs \<Rightarrow> last xs # filter (\<lambda>x. \<not> ikey x < k) (items sm),
     \<lparr>current = None, iter_err = None\<rparr>)"
proof -
  let ?b = "filter (\<lambda>x. ikey x < k) (items sm)" and ?a = "filter (\<lambda>x. \<not> ikey x < k) (items sm)"
  obtain m' where m': "m = Suc m'" using m by (cases m) auto
  show ?thesis
  proof (cases ?b)
    case Nil
    then show ?thesis by (simp add: LowerBound_def iter_at_def lowerBound_last[OF w] m' Valid_def)
  next
    case (Cons y ys)
    let ?l = "last ?b"
    have ne: "?b \<noteq> []" using Cons by simp
    have f: "first (rev ?b) = Some ?l" using ne by (simp add: first_def split: list.splits)
    have "length ?a < length (items sm)" using ne sum_length_filter_compl[of "\<lambda>x. ikey x < k" "items sm"] by (simp add: length_greater_0_conv[symmetric] del: length_greater_0_conv)
    then have "collect m' fuel H sm \<lparr>current = first ?a, iter_err = None\<rparr> = (?a, \<lparr>current = None, iter_err = None\<rparr>)"
      using collect_above[OF w filter_above_last[OF items_sorted[OF w(1)] ne], of m'] m m' by simp
    then show ?thesis using f Cons filter_above_last[OF items_sorted[OF w(1)] ne]
      by (simp add: LowerBound_def iter_at_def lowerBound_last[OF w] m' Valid_def Next_def upperBound_first[OF w])
  qed
qed


section \<open>Properties\<close>

text \<open>
  C23.  The iterators scan in key order and stop.  On every map the package's operations produce, the
  loop that reads the current item while the iterator is valid and advances it ends, without error, after
  at most as many rounds as the map has items: started with \<open>UpperBound\<close> at a key it has read exactly
  the items whose keys are above the key, in ascending order; started with \<open>LowerBound\<close> it has read the
  item with the greatest key below the key and then every item from the key on, and nothing if no item
  is below the key.
\<close>

theorem iterators_scan_in_order:
  assumes "reachable H mt sm" "65 \<le> fuel" "length (items sm) < m"
  shows "sorted_wrt (<) (map ikey (items sm)) \<and>
    collect m fuel H sm (UpperBound fuel H sm k) =
      (filter (\<lambda>x. k < ikey x) (items sm), \<lparr>current = None, iter_err = None\<rparr>) \<and>
    collect m fuel H sm (LowerBound fuel H sm k) =
      (case filter (\<lambda>x. ikey x < k) (items sm) of [] \<Rightarrow> [] | xs \<Rightarrow> last xs # filter (\<lambda>x. \<not> ikey x < k) (items sm),
       \<lparr>current = None, iter_err = None\<rparr>)"
proof -
  have "map_wf H sm" using reachable_inv[OF assms(1)] by blast
  then show ?thesis using items_sorted collect_UpperBound[OF _ assms(2,3)] collect_LowerBound[OF _ assms(2,3)] by blast
qed

lemma single_item_map:
  obtains s where "Put H (New TypeState) 5 (replicate 12 1) = Inr s" "reachable H TypeState s"
    "items s = [\<lparr>ikey = 5, idata = replicate 12 1\<rparr>]" "mstate s = stateModifying"
proof -
  obtain s where s: "Put H (New TypeState) 5 (replicate 12 1) = Inr s" "map_wf H s" "mstate s = stateModifying"
    "look (root s) = [5 \<mapsto> (\<lparr>ikey = 5, idata = replicate 12 1\<rparr>, default_kind s)]"
    using put_New[of "replicate 12 1" H TypeState 5] by auto
  have "items s = [\<lparr>ikey = 5, idata = replicate 12 1\<rparr>]" using leaves_single[OF s(2,4)] by simp
  then show thesis by (rule that[OF s(1) reachable.put[OF reachable.new s(1)] _ s(3)])
qed

theorem iterators_scan_in_order_witness:
  "\<exists>s. Put (\<lambda>_. 7) (New TypeState) 5 (replicate 12 1) = Inr s \<and>
     collect 2 65 (\<lambda>_. 7) s (UpperBound 65 (\<lambda>_. 7) s 3) =
       ([\<lparr>ikey = 5, idata = replicate 12 1\<rparr>], \<lparr>current = None, iter_err = None\<rparr>) \<and>
     collect 2 65 (\<lambda>_. 7) s (LowerBound 65 (\<lambda>_. 7) s 5) = ([], \<lparr>current = None, iter_err = None\<rparr>)"
proof -
  obtain s where s: "Put (\<lambda>_. 7) (New TypeState) 5 (replicate 12 1) = Inr s" "reachable (\<lambda>_. 7) TypeState s"
    "items s = [\<lparr>ikey = 5, idata = replicate 12 1\<rparr>]" by (rule single_item_map)
  show ?thesis using iterators_scan_in_order[OF s(2), of 65 2 3] iterators_scan_in_order[OF s(2), of 65 2 5] s(1,3)
    by (auto simp: word_less_nat_alt)
qed

text \<open>
  C24.  \<open>ForEach\<close> and \<open>Size\<close>.  On every map the package's operations produce, \<open>ForEach\<close> gives the callback
  the items in ascending key order until it returns false, and returns no error; \<open>Size\<close> returns the number
  of items, whether it counts them or answers from the memoised count, memoises the count only on a frozen
  map, and leaves the rest of the map unchanged.
\<close>

theorem ForEach_and_Size_follow_items:
  assumes "reachable H mt sm" "65 \<le> fuel"
  shows "ForEach fuel H sm fn s = (None, snd (feed fn (items sm) s)) \<and>
    Size fuel H sm = (int (length (items sm)),
      if mstate sm = stateImmutable then sm\<lparr>cachedSize := int (length (items sm))\<rparr> else sm)"
proof -
  have w: "map_wf H sm" using reachable_inv[OF assms(1)] by blast
  show ?thesis using ForEach_feed[OF w assms(2)] Size_correct[OF w reachable_size_ok[OF assms(1)] assms(2)] by simp
qed

theorem ForEach_and_Size_follow_items_witness:
  "\<exists>s t. Put (\<lambda>_. 7) (New TypeState) 5 (replicate 12 1) = Inr s \<and> SetImmutable s = Inr t \<and>
     ForEach 65 (\<lambda>_. 7) s (\<lambda>it ks. (True, ikey it # ks)) [] = (None, [5]) \<and> fst (Size 65 (\<lambda>_. 7) t) = 1"
proof -
  obtain s where s: "Put (\<lambda>_. 7) (New TypeState) 5 (replicate 12 1) = Inr s" "reachable (\<lambda>_. 7) TypeState s"
    "items s = [\<lparr>ikey = 5, idata = replicate 12 1\<rparr>]" "mstate s = stateModifying" by (rule single_item_map)
  have t: "SetImmutable s = Inr (s\<lparr>mstate := stateImmutable\<rparr>)" using s(4) by (simp add: SetImmutable_def)
  show ?thesis
    using ForEach_and_Size_follow_items[OF s(2), of 65 "\<lambda>it ks. (True, ikey it # ks)" "[]"]
      ForEach_and_Size_follow_items[OF reachable.freeze[OF s(2) t], of 65 "\<lambda>it ks. (True, ikey it # ks)" "[]"] s(1,3) t
    by (auto simp: length_map[symmetric, of _ fst] simp del: length_map)
qed

end
