(* ===== verification/Shamap_Proof.thy ===== *)
theory Shamap_Proof
  imports Shamap_Iter
begin

text \<open>
  Merkle proofs, \<^verbatim>\<open>src/shamap/proof.go\<close>: \<open>GetProofPath\<close> serialises the nodes from a leaf to the root,
  \<open>verifyProofPath\<close> checks such a path against a root hash.  The lemmas show that the two fit together
  and that an accepted path is evidence about the map with that root hash.
\<close>

section \<open>Definitions\<close>

record proofPath =
  pkey :: hash256
  ppath :: "bytes list"
  pfound :: bool

fun serializeAll :: "node list \<Rightarrow> shamap_error + bytes list" where
  "serializeAll [] = Inr []"
| "serializeAll (n # ns) =
     bindE (SerializeForWire n) (\<lambda>serialized. bindE (serializeAll ns) (\<lambda>path. Inr (serialized # path)))"

definition GetProofPath :: "(bytes \<Rightarrow> hash256) \<Rightarrow> shamap \<Rightarrow> hash256 \<Rightarrow> shamap_error + proofPath" where
  "GetProofPath H sm key =
     bindE (walkToKey H sm key True) (\<lambda>(leaf, stack).
       case leaf of
         None \<Rightarrow> Inr \<lparr>pkey = key, ppath = [], pfound = False\<rparr>
       | Some leafNode \<Rightarrow>
           if is_inner leafNode then Inr \<lparr>pkey = key, ppath = [], pfound = False\<rparr>
           else if ikey (Item leafNode) \<noteq> key then Inr \<lparr>pkey = key, ppath = [], pfound = False\<rparr>
           else bindE (serializeAll (map fst stack)) (\<lambda>path. Inr \<lparr>pkey = key, ppath = path, pfound = True\<rparr>))"

text \<open>The loop from the root to the leaf: the blobs still to be read, root side first, and the depth.\<close>

fun verifyLoop :: "(bytes \<Rightarrow> hash256) \<Rightarrow> hash256 \<Rightarrow> nat \<Rightarrow> hash256 \<Rightarrow> bytes list \<Rightarrow> bytes option" where
  "verifyLoop H key d currentHash [] = None"
| "verifyLoop H key d currentHash (nodeData # rest) =
     (case deserializeNodeFromWire H nodeData of
        Inl _ \<Rightarrow> None
      | Inr n \<Rightarrow>
          let n = UpdateHash H n in
          if Hash n \<noteq> currentHash then None
          else if is_inner n then
            (if d \<ge> maxDepth then None
             else
               case createNodeID d key of
                 Inl _ \<Rightarrow> None
               | Inr nodeID \<Rightarrow>
                   (case ChildHash n (unat (selectBranch nodeID key)) of
                      Inl _ \<Rightarrow> None
                    | Inr childHash \<Rightarrow>
                        if childHash = 0 then None else verifyLoop H key (d + 1) childHash rest))
          else if rest \<noteq> [] then None
          else if ikey (Item n) \<noteq> key then None
          else Some (idata (Item n)))"

definition verifyProofPath :: "(bytes \<Rightarrow> hash256) \<Rightarrow> hash256 \<Rightarrow> hash256 \<Rightarrow> bytes list \<Rightarrow> bytes option" where
  "verifyProofPath H rootHash key blobs =
     (if length blobs = 0 \<or> length blobs > maxDepth + 1 then None else verifyLoop H key 0 rootHash (rev blobs))"

definition VerifyProofPath :: "(bytes \<Rightarrow> hash256) \<Rightarrow> hash256 \<Rightarrow> hash256 \<Rightarrow> bytes list \<Rightarrow> bool" where
  "VerifyProofPath H rootHash key blobs \<longleftrightarrow> verifyProofPath H rootHash key blobs \<noteq> None"

section \<open>The hashes an inner node sends\<close>

lemma sent_slot:
  assumes "weak_wf H d n" "i < 16"
  shows "sent_hashes (children n) (hashes n) (isBranch n) ! i = (case children n ! i of None \<Rightarrow> 0 | Some c \<Rightarrow> Hash c)"
  using bit_iff_child[OF assms] assms(2) by (auto simp: childPreimageHash_def split: option.splits)

lemma preimages_slot:
  assumes "weak_wf H d n" "i < 16" "children n ! i = Some c"
  shows "set (preimages c) \<subseteq> set (preimages n)"
proof -
  have "length (children n) = 16" using assms(1) by (simp add: inner_ok_def)
  then show ?thesis using preimages_child[of n i c] assms by simp
qed

lemma nonzero_child:
  assumes "weak_wf H d n" "nonzero_hashes H n" "i < 16" "children n ! i = Some c"
  shows "nonzero_hashes H c"
  using preimages_slot[OF assms(1,3,4)] assms(2) by (auto simp: nonzero_hashes_def list_all_iff)

lemma child_hash_nonzero:
  assumes "weak_wf H d n" "nonzero_hashes H n" "i < 16" "children n ! i = Some c"
  shows "Hash c \<noteq> 0"
  by (rule node_hash_nonzero[OF child_wf[OF assms(1,3,4)] _ nonzero_child[OF assms]]) simp

section \<open>A path of the map verifies\<close>

lemma Hash_stub: "sendable H n \<Longrightarrow> Hash (UpdateHash H (stub n)) = Hash n"
  by (cases n) simp_all

lemma stub_fields [simp]: "is_inner (UpdateHash H (stub n)) = is_inner n"
  by (cases n) (simp_all add: is_inner_def)

lemma stub_leaf: "\<not> is_inner n \<Longrightarrow> Item (UpdateHash H (stub n)) = Item n"
  by (cases n) (simp_all add: is_inner_def)

lemma ChildHash_stub:
  assumes "weak_wf H d n" "i < 16"
  shows "ChildHash (UpdateHash H (stub n)) i = Inr (case children n ! i of None \<Rightarrow> 0 | Some c \<Rightarrow> Hash c)"
  using assms sent_slot[OF assms] by (cases n) (simp_all add: ChildHash_def is_inner_def del: nth_sent_hashes)

lemma sendable_inner:
  assumes "weak_wf H d n" "nonzero_hashes H n" "leaves n \<noteq> []"
  shows "sendable H n"
proof -
  have "isBranch n \<noteq> 0" using no_branch[OF assms(1)] assms(3) by auto
  moreover have "childPreimageHash (children n) (hashes n) i \<noteq> 0" if i: "i < 16" "bit (isBranch n) i" for i
  proof -
    obtain c where c: "children n ! i = Some c" using bit_iff_child[OF assms(1) i(1)] i(2) by auto
    then show ?thesis using child_hash_nonzero[OF assms(1,2) i(1) c] by (simp add: childPreimageHash_def)
  qed
  ultimately show ?thesis using assms(1) by (cases n) (simp_all add: is_inner_def inner_ok_def)
qed

lemma sendable_leaf:
  assumes "\<not> is_inner n" "node_wf H d n" "kind n = leafAccountState \<longrightarrow> ikey (Item n) \<noteq> 0" "tx_keys_ok H n"
  shows "sendable H n"
  using assms by (cases n) (simp_all add: node_wf_leaf leaf_ok_def tx_keys_ok_def leaves_leaf is_inner_def)

lemma verify_inner:
  assumes w: "weak_wf H d n" "nonzero_hashes H n" and c: "children n ! nib k d = Some c"
    and b: "deserializeNodeFromWire H b = Inr (stub n)" "sendable H n"
  shows "verifyLoop H k d (Hash n) (b # bs) = verifyLoop H k (Suc d) (Hash c) bs"
proof -
  have d: "d < 64" using w(1) by (simp add: inner_ok_def)
  obtain nid where nid: "createNodeID d k = Inr nid" "depth nid = d" using createNodeID_defined[of d k] d by auto
  have "Hash c \<noteq> 0" by (rule child_hash_nonzero[OF w nib_less c])
  moreover have "unat (selectBranch nid k) = nib k d" using nid(2) d by simp
  ultimately show ?thesis using b nid d w(1) c ChildHash_stub[OF w(1) nib_less, of k d]
    by (simp add: Hash_stub maxDepth_def)
qed

lemma verify_leaf:
  assumes "\<not> is_inner n" "deserializeNodeFromWire H b = Inr (stub n)" "sendable H n" "ikey (Item n) = k"
  shows "verifyLoop H k d (Hash n) [b] = Some (idata (Item n))"
  using assms by (simp add: Hash_stub stub_leaf)

lemma serializeAll_append:
  "serializeAll (xs @ ys) = bindE (serializeAll xs) (\<lambda>a. bindE (serializeAll ys) (\<lambda>b. Inr (a @ b)))"
  by (induction xs) (simp_all add: bindE_def split: sum.splits)

lemma length_serializeAll: "serializeAll ns = Inr bs \<Longrightarrow> length bs = length ns"
  by (induction ns arbitrary: bs) (auto simp: bindE_eq_Inr)

lemma path_leaves: "path k d n (Some c) ps \<Longrightarrow> weak_wf H d n \<Longrightarrow> set (leaves c) \<subseteq> set (leaves n)"
proof (induction d n "Some c" ps rule: path.induct)
  case (path_end n nid d)
  then show ?case using leaves_in_child[OF path_end.prems nib_less path_end.hyps(3)] by blast
next
  case (path_step n nid d c' ps)
  have "weak_wf H (Suc d) c'" using child_weak[OF path_step.prems nib_less path_step.hyps(3)] path_inner[OF path_step.hyps(4)] by blast
  then show ?case using path_step.hyps(5) leaves_in_child[OF path_step.prems nib_less path_step.hyps(3)] by blast
qed

text \<open>The wire form of a node whose preimages are among those of the tree \<open>t\<close>.\<close>

definition blob_of :: "(bytes \<Rightarrow> hash256) \<Rightarrow> node \<Rightarrow> bytes \<Rightarrow> bool" where
  "blob_of H t b \<longleftrightarrow> (\<exists>m. sendable H m \<and> SerializeForWire m = Inr b \<and> set (preimages m) \<subseteq> set (preimages t))"

lemma path_walk:
  "path k d n (Some c) ps \<Longrightarrow> weak_wf H d n \<Longrightarrow> nonzero_hashes H n \<Longrightarrow>
     \<exists>bs. serializeAll (map fst ps) = Inr bs \<and> list_all (blob_of H n) bs \<and> set (preimages c) \<subseteq> set (preimages n) \<and>
       (\<forall>b. verifyLoop H k d (Hash n) (rev bs @ [b]) = verifyLoop H k (d + length ps) (Hash c) [b])"
proof (induction d n "Some c" ps rule: path.induct)
  case (path_end n nid d)
  have ne: "leaves n \<noteq> []" using leaves_in_child[OF path_end.prems(1) nib_less path_end.hyps(3)] path_end.hyps(4)
    by (force simp: leaves_leaf)
  note s = sendable_inner[OF path_end.prems(1,2) ne]
  obtain b' where b': "SerializeForWire n = Inr b'" "deserializeNodeFromWire H b' = Inr (stub n)"
    using wire.des_ser[OF s] by blast
  have "blob_of H n b'" using b'(1) s unfolding blob_of_def by blast
  then show ?case using b' preimages_slot[OF path_end.prems(1) nib_less path_end.hyps(3)]
      verify_inner[OF path_end.prems(1,2) path_end.hyps(3) b'(2) s] by simp
next
  case (path_step n nid d c' ps)
  note w = path_step.prems(1)
  have w': "weak_wf H (Suc d) c'" using child_weak[OF w nib_less path_step.hyps(3)] path_inner[OF path_step.hyps(4)] by blast
  obtain bs where bs: "serializeAll (map fst ps) = Inr bs" "list_all (blob_of H c') bs" "set (preimages c) \<subseteq> set (preimages c')"
    "\<forall>b. verifyLoop H k (Suc d) (Hash c') (rev bs @ [b]) = verifyLoop H k (Suc d + length ps) (Hash c) [b]"
    using path_step.hyps(5)[OF w' nonzero_child[OF w path_step.prems(2) nib_less path_step.hyps(3)]] by blast
  have "leaves c' \<noteq> []" using child_wf[OF w nib_less path_step.hyps(3)] node_wf_nonempty by blast
  then have ne: "leaves n \<noteq> []" using leaves_in_child[OF w nib_less path_step.hyps(3)] by (metis list.set_sel(1) empty_iff list.set(1))
  note s = sendable_inner[OF w path_step.prems(2) ne]
  obtain b' where b': "SerializeForWire n = Inr b'" "deserializeNodeFromWire H b' = Inr (stub n)"
    using wire.des_ser[OF s] by blast
  have "serializeAll (map fst ps @ [n]) = Inr (bs @ [b'])" unfolding serializeAll_append bs(1) using b' by simp
  moreover have "list_all (blob_of H n) (bs @ [b'])"
    using bs(2) b'(1) s preimages_slot[OF w nib_less path_step.hyps(3)] by (fastforce simp: blob_of_def list_all_iff)
  ultimately show ?case using bs(3,4) preimages_slot[OF w nib_less path_step.hyps(3)]
      verify_inner[OF w path_step.prems(2) path_step.hyps(3) b'(2) s] by (intro exI[of _ "bs @ [b']"]) auto
qed

lemma zero_state_leaf:
  assumes "\<not> is_inner n" "kind n = leafAccountState" "ikey (Item n) = 0" "12 \<le> length (idata (Item n))"
  obtains b e where "SerializeForWire n = Inr b" "deserializeNodeFromWire H b = Inl e"
  using that assms by (cases n; cases "Item n") (simp_all add: is_inner_def deserializeNodeFromWire_def
      newAccountStateLeafFromWire_def wire_type_defs Let_def butlast_append isZeroHash_def)

lemma leaf_verifies:
  assumes leaf: "\<not> is_inner c" "node_wf H d c" "tx_keys_ok H c"
  shows "\<exists>b. SerializeForWire c = Inr b \<and> verifyLoop H (ikey (Item c)) d' (Hash c) [b] =
      (if ikey (Item c) = 0 \<and> kind c = leafAccountState then None else Some (idata (Item c))) \<and>
    (ikey (Item c) = 0 \<and> kind c = leafAccountState \<or> sendable H c)"
proof (cases "ikey (Item c) = 0 \<and> kind c = leafAccountState")
  case True
  have "12 \<le> length (idata (Item c))" using leaf(1,2) by (simp add: node_wf_leaf leaf_ok_def)
  then obtain b e where "SerializeForWire c = Inr b" "deserializeNodeFromWire H b = Inl e"
    using zero_state_leaf[OF leaf(1)] True by metis
  then show ?thesis using True by simp
next
  case False
  then have s: "sendable H c" using sendable_leaf[OF leaf(1,2) _ leaf(3)] by blast
  then obtain b where "SerializeForWire c = Inr b" "deserializeNodeFromWire H b = Inr (stub c)" using wire.des_ser by blast
  then show ?thesis using verify_leaf[OF leaf(1) _ s refl, of b] s False by (intro exI[of _ b]) auto
qed

lemma GetProofPath_found:
  assumes w: "map_wf H sm" and nz: "nonzero_hashes H (root sm)" and tx: "tx_keys_ok H (root sm)"
    and l: "look (root sm) k = Some x"
  shows "\<exists>p. GetProofPath H sm k = Inr \<lparr>pkey = k, ppath = p, pfound = True\<rparr> \<and>
    verifyProofPath H (Hash (root sm)) k p = (if k = 0 \<and> snd x = leafAccountState then None else Some (idata (fst x))) \<and>
    (k \<noteq> 0 \<longrightarrow> list_all (blob_of H (root sm)) p)"
proof -
  obtain r nid ps where r: "walkToKey H sm k True = Inr (r, case r of None \<Rightarrow> ps | Some c \<Rightarrow> (c, nid) # ps)"
    "path k 0 (root sm) r ps" "length ps \<le> 64" using walkToKey_path[OF w, of k] by blast
  have wr: "weak_wf H 0 (root sm)" using w by (simp add: map_wf_weak)
  have "slot_look r k = Some x" using path_look[OF r(2) wr, of k] l by simp
  then obtain c where c: "r = Some c" "look c k = Some x" by (cases r) simp_all
  have leaf: "\<not> is_inner c" using path_result r(2) c(1) by blast
  then have x: "x = leaf_of c" "ikey (Item c) = k" using c(2) by (auto split: if_splits)
  have wc: "node_wf H (length ps) c" using path_agree[OF r(2) wr c(1)] by simp
  have "tx_keys_ok H c" using tx path_leaves[of k 0 "root sm" c ps H] r(2) c(1) wr
    by (auto simp: tx_keys_ok_def list_all_iff)
  from leaf_verifies[OF leaf wc this, of "length ps"] obtain b where b: "SerializeForWire c = Inr b"
    "verifyLoop H k (length ps) (Hash c) [b] = (if k = 0 \<and> kind c = leafAccountState then None else Some (idata (Item c)))"
    "k \<noteq> 0 \<Longrightarrow> sendable H c" unfolding x(2) by blast
  obtain bs where bs: "serializeAll (map fst ps) = Inr bs" "list_all (blob_of H (root sm)) bs"
    "set (preimages c) \<subseteq> set (preimages (root sm))"
    "\<forall>b. verifyLoop H k 0 (Hash (root sm)) (rev bs @ [b]) = verifyLoop H k (0 + length ps) (Hash c) [b]"
    using path_walk[OF _ wr nz, of k c ps] r(2) c(1) by blast
  have "length (b # bs) = Suc (length ps)" using length_serializeAll[OF bs(1)] by simp
  then have "verifyProofPath H (Hash (root sm)) k (b # bs) =
      (if k = 0 \<and> snd x = leafAccountState then None else Some (idata (fst x)))"
    using bs(4) b(2) r(3) x(1) by (simp add: verifyProofPath_def maxDepth_def)
  moreover have "GetProofPath H sm k = Inr \<lparr>pkey = k, ppath = b # bs, pfound = True\<rparr>"
    using r(1) c(1) leaf x(2) bs(1) b(1) by (simp add: GetProofPath_def)
  moreover have "blob_of H (root sm) b" if "k \<noteq> 0" using b(1,3) bs(3) that unfolding blob_of_def by blast
  ultimately show ?thesis using bs(2) by (intro exI[of _ "b # bs"]) simp
qed


section \<open>A path that verifies is evidence\<close>

lemma parse_chunks_zero:
  "parse_chunks data (hs, br) = Inr (hs', br') \<Longrightarrow> length hs = 16 \<Longrightarrow> (\<And>i. i < 16 \<Longrightarrow> \<not> bit br i \<Longrightarrow> hs ! i = 0) \<Longrightarrow>
     length hs' = 16 \<and> (\<forall>i<16. \<not> bit br' i \<longrightarrow> hs' ! i = 0)"
proof (induction data "(hs, br)" arbitrary: hs br rule: parse_chunks.induct)
  case (1 data hs br)
  show ?case
  proof (cases "data = []")
    case True
    then show ?thesis using "1.prems" by (simp add: parse_chunks.simps)
  next
    case False
    let ?p = "data ! 32" and ?h = "hash_of_bytes (take 32 data)"
    have p: "\<not> 16 \<le> ?p" using "1.prems"(1) False by (subst (asm) parse_chunks.simps) (auto simp: Let_def split: if_splits)
    then have "parse_chunks (drop 33 data) (hs[unat ?p := ?h], br OR push_bit (unat ?p) 1) = Inr (hs', br')"
      using "1.prems"(1) False by (subst (asm) parse_chunks.simps) (simp add: Let_def)
    then show ?thesis
    proof (rule "1.hyps"[OF False refl refl p])
      show "length (hs[unat ?p := ?h]) = 16" using "1.prems"(2) by simp
      show "hs[unat ?p := ?h] ! i = 0" if "i < 16" "\<not> bit (br OR push_bit (unat ?p) 1) i" for i
        using that "1.prems"(2,3) unfolding bit_set_branch by (auto simp: nth_list_update)
    qed
  qed
qed

lemma wire_inner:
  assumes "deserializeNodeFromWire H b = Inr m" "is_inner m"
  shows "children m = replicate 16 None \<and> length (hashes m) = 16 \<and> (\<forall>i<16. \<not> bit (isBranch m) i \<longrightarrow> hashes m ! i = 0)"
proof -
  have "newInnerNodeFromWire H b = Inr m"
    using assms by (auto simp: deserializeNodeFromWire_def newAccountStateLeafFromWire_def newTransactionLeafFromWire_def
        newTransactionWithMetaLeafFromWire_def newLeafNode_eq_Inr bindE_eq_Inr is_inner_def Let_def split: if_splits node.splits)
  then show ?thesis
    using parse_chunks_zero[of "butlast b" "replicate 16 0" 0]
    by (auto simp: newInnerNodeFromWire_def parseFullInnerNode_def parseCompressedInnerNode_def bindE_eq_Inr Let_def
        split: if_splits)
qed

lemma wire_leaf:
  assumes "deserializeNodeFromWire H b = Inr m" "\<not> is_inner m" "kind m = leafTransaction"
  shows "ikey (Item m) = H (HashPrefixTransactionID @ idata (Item m))"
  using assms
  by (auto simp: deserializeNodeFromWire_def newAccountStateLeafFromWire_def newTransactionLeafFromWire_def
      newTransactionWithMetaLeafFromWire_def newInnerNodeFromWire_def parseFullInnerNode_def parseCompressedInnerNode_def
      newLeafNode_eq_Inr bindE_eq_Inr is_inner_def Let_def NewItem_def split: if_splits node.splits)

text \<open>
  The hashing assumption between a blob and a tree: when the blob decodes to a node, no preimage of the
  node collides with one of the tree and none hashes to zero.
\<close>

definition blob_binds :: "(bytes \<Rightarrow> hash256) \<Rightarrow> node \<Rightarrow> bytes \<Rightarrow> bool" where
  "blob_binds H n b \<longleftrightarrow>
     (case deserializeNodeFromWire H b of Inl _ \<Rightarrow> True | Inr m \<Rightarrow> no_collision H m n \<and> nonzero_hashes H m)"

lemma blob_binds_child:
  assumes "weak_wf H d n" "i < 16" "children n ! i = Some c" "blob_binds H n b"
  shows "blob_binds H c b"
proof -
  have "set (preimages c) \<subseteq> set (preimages n)" by (rule preimages_slot[OF assms(1-3)])
  then show ?thesis using assms(4) by (auto simp: blob_binds_def no_collision_def list_all_iff split: sum.splits)
qed

lemma tx_keys_child: "weak_wf H d n \<Longrightarrow> i < 16 \<Longrightarrow> children n ! i = Some c \<Longrightarrow> tx_keys_ok H n \<Longrightarrow> tx_keys_ok H c"
  using leaves_in_child[of n H d i c] by (auto simp: tx_keys_ok_def list_all_iff)

lemma UpdateHash_fields [simp]:
  "is_inner (UpdateHash H m) = is_inner m" "\<not> is_inner m \<Longrightarrow> Item (UpdateHash H m) = Item m"
  "is_inner m \<Longrightarrow> ChildHash (UpdateHash H m) i = ChildHash m i"
  "is_inner m \<Longrightarrow> Hash (UpdateHash H m) = inner_hash H (children m) (hashes m) (isBranch m)"
  "\<not> is_inner m \<Longrightarrow> Hash (UpdateHash H m) = H (leaf_preimage (Item m) (kind m))"
  by (cases m; simp add: is_inner_def ChildHash_def)+

lemma evidence_leaf:
  assumes n: "node_wf H d n" and m: "deserializeNodeFromWire H b = Inr m" "\<not> is_inner m" "blob_binds H n b"
    and eq: "H (leaf_preimage (Item m) (kind m)) = Hash n" and tx: "tx_keys_ok H n"
  shows "look n (ikey (Item m)) = Some (leaf_of m)"
proof -
  let ?p = "leaf_preimage (Item m) (kind m)"
  have nc: "a \<in> set (preimages n) \<Longrightarrow> H ?p = H a \<Longrightarrow> ?p = a" and nz: "H ?p \<noteq> 0" for a
    using m by (auto simp: blob_binds_def no_collision_def nonzero_hashes_def list_all_iff preimages_leaf)
  have leaf: "\<not> is_inner n"
  proof
    assume i: "is_inner n"
    then have w: "weak_wf H d n" using n by (rule node_wf_weak[rotated])
    then have br: "isBranch n \<noteq> 0" using weak_wf_hash[OF w] nz eq by auto
    have "?p = inner_preimage (children n) (hashes n) (isBranch n)"
      using nc[OF preimages_inner[OF i br]] weak_wf_hash[OF w] br eq by simp
    then show False using leaf_inner_preimage by blast
  qed
  then have h: "Hash n = H (leaf_preimage (Item n) (kind n))" using n by (simp add: node_wf_leaf leaf_ok_def)
  have "?p = leaf_preimage (Item n) (kind n)" using nc[of "leaf_preimage (Item n) (kind n)"] leaf h eq by (simp add: preimages_leaf)
  from leaf_preimage_inject[OF this] have k: "kind m = kind n" "idata (Item m) = idata (Item n)"
    "kind m \<noteq> leafTransaction \<Longrightarrow> ikey (Item m) = ikey (Item n)" by blast+
  have "ikey (Item m) = ikey (Item n)"
  proof (cases "kind m = leafTransaction")
    case True
    then show ?thesis using wire_leaf[OF m(1,2)] tx k leaf by (simp add: tx_keys_ok_def leaves_leaf)
  qed (rule k(3))
  then have "Item m = Item n" using k(2) by simp
  then show ?thesis using leaf k(1) by simp
qed

lemma evidence_inner:
  assumes n: "node_wf H d n" and m: "deserializeNodeFromWire H b = Inr m" "is_inner m" "blob_binds H n b"
    and eq: "inner_hash H (children m) (hashes m) (isBranch m) = Hash n" and i: "i < 16" "hashes m ! i \<noteq> 0"
  obtains c where "is_inner n" "children n ! i = Some c" "Hash c = hashes m ! i"
proof -
  let ?p = "inner_preimage (children m) (hashes m) (isBranch m)"
  note wi = wire_inner[OF m(1,2)]
  have br: "isBranch m \<noteq> 0" using wi i by auto
  have nc: "a \<in> set (preimages n) \<Longrightarrow> H ?p = H a \<Longrightarrow> ?p = a" and nz: "H ?p \<noteq> 0" for a
    using m preimages_inner[OF m(2) br] by (auto simp: blob_binds_def no_collision_def nonzero_hashes_def list_all_iff)
  have h: "H ?p = Hash n" using eq br by (simp add: inner_hash_def)
  have inner: "is_inner n"
  proof (rule ccontr)
    assume l: "\<not> is_inner n"
    then have "?p = leaf_preimage (Item n) (kind n)"
      using nc[of "leaf_preimage (Item n) (kind n)"] n h by (simp add: preimages_leaf node_wf_leaf leaf_ok_def)
    then show False using leaf_inner_preimage by metis
  qed
  have w: "weak_wf H d n" by (rule node_wf_weak[OF n inner])
  have brn: "isBranch n \<noteq> 0" using weak_wf_hash[OF w] nz h by auto
  have "?p = inner_preimage (children n) (hashes n) (isBranch n)"
    using nc[OF preimages_inner[OF inner brn]] weak_wf_hash[OF w] brn h by simp
  from inner_preimage_inject[OF this] have "sent_hashes (children m) (hashes m) (isBranch m) ! i = sent_hashes (children n) (hashes n) (isBranch n) ! i"
    by simp
  moreover have "sent_hashes (children m) (hashes m) (isBranch m) ! i = hashes m ! i"
    using wi i by (auto simp: childPreimageHash_def)
  ultimately have "hashes m ! i = (case children n ! i of None \<Rightarrow> 0 | Some c \<Rightarrow> Hash c)" using sent_slot[OF w i(1)] by simp
  then show thesis using that inner i(2) by (cases "children n ! i") simp_all
qed

lemma verifyLoop_sound:
  "verifyLoop H k d (Hash n) bs = Some data \<Longrightarrow> node_wf H d n \<Longrightarrow> list_all (blob_binds H n) bs \<Longrightarrow> tx_keys_ok H n \<Longrightarrow>
     \<exists>x. look n k = Some x \<and> idata (fst x) = data"
proof (induction bs arbitrary: d n)
  case (Cons b bs)
  obtain m where m: "deserializeNodeFromWire H b = Inr m" "Hash (UpdateHash H m) = Hash n"
    using Cons.prems(1) by (auto simp: Let_def split: sum.splits if_splits)
  show ?case
  proof (cases "is_inner m")
    case True
    obtain nid ch where nid: "d < 64" "createNodeID d k = Inr nid" "ChildHash m (unat (selectBranch nid k)) = Inr ch" "ch \<noteq> 0"
      "verifyLoop H k (Suc d) ch bs = Some data"
      using Cons.prems(1) m True by (auto simp: Let_def maxDepth_def split: sum.splits if_splits)
    have br: "unat (selectBranch nid k) = nib k d" using createNodeID_digits(2)[OF nid(2)] nid(1) by simp
    have ch: "hashes m ! nib k d = ch" using nid(3) by (simp add: ChildHash_def br split: if_splits)
    have h: "inner_hash H (children m) (hashes m) (isBranch m) = Hash n" using m(2) True by simp
    have b: "blob_binds H n b" "hashes m ! nib k d \<noteq> 0" using Cons.prems(3) ch nid(4) by simp_all
    obtain c where c: "is_inner n" "children n ! nib k d = Some c" "Hash c = hashes m ! nib k d"
      by (rule evidence_inner[OF Cons.prems(2) m(1) True b(1) h nib_less b(2)])
    have w: "weak_wf H d n" by (rule node_wf_weak[OF Cons.prems(2) c(1)])
    have "\<exists>x. look c k = Some x \<and> idata (fst x) = data"
    proof (rule Cons.IH)
      show "verifyLoop H k (Suc d) (Hash c) bs = Some data" using nid(5) c(3) ch by simp
      show "node_wf H (Suc d) c" by (rule child_wf[OF w nib_less c(2)])
      show "list_all (blob_binds H c) bs" using Cons.prems(3) blob_binds_child[OF w nib_less c(2)] by (simp add: list_all_iff)
      show "tx_keys_ok H c" by (rule tx_keys_child[OF w nib_less c(2) Cons.prems(4)])
    qed
    then show ?thesis using look_inner[OF w, of k] c(2) by simp
  next
    case False
    then have "look n (ikey (Item m)) = Some (leaf_of m)"
      using evidence_leaf[OF Cons.prems(2) m(1) False] Cons.prems(3,4) m(2) by simp
    moreover have "ikey (Item m) = k" "idata (Item m) = data"
      using Cons.prems(1) m False by (auto simp: Let_def split: if_splits)
    ultimately show ?thesis by auto
  qed
qed simp

section \<open>Properties\<close>


text \<open>
  C13.  Proofs are sound.  If \<open>verifyProofPath\<close> accepts a path, from whatever source, for the root hash of a
  map the package's operations produced, then the map holds the key and \<open>Get\<close> returns the data that
  was proven, provided that no preimage of a node the path decodes to collides with a preimage of the
  map or hashes to zero, and that the map's transaction leaves without metadata are keyed by their
  transaction hash.
\<close>

theorem verifyProofPath_sound:
  assumes "reachable H mt sm" "verifyProofPath H (Hash (root sm)) key p = Some data"
    "list_all (blob_binds H (root sm)) p" "tx_keys_ok H (root sm)"
  shows "Get H sm key = Inr (Some \<lparr>ikey = key, idata = data\<rparr>, True)"
proof -
  have w: "map_wf H sm" using reachable_inv[OF assms(1)] by blast
  then have "node_wf H 0 (root sm)" by (simp add: map_wf_def)
  moreover have "verifyLoop H key 0 (Hash (root sm)) (rev p) = Some data"
    using assms(2) by (simp add: verifyProofPath_def split: if_splits)
  moreover have "list_all (blob_binds H (root sm)) (rev p)" using assms(3) by (simp add: list_all_iff)
  ultimately obtain x where x: "look (root sm) key = Some x" "idata (fst x) = data"
    using verifyLoop_sound assms(4) by blast
  have "ikey (fst x) = key" by (rule look_lkey[OF x(1)])
  then have "fst x = \<lparr>ikey = key, idata = data\<rparr>" using x(2) by simp
  then show ?thesis using x(1) by (simp add: Get_look[OF w])
qed

text \<open>A hash that separates the preimages of a map with one leaf, and such a map.\<close>

definition len_hash :: "bytes \<Rightarrow> hash256" where
  "len_hash b = of_nat (length b + 1)"

lemma one_leaf_map:
  obtains s where "Put len_hash (New TypeState) k (replicate 12 1) = Inr s" "reachable len_hash TypeState s"
    "nonzero_hashes len_hash (root s)" "tx_keys_ok len_hash (root s)" "no_collision len_hash (root s) (root s)"
    "look (root s) = [k \<mapsto> (\<lparr>ikey = k, idata = replicate 12 1\<rparr>, leafAccountState)]"
proof -
  obtain s where s: "Put len_hash (New TypeState) k (replicate 12 1) = Inr s" "map_wf len_hash s" "mtype s = TypeState"
    "look (root s) = [k \<mapsto> (\<lparr>ikey = k, idata = replicate 12 1\<rparr>, default_kind s)]"
    using put_New[of "replicate 12 1" len_hash TypeState k] by auto
  note l = leaves_single[OF s(2,4)]
  have k: "default_kind s = leafAccountState" using s(3) by (simp add: getLeafNodeType_def)
  obtain cs hs br where p: "preimages (root s) = [inner_preimage cs hs br, leaf_preimage \<lparr>ikey = k, idata = replicate 12 1\<rparr> (default_kind s)]"
    by (rule preimages_single[OF s(2) l])
  have len: "length (inner_preimage cs hs br) = 516" "length (leaf_preimage \<lparr>ikey = k, idata = replicate 12 1\<rparr> leafAccountState) = 48"
    by (simp_all add: leaf_preimage_def HashPrefixLeafNode_def)
  have "nonzero_hashes len_hash (root s)" "tx_keys_ok len_hash (root s)" "no_collision len_hash (root s) (root s)"
    by (simp_all add: no_collision_def nonzero_hashes_def tx_keys_ok_def p k l len len_hash_def)
  then show thesis using that[OF s(1) reachable.put[OF reachable.new s(1)]] s(4) k by simp
qed


text \<open>The paths that \<open>GetProofPath\<close> produces meet the assumption, when the map's own preimages do not collide.\<close>

lemma preimages_stub: "sendable H n \<Longrightarrow> set (preimages (stub n)) \<subseteq> set (preimages n)"
  by (cases n) (auto simp: map_replicate_const)

lemma blob_of_binds:
  assumes "blob_of H t b" "no_collision H t t" "nonzero_hashes H t"
  shows "blob_binds H t b"
proof -
  obtain m where m: "sendable H m" "SerializeForWire m = Inr b" "set (preimages m) \<subseteq> set (preimages t)"
    using assms(1) by (auto simp: blob_of_def)
  have "deserializeNodeFromWire H b = Inr (stub m)" using wire.des_ser[OF m(1)] m(2) by auto
  then show ?thesis using preimages_stub[OF m(1)] m(3) assms(2,3)
    unfolding blob_binds_def no_collision_def nonzero_hashes_def list_all_iff by fastforce
qed

theorem verifyProofPath_sound_witness:
  "\<exists>s p. Put len_hash (New TypeState) 5 (replicate 12 1) = Inr s \<and>
     verifyProofPath len_hash (Hash (root s)) 5 p = Some (replicate 12 1) \<and>
     Get len_hash s 5 = Inr (Some \<lparr>ikey = 5, idata = replicate 12 1\<rparr>, True)"
proof -
  obtain s where s: "Put len_hash (New TypeState) 5 (replicate 12 1) = Inr s" "reachable len_hash TypeState s"
    "nonzero_hashes len_hash (root s)" "tx_keys_ok len_hash (root s)" "no_collision len_hash (root s) (root s)"
    "look (root s) = [5 \<mapsto> (\<lparr>ikey = 5, idata = replicate 12 1\<rparr>, leafAccountState)]" by (rule one_leaf_map)
  have w: "map_wf len_hash s" using reachable_inv[OF s(2)] by blast
  obtain p where p: "verifyProofPath len_hash (Hash (root s)) 5 p = Some (replicate 12 1)" "list_all (blob_of len_hash (root s)) p"
    using GetProofPath_found[OF w s(3,4), of 5] s(6) by auto
  have "list_all (blob_binds len_hash (root s)) p" using p(2) blob_of_binds[OF _ s(5,3)] by (auto simp: list_all_iff)
  then show ?thesis using verifyProofPath_sound[OF s(2) p(1) _ s(4)] p(1) s(1) by blast
qed

end
