(* ===== verification/Shamap_Compare.thy ===== *)
theory Shamap_Compare
  imports Shamap_Proof "HOL-Library.Multiset"
begin

text \<open>
  Comparing two SHAMaps, \<^verbatim>\<open>src/shamap/{compare,difference}.go\<close>: the walk over pairs of nodes that skips
  subtrees with equal hashes, and the walk of a branch that the other map does not have.  The callback
  \<open>emit\<close> takes and returns the state it closes over.  Both loops pop nodes that may come from the store,
  so they take fuel; the lemmas show that the number of nodes of the two trees is enough.
\<close>

section \<open>Definitions\<close>

datatype differenceType = DiffAdded | DiffRemoved | DiffModified

record differenceItem =
  dkey :: hash256
  dtype :: differenceType
  firstItem :: "item option"
  secondItem :: "item option"

record differenceSet =
  differences :: "differenceItem list"
  complete :: bool

definition Len :: "differenceSet \<Rightarrow> nat" where
  "Len ds = length (differences ds)"

definition addDifference ::
  "differenceSet \<Rightarrow> hash256 \<Rightarrow> differenceType \<Rightarrow> item option \<Rightarrow> item option \<Rightarrow> differenceSet" where
  "addDifference ds key ty a b =
     ds\<lparr>differences := differences ds @ [\<lparr>dkey = key, dtype = ty, firstItem = a, secondItem = b\<rparr>]\<rparr>"

text \<open>The parts of \<open>walkBranch\<close>: pushing the children of an inner node, one leaf, the loop, the end.\<close>

fun pushChildren ::
  "(bytes \<Rightarrow> hash256) \<Rightarrow> shamap \<Rightarrow> node \<Rightarrow> nat list \<Rightarrow> node list \<Rightarrow> shamap_error + node list" where
  "pushChildren H sm inner [] stack = Inr stack"
| "pushChildren H sm inner (i # is) stack =
     bindE (readChild H sm inner i) (\<lambda>child.
       pushChildren H sm inner is (case child of None \<Rightarrow> stack | Some c \<Rightarrow> c # stack))"

definition oneSided :: "bool \<Rightarrow> item \<Rightarrow> differenceItem" where
  "oneSided isFirstMap it =
     (if isFirstMap then \<lparr>dkey = ikey it, dtype = DiffRemoved, firstItem = Some it, secondItem = None\<rparr>
      else \<lparr>dkey = ikey it, dtype = DiffAdded, firstItem = None, secondItem = Some it\<rparr>)"

definition walkBranchLeaf ::
  "(differenceItem \<Rightarrow> 's \<Rightarrow> bool \<times> 's) \<Rightarrow> item option \<Rightarrow> bool \<Rightarrow> item \<Rightarrow> bool \<times> 's \<Rightarrow> bool \<times> (bool \<times> 's)" where
  "walkBranchLeaf emit otherMapItem isFirstMap it = (\<lambda>(emptyBranch, s).
     let isUnmatched = (emptyBranch \<or> (case otherMapItem of None \<Rightarrow> False | Some other \<Rightarrow> ikey it \<noteq> ikey other)) in
     if isUnmatched then (case emit (oneSided isFirstMap it) s of (cont, s) \<Rightarrow> (cont, (emptyBranch, s)))
     else
       case otherMapItem of
         Some other \<Rightarrow>
           (if idata it \<noteq> idata other then
              (case emit \<lparr>dkey = ikey it, dtype = DiffModified,
                  firstItem = Some (if isFirstMap then it else other),
                  secondItem = Some (if isFirstMap then other else it)\<rparr> s of
                 (cont, s) \<Rightarrow> (cont, (if cont then True else emptyBranch, s)))
            else (True, (True, s)))
       | None \<Rightarrow> (True, (True, s)))"

fun walkBranchLoop ::
  "nat \<Rightarrow> (bytes \<Rightarrow> hash256) \<Rightarrow> shamap \<Rightarrow> (item \<Rightarrow> 't \<Rightarrow> bool \<times> 't) \<Rightarrow> node list \<Rightarrow> 't \<Rightarrow> (shamap_error + bool) \<times> 't" where
  "walkBranchLoop fuel H sm visit [] t = (Inr True, t)"
| "walkBranchLoop 0 H sm visit (n # stack) t = (Inl OutOfFuel, t)"
| "walkBranchLoop (Suc fuel) H sm visit (n # stack) t =
     (if is_inner n then
        (case pushChildren H sm n [0..<16] stack of
           Inl e \<Rightarrow> (Inl e, t)
         | Inr stack \<Rightarrow> walkBranchLoop fuel H sm visit stack t)
      else
        (case visit (Item n) t of
           (cont, t) \<Rightarrow> if cont then walkBranchLoop fuel H sm visit stack t else (Inr False, t)))"

definition walkBranch ::
  "nat \<Rightarrow> (bytes \<Rightarrow> hash256) \<Rightarrow> shamap \<Rightarrow> node \<Rightarrow> item option \<Rightarrow> bool \<Rightarrow> (differenceItem \<Rightarrow> 's \<Rightarrow> bool \<times> 's) \<Rightarrow> 's \<Rightarrow>
     (shamap_error + bool) \<times> 's" where
  "walkBranch fuel H sm n otherMapItem isFirstMap emit s =
     (case walkBranchLoop fuel H sm (walkBranchLeaf emit otherMapItem isFirstMap) [n] (otherMapItem = None, s) of
        (Inr True, (emptyBranch, s)) \<Rightarrow>
          (case otherMapItem of
             Some other \<Rightarrow>
               if \<not> emptyBranch then (case emit (oneSided (\<not> isFirstMap) other) s of (cont, s) \<Rightarrow> (Inr cont, s))
               else (Inr True, s)
           | None \<Rightarrow> (Inr True, s))
      | (r, (_, s)) \<Rightarrow> (r, s))"

definition emitLeafDiff ::
  "node \<Rightarrow> node \<Rightarrow> (differenceItem \<Rightarrow> 's \<Rightarrow> bool \<times> 's) \<Rightarrow> 's \<Rightarrow> bool \<times> 's" where
  "emitLeafDiff ourNode otherNode emit s =
     (let ourItem = Item ourNode; otherItem = Item otherNode in
      if ikey ourItem = ikey otherItem then
        (if idata ourItem \<noteq> idata otherItem then
           emit \<lparr>dkey = ikey ourItem, dtype = DiffModified, firstItem = Some ourItem, secondItem = Some otherItem\<rparr> s
         else (True, s))
      else
        case emit \<lparr>dkey = ikey ourItem, dtype = DiffRemoved, firstItem = Some ourItem, secondItem = None\<rparr> s of
          (cont, s) \<Rightarrow>
            if \<not> cont then (False, s)
            else emit \<lparr>dkey = ikey otherItem, dtype = DiffAdded, firstItem = None, secondItem = Some otherItem\<rparr> s)"

text \<open>The live hash of a loaded child, the cached hash otherwise; and a child that may have to be loaded.\<close>

definition liveHash :: "node option \<times> hash256 \<times> bool \<Rightarrow> hash256" where
  "liveHash c = (case c of (Some child, _) \<Rightarrow> Hash child | (None, hash, _) \<Rightarrow> hash)"

definition loadSide ::
  "(bytes \<Rightarrow> hash256) \<Rightarrow> shamap \<Rightarrow> node \<Rightarrow> nat \<Rightarrow> shamap_error + node option" where
  "loadSide H sm inner i =
     (case LoadChild inner i of (child, _, isSet) \<Rightarrow>
        if isSet \<and> child = None then readChild H sm inner i else Inr child)"

fun diffInner ::
  "nat \<Rightarrow> (bytes \<Rightarrow> hash256) \<Rightarrow> shamap \<Rightarrow> shamap \<Rightarrow> (differenceItem \<Rightarrow> 's \<Rightarrow> bool \<times> 's) \<Rightarrow> node \<Rightarrow> node \<Rightarrow> nat list \<Rightarrow>
     (node \<times> node) list \<Rightarrow> 's \<Rightarrow> (shamap_error + (node \<times> node) list \<times> bool) \<times> 's" where
  "diffInner fuel H sm other emit ourInner otherInner [] newEntries s = (Inr (newEntries, True), s)"
| "diffInner fuel H sm other emit ourInner otherInner (i # is) newEntries s =
     (let ours = LoadChild ourInner i; theirs = LoadChild otherInner i;
          ourSet = snd (snd ours); otherSet = snd (snd theirs) in
      if \<not> ourSet \<and> \<not> otherSet then diffInner fuel H sm other emit ourInner otherInner is newEntries s
      else if ourSet \<and> otherSet \<and> liveHash ours = liveHash theirs
      then diffInner fuel H sm other emit ourInner otherInner is newEntries s
      else
        case bindE (loadSide H sm ourInner i) (\<lambda>a. bindE (loadSide H other otherInner i) (\<lambda>b. Inr (a, b))) of
          Inl e \<Rightarrow> (Inl e, s)
        | Inr (Some a, Some b) \<Rightarrow>
            diffInner fuel H sm other emit ourInner otherInner is
              (if Hash a \<noteq> Hash b then newEntries @ [(a, b)] else newEntries) s
        | Inr (None, Some b) \<Rightarrow>
            (case walkBranch fuel H other b None False emit s of
               (Inr True, s) \<Rightarrow> diffInner fuel H sm other emit ourInner otherInner is newEntries s
             | (Inr False, s) \<Rightarrow> (Inr ([], False), s)
             | (Inl e, s) \<Rightarrow> (Inl e, s))
        | Inr (Some a, None) \<Rightarrow>
            (case walkBranch fuel H sm a None True emit s of
               (Inr True, s) \<Rightarrow> diffInner fuel H sm other emit ourInner otherInner is newEntries s
             | (Inr False, s) \<Rightarrow> (Inr ([], False), s)
             | (Inl e, s) \<Rightarrow> (Inl e, s))
        | Inr (None, None) \<Rightarrow> diffInner fuel H sm other emit ourInner otherInner is newEntries s)"

text \<open>The loop of \<open>diffUnsafe\<close>; \<open>bfuel\<close> is the fuel of the branch walks.  The stack has its top first.\<close>

fun diffLoop ::
  "nat \<Rightarrow> nat \<Rightarrow> (bytes \<Rightarrow> hash256) \<Rightarrow> shamap \<Rightarrow> shamap \<Rightarrow> (differenceItem \<Rightarrow> 's \<Rightarrow> bool \<times> 's) \<Rightarrow> (node \<times> node) list \<Rightarrow> 's \<Rightarrow>
     (shamap_error + bool) \<times> 's" where
  "diffLoop fuel bfuel H sm other emit [] s = (Inr True, s)"
| "diffLoop 0 bfuel H sm other emit (entry # stack) s = (Inl OutOfFuel, s)"
| "diffLoop (Suc fuel) bfuel H sm other emit ((ourNode, otherNode) # stack) s =
     (if \<not> is_inner ourNode \<and> \<not> is_inner otherNode then
        (case emitLeafDiff ourNode otherNode emit s of
           (cont, s) \<Rightarrow> if cont then diffLoop fuel bfuel H sm other emit stack s else (Inr False, s))
      else if is_inner ourNode \<and> \<not> is_inner otherNode then
        (case walkBranch bfuel H sm ourNode (Some (Item otherNode)) True emit s of
           (Inr True, s) \<Rightarrow> diffLoop fuel bfuel H sm other emit stack s
         | (r, s) \<Rightarrow> (r, s))
      else if \<not> is_inner ourNode \<and> is_inner otherNode then
        (case walkBranch bfuel H other otherNode (Some (Item ourNode)) False emit s of
           (Inr True, s) \<Rightarrow> diffLoop fuel bfuel H sm other emit stack s
         | (r, s) \<Rightarrow> (r, s))
      else
        (case diffInner bfuel H sm other emit ourNode otherNode [0..<16] [] s of
           (Inr (newEntries, True), s) \<Rightarrow> diffLoop fuel bfuel H sm other emit (rev newEntries @ stack) s
         | (Inr (_, False), s) \<Rightarrow> (Inr False, s)
         | (Inl e, s) \<Rightarrow> (Inl e, s)))"

definition diffUnsafe ::
  "nat \<Rightarrow> (bytes \<Rightarrow> hash256) \<Rightarrow> shamap \<Rightarrow> shamap \<Rightarrow> (differenceItem \<Rightarrow> 's \<Rightarrow> bool \<times> 's) \<Rightarrow> 's \<Rightarrow> (shamap_error + bool) \<times> 's" where
  "diffUnsafe fuel H sm other emit s =
     (if Hash (root sm) = Hash (root other) then (Inr True, s)
      else diffLoop fuel fuel H sm other emit [(root sm, root other)] s)"

definition CompareContext ::
  "nat \<Rightarrow> (bytes \<Rightarrow> hash256) \<Rightarrow> shamap \<Rightarrow> shamap option \<Rightarrow> int \<Rightarrow> shamap_error + differenceSet" where
  "CompareContext fuel H sm other maxCount =
     (case other of
        None \<Rightarrow> Inl (Errorf ''cannot compare with nil map'')
      | Some other \<Rightarrow>
          if mstate sm = stateInvalid \<or> mstate other = stateInvalid then Inl errInvalidState
          else
            case diffUnsafe fuel H sm other (\<lambda>diff result.
                let result = addDifference result (dkey diff) (dtype diff) (firstItem diff) (secondItem diff)
                in (maxCount \<le> 0 \<or> int (Len result) < maxCount, result))
              \<lparr>differences = [], complete = True\<rparr> of
              (Inl e, _) \<Rightarrow> Inl e
            | (Inr compl, result) \<Rightarrow> Inr (result\<lparr>complete := compl\<rparr>))"

section \<open>What a comparison should report\<close>

text \<open>The difference at one key, from the items the two maps hold there.\<close>

definition diff_at :: "hash256 \<Rightarrow> item option \<Rightarrow> item option \<Rightarrow> differenceItem option" where
  "diff_at k a b =
     (case (a, b) of
        (None, None) \<Rightarrow> None
      | (Some x, None) \<Rightarrow> Some \<lparr>dkey = k, dtype = DiffRemoved, firstItem = Some x, secondItem = None\<rparr>
      | (None, Some y) \<Rightarrow> Some \<lparr>dkey = k, dtype = DiffAdded, firstItem = None, secondItem = Some y\<rparr>
      | (Some x, Some y) \<Rightarrow>
          if idata x = idata y then None
          else Some \<lparr>dkey = k, dtype = DiffModified, firstItem = Some x, secondItem = Some y\<rparr>)"

definition diffs_of ::
  "(hash256 \<Rightarrow> item option) \<Rightarrow> (hash256 \<Rightarrow> item option) \<Rightarrow> differenceItem list \<Rightarrow> bool" where
  "diffs_of f g ds \<longleftrightarrow> distinct (map dkey ds) \<and> (\<forall>d. d \<in> set ds \<longleftrightarrow> diff_at (dkey d) (f (dkey d)) (g (dkey d)) = Some d)"

lemma diff_at_simps [simp]:
  "diff_at k None None = None"
  "diff_at k (Some x) None = Some d \<longleftrightarrow> d = \<lparr>dkey = k, dtype = DiffRemoved, firstItem = Some x, secondItem = None\<rparr>"
  "diff_at k None (Some y) = Some d \<longleftrightarrow> d = \<lparr>dkey = k, dtype = DiffAdded, firstItem = None, secondItem = Some y\<rparr>"
  "diff_at k (Some x) (Some y) = Some d \<longleftrightarrow>
     idata x \<noteq> idata y \<and> d = \<lparr>dkey = k, dtype = DiffModified, firstItem = Some x, secondItem = Some y\<rparr>"
  by (auto simp: diff_at_def)

abbreviation look_item :: "node \<Rightarrow> hash256 \<Rightarrow> item option" where
  "look_item n k \<equiv> map_option fst (look n k)"

lemma diffs_of_same: "(\<And>k. f k = g k) \<Longrightarrow> diffs_of f g []"
  by (auto simp: diffs_of_def diff_at_def split: option.splits)

section \<open>The walk of a branch\<close>

primrec nodes :: "node \<Rightarrow> nat" where
  "nodes (InnerNode h d cs hs br g) = Suc (sum_list (map (\<lambda>o'. case o' of None \<Rightarrow> 0 | Some k \<Rightarrow> k) (map (map_option nodes) cs)))"
| "nodes (LeafNode h d it k) = 1"

definition slot_nodes :: "node option \<Rightarrow> nat" where
  "slot_nodes c = (case c of None \<Rightarrow> 0 | Some n \<Rightarrow> nodes n)"

lemma slot_nodes_simps [simp]: "slot_nodes None = 0" "slot_nodes (Some n) = nodes n"
  by (simp_all add: slot_nodes_def)

lemma nodes_leaf [simp]: "\<not> is_inner n \<Longrightarrow> nodes n = 1"
  by (cases n) (simp_all add: is_inner_def)

lemma nodes_inner:
  assumes "weak_wf H d n"
  shows "nodes n = Suc (\<Sum>i\<leftarrow>[0..<16]. slot_nodes (children n ! i))"
proof -
  have len: "length (children n) = 16" using assms by (simp add: inner_ok_def)
  have "children n = map (\<lambda>i. children n ! i) [0..<16]" using len by (metis map_nth)
  then have "map slot_nodes (children n) = map (\<lambda>i. slot_nodes (children n ! i)) [0..<16]"
    by (metis (no_types, lifting) comp_apply map_map map_eq_conv)
  moreover have "nodes n = Suc (sum_list (map slot_nodes (children n)))"
    using assms by (cases n) (auto simp: is_inner_def slot_nodes_def o_def intro!: arg_cong[where f = sum_list] split: option.splits)
  ultimately show ?thesis by simp
qed

lemma nodes_pos: "0 < nodes n"
  by (cases n) simp_all

lemma pushChildren_eq:
  assumes w: "weak_wf H d n"
  shows "list_all (\<lambda>i. i < 16) is \<Longrightarrow>
    pushChildren H sm n is st = Inr (rev (List.map_filter (\<lambda>i. children n ! i) is) @ st)"
proof (induction "is" arbitrary: st)
  case (Cons i "is")
  then have "i < 16" by simp
  then show ?case using Cons readChild_resident[OF w, of i sm] by (cases "children n ! i") (simp_all add: map_filter_simps)
qed (simp add: map_filter_simps)

lemma sum_pushed: "(\<Sum>c\<leftarrow>rev (List.map_filter f is). nodes c) = (\<Sum>i\<leftarrow>is. slot_nodes (f i))"
  by (induction "is") (auto simp: map_filter_simps split: option.splits)

lemma concat_pushed:
  "concat (map (\<lambda>c. rev (map fst (leaves c))) (rev (List.map_filter f is))) = rev (map fst (concat (map (\<lambda>i. slot_leaves (f i)) is)))"
  by (induction "is") (auto simp: map_filter_simps split: option.splits)

abbreviation node_ok :: "(bytes \<Rightarrow> hash256) \<Rightarrow> node \<Rightarrow> bool" where
  "node_ok H n \<equiv> \<exists>d. node_wf H d n"

lemma walkBranchLoop_feed:
  "list_all (node_ok H) ns \<Longrightarrow>
   walkBranchLoop ((\<Sum>n\<leftarrow>ns. nodes n) + fuel) H sm visit (ns @ st) t =
     (case feed visit (concat (map (\<lambda>n. rev (map fst (leaves n))) ns)) t of
        (cont, t) \<Rightarrow> if cont then walkBranchLoop fuel H sm visit st t else (Inr False, t))"
proof (induction "\<Sum>n\<leftarrow>ns. nodes n" arbitrary: ns t rule: less_induct)
  case less
  show ?case
  proof (cases ns)
    case (Cons n ms)
    obtain d where n: "node_wf H d n" using less.prems Cons by auto
    show ?thesis
    proof (cases "is_inner n")
      case True
      have w: "weak_wf H d n" by (rule node_wf_weak[OF n True])
      let ?cs = "rev (List.map_filter (\<lambda>i. children n ! i) [0..<16])"
      have s: "(\<Sum>n\<leftarrow>ns. nodes n) = Suc (\<Sum>n\<leftarrow>?cs @ ms. nodes n)"
        unfolding Cons map_append sum_list_append sum_pushed by (simp add: nodes_inner[OF w] del: upt_rec_numeral)
      have "node_ok H c" if c: "c \<in> set ?cs" for c
      proof -
        obtain i where "i < 16" "children n ! i = Some c" using c by (auto simp: map_filter_def simp del: upt_rec_numeral)
        then show ?thesis using child_wf[OF w] by blast
      qed
      then have ok: "list_all (node_ok H) (?cs @ ms)" using less.prems Cons by (auto simp: list_all_iff simp del: upt_rec_numeral)
      have "walkBranchLoop ((\<Sum>n\<leftarrow>ns. nodes n) + fuel) H sm visit (ns @ st) t =
          walkBranchLoop ((\<Sum>n\<leftarrow>?cs @ ms. nodes n) + fuel) H sm visit ((?cs @ ms) @ st) t"
        unfolding s using True pushChildren_eq[OF w, of "[0..<16]" sm "ms @ st"]
        by (simp add: Cons list_all_iff del: upt_rec_numeral)
      moreover have "concat (map (\<lambda>n. rev (map fst (leaves n))) (?cs @ ms)) = concat (map (\<lambda>n. rev (map fst (leaves n))) ns)"
        unfolding map_append concat_append concat_pushed by (simp add: Cons leaves_slots[OF w] del: upt_rec_numeral)
      ultimately show ?thesis using less.hyps[OF _ ok, of t] s by simp
    next
      case False
      have ok: "list_all (node_ok H) ms" using less.prems Cons by simp
      show ?thesis using less.hyps[of ms, OF _ ok] False by (auto simp: Cons leaves_leaf split: prod.splits)
    qed
  qed simp
qed

text \<open>The differences a branch walk emits, from the items it visits.\<close>

fun branch_trace :: "bool \<Rightarrow> item option \<Rightarrow> bool \<Rightarrow> item list \<Rightarrow> differenceItem list" where
  "branch_trace fm other emptyBranch [] =
     (case other of Some o' \<Rightarrow> if \<not> emptyBranch then [oneSided (\<not> fm) o'] else [] | None \<Rightarrow> [])"
| "branch_trace fm other emptyBranch (x # xs) =
     (if emptyBranch \<or> (case other of None \<Rightarrow> False | Some o' \<Rightarrow> ikey x \<noteq> ikey o')
      then oneSided fm x # branch_trace fm other emptyBranch xs
      else
        (case other of
           Some o' \<Rightarrow>
             if idata x \<noteq> idata o' then
               [\<lparr>dkey = ikey x, dtype = DiffModified, firstItem = Some (if fm then x else o'),
                 secondItem = Some (if fm then o' else x)\<rparr>]
             else []
         | None \<Rightarrow> []) @ branch_trace fm other True xs)"

lemma branch_trace_empty: "branch_trace fm other True xs = map (oneSided fm) xs"
  by (induction xs) (auto split: option.splits)

lemma branch_leaves_feed:
  "(case feed (walkBranchLeaf emit other fm) xs (e, s) of
      (cont, (e', s')) \<Rightarrow>
        if cont then (case other of Some o' \<Rightarrow> if \<not> e' then emit (oneSided (\<not> fm) o') s' else (True, s') | None \<Rightarrow> (True, s'))
        else (False, s')) = feed emit (branch_trace fm other e xs) s"
proof (induction xs arbitrary: e s)
  case Nil
  show ?case by (cases other) (auto split: prod.splits)
next
  case (Cons x xs)
  show ?case using Cons.IH
    by (cases other) (auto simp: walkBranchLeaf_def Let_def split: prod.splits if_splits)
qed

lemma walkBranch_feed:
  assumes "node_ok H n" "nodes n \<le> fuel"
  shows "walkBranch fuel H sm n other fm emit s =
    apfst Inr (feed emit (branch_trace fm other (other = None) (rev (map fst (leaves n)))) s)"
proof -
  let ?v = "walkBranchLeaf emit other fm" and ?xs = "rev (map fst (leaves n))"
  have "walkBranchLoop fuel H sm ?v [n] (other = None, s) =
      (case feed ?v ?xs (other = None, s) of (cont, t) \<Rightarrow> if cont then (Inr True, t) else (Inr False, t))"
    using walkBranchLoop_feed[of H "[n]" "fuel - nodes n" sm ?v "[]" "(other = None, s)"] assms by (simp split: prod.splits)
  then show ?thesis
    unfolding branch_leaves_feed[symmetric] walkBranch_def
    by (auto split: prod.splits option.splits if_splits)
qed

text \<open>\<open>holds f xs\<close>: the items \<open>xs\<close>, with distinct keys, are the contents \<open>f\<close>.\<close>

definition holds :: "(hash256 \<Rightarrow> item option) \<Rightarrow> item list \<Rightarrow> bool" where
  "holds f xs \<longleftrightarrow> distinct (map ikey xs) \<and> (\<forall>k x. f k = Some x \<longleftrightarrow> x \<in> set xs \<and> ikey x = k)"

lemma holds_rev: "holds f (rev xs) \<longleftrightarrow> holds f xs"
  by (simp add: holds_def rev_map[symmetric])

lemma holds_None: "holds f xs \<Longrightarrow> f k = None \<longleftrightarrow> k \<notin> ikey ` set xs"
  unfolding holds_def by (metis (no_types, lifting) image_iff not_None_eq)

lemma oneSided_key [simp]: "dkey (oneSided b x) = ikey x"
  by (simp add: oneSided_def)

lemma diff_at_left:
  "diff_at k a None = Some d \<longleftrightarrow> (\<exists>x. a = Some x \<and> d = \<lparr>dkey = k, dtype = DiffRemoved, firstItem = Some x, secondItem = None\<rparr>)"
  by (cases a) auto

lemma diff_at_right:
  "diff_at k None b = Some d \<longleftrightarrow> (\<exists>y. b = Some y \<and> d = \<lparr>dkey = k, dtype = DiffAdded, firstItem = None, secondItem = Some y\<rparr>)"
  by (cases b) auto

lemma diffs_of_one_sided:
  assumes "holds f xs"
  shows "diffs_of f (\<lambda>_. None) (map (oneSided True) xs)" "diffs_of (\<lambda>_. None) f (map (oneSided False) xs)"
proof -
  have "distinct (map (\<lambda>x. dkey (oneSided b x)) xs)" for b using assms by (simp add: holds_def)
  moreover have "d \<in> oneSided True ` set xs \<longleftrightarrow> diff_at (dkey d) (f (dkey d)) None = Some d"
    "d \<in> oneSided False ` set xs \<longleftrightarrow> diff_at (dkey d) None (f (dkey d)) = Some d" for d
    using assms by (cases d; auto simp: diff_at_left diff_at_right holds_def oneSided_def image_iff)+
  ultimately show "diffs_of f (\<lambda>_. None) (map (oneSided True) xs)" "diffs_of (\<lambda>_. None) f (map (oneSided False) xs)"
    by (simp_all add: diffs_of_def o_def)
qed

text \<open>The same with the sides swapped when the walked branch belongs to the second map.\<close>

definition sided :: "bool \<Rightarrow> ('a \<Rightarrow> 'a \<Rightarrow> 'b) \<Rightarrow> 'a \<Rightarrow> 'a \<Rightarrow> 'b" where
  "sided fm r a b = (if fm then r a b else r b a)"

definition modified :: "bool \<Rightarrow> item \<Rightarrow> item \<Rightarrow> differenceItem list" where
  "modified fm x y =
     (if idata x \<noteq> idata y then
        [\<lparr>dkey = ikey x, dtype = DiffModified, firstItem = Some (if fm then x else y),
          secondItem = Some (if fm then y else x)\<rparr>]
      else [])"

lemma branch_trace_unmatched:
  "ikey y \<notin> ikey ` set xs \<Longrightarrow> branch_trace fm (Some y) False xs = map (oneSided fm) xs @ [oneSided (\<not> fm) y]"
  by (induction xs) auto

lemma branch_trace_matched:
  "ikey x = ikey y \<Longrightarrow> ikey y \<notin> ikey ` set as \<Longrightarrow>
     branch_trace fm (Some y) False (as @ x # bs) = map (oneSided fm) as @ modified fm x y @ map (oneSided fm) bs"
  by (induction as) (auto simp: branch_trace_empty modified_def)

lemma sided_diff_at_other:
  "sided fm (diff_at k) (Some x) None = Some d \<longleftrightarrow> ikey x = k \<and> d = oneSided fm x \<or> ikey x \<noteq> k \<and> d = (oneSided fm x)\<lparr>dkey := k\<rparr>"
  "sided fm (diff_at k) None (Some y) = Some d \<longleftrightarrow> ikey y = k \<and> d = oneSided (\<not> fm) y \<or> ikey y \<noteq> k \<and> d = (oneSided (\<not> fm) y)\<lparr>dkey := k\<rparr>"
  by (auto simp: sided_def oneSided_def)

lemma sided_diff_at_both:
  "ikey x = k \<Longrightarrow> sided fm (diff_at k) (Some x) (Some y) = Some d \<longleftrightarrow> d \<in> set (modified fm x y)"
  by (auto simp: sided_def modified_def)

lemma modified_key: "d \<in> set (modified fm x y) \<Longrightarrow> dkey d = ikey x"
  by (auto simp: modified_def split: if_splits)

lemma oneSided_keys: "d \<in> oneSided fm ` S \<Longrightarrow> dkey d \<in> ikey ` S"
  by (auto intro!: imageI)

lemma branch_trace_mem:
  assumes h: "holds f xs"
  shows "d \<in> set (branch_trace fm (Some y) False xs) \<longleftrightarrow>
    sided fm (diff_at (dkey d)) (f (dkey d)) (if dkey d = ikey y then Some y else None) = Some d"
proof -
  have one: "d \<in> oneSided fm ` {x \<in> set xs. ikey x \<noteq> ikey y} \<longleftrightarrow>
      sided fm (diff_at (dkey d)) (f (dkey d)) None = Some d" if k: "dkey d \<noteq> ikey y"
  proof (cases "f (dkey d)")
    case None
    then show ?thesis using holds_None[OF h, of "dkey d"] by (auto simp: sided_def)
  next
    case (Some x)
    then have x: "x \<in> set xs" "ikey x = dkey d" using h by (auto simp: holds_def)
    have "z = x" if z: "z \<in> set xs" "d = oneSided fm z" for z
    proof -
      have "f (ikey z) = Some z" using h z(1) by (simp add: holds_def)
      then show ?thesis using Some z(2) by simp
    qed
    moreover have "sided fm (diff_at (dkey d)) (f (dkey d)) None = Some d \<longleftrightarrow> d = oneSided fm x"
      unfolding Some sided_diff_at_other using x(2) by simp
    moreover have "x \<in> {x \<in> set xs. ikey x \<noteq> ikey y}" using x k by simp
    ultimately show ?thesis by blast
  qed
  show ?thesis
  proof (cases "f (ikey y)")
    case None
    then have n: "ikey y \<notin> ikey ` set xs" using holds_None[OF h] by blast
    have "ikey z \<noteq> ikey y" if "z \<in> set xs" for z using that n by (metis imageI)
    then have e: "{x \<in> set xs. ikey x \<noteq> ikey y} = set xs" by blast
    have "d \<in> set (branch_trace fm (Some y) False xs) \<longleftrightarrow> d \<in> oneSided fm ` set xs \<or> d = oneSided (\<not> fm) y"
      by (auto simp: branch_trace_unmatched[OF n])
    moreover have "d \<notin> oneSided fm ` set xs" if "dkey d = ikey y" using n oneSided_keys[of d fm "set xs"] that by auto
    moreover have "sided fm (diff_at (dkey d)) (f (dkey d)) (Some y) = Some d \<longleftrightarrow> d = oneSided (\<not> fm) y" if "dkey d = ikey y"
      unfolding that None sided_diff_at_other by simp
    moreover have "d \<noteq> oneSided (\<not> fm) y" if "dkey d \<noteq> ikey y" using that by auto
    ultimately show ?thesis using one[unfolded e] by (cases "dkey d = ikey y") simp_all
  next
    case (Some x)
    then have x: "x \<in> set xs" "ikey x = ikey y" using h by (auto simp: holds_def)
    obtain as bs where xs: "xs = as @ x # bs" using x(1) by (auto dest: split_list)
    have d: "ikey y \<notin> ikey ` set as" "ikey y \<notin> ikey ` set bs" using h xs x(2) by (auto simp: holds_def)
    have ne: "ikey z \<noteq> ikey y" if "z \<in> set as \<union> set bs" for z using that d by (metis UnE imageI)
    then have e: "{x \<in> set xs. ikey x \<noteq> ikey y} = set as \<union> set bs" using xs x(2) by auto
    have "d \<in> set (branch_trace fm (Some y) False xs) \<longleftrightarrow> d \<in> oneSided fm ` (set as \<union> set bs) \<or> d \<in> set (modified fm x y)"
      unfolding xs branch_trace_matched[OF x(2) d(1)] by auto
    moreover have "d \<notin> oneSided fm ` (set as \<union> set bs)" if "dkey d = ikey y" using d oneSided_keys[of d fm "set as \<union> set bs"] that by (auto simp: image_Un)
    moreover have "sided fm (diff_at (dkey d)) (f (dkey d)) (Some y) = Some d \<longleftrightarrow> d \<in> set (modified fm x y)" if "dkey d = ikey y"
      unfolding that Some by (rule sided_diff_at_both[OF x(2)])
    moreover have "d \<notin> set (modified fm x y)" if "dkey d \<noteq> ikey y" using that modified_key[of d fm x y] x(2) by auto
    ultimately show ?thesis using one[unfolded e] by (cases "dkey d = ikey y") simp_all
  qed
qed

lemma branch_trace_distinct:
  assumes h: "holds f xs"
  shows "distinct (map dkey (branch_trace fm (Some y) False xs))"
proof (cases "f (ikey y)")
  case None
  then have n: "ikey y \<notin> ikey ` set xs" using holds_None[OF h] by blast
  then show ?thesis using h by (simp add: branch_trace_unmatched[OF n] holds_def o_def)
next
  case (Some x)
  then have x: "x \<in> set xs" "ikey x = ikey y" using h by (auto simp: holds_def)
  obtain as bs where xs: "xs = as @ x # bs" using x(1) by (auto dest: split_list)
  have d: "ikey y \<notin> ikey ` set as" using h xs x(2) by (auto simp: holds_def)
  show ?thesis using h x(2) unfolding xs branch_trace_matched[OF x(2) d] by (auto simp: holds_def o_def modified_def)
qed

lemma diffs_of_branch:
  assumes "holds f xs"
  shows "diffs_of f [ikey y \<mapsto> y] (branch_trace True (Some y) False xs)"
    "diffs_of [ikey y \<mapsto> y] f (branch_trace False (Some y) False xs)"
  using branch_trace_mem[OF assms, of _ True y] branch_trace_mem[OF assms, of _ False y] branch_trace_distinct[OF assms]
  by (simp_all add: diffs_of_def sided_def fun_upd_def)

section \<open>The walk over pairs of nodes\<close>

text \<open>
  \<open>settles\<close>: the entries \<open>es\<close> on top of the stack are processed with \<open>k\<close> pops, emit the differences
  \<open>ds\<close> in this order, and leave the rest of the stack.
\<close>

definition settles ::
  "nat \<Rightarrow> (bytes \<Rightarrow> hash256) \<Rightarrow> shamap \<Rightarrow> shamap \<Rightarrow> (node \<times> node) list \<Rightarrow> nat \<Rightarrow> differenceItem list \<Rightarrow> bool" where
  "settles bfuel H sm other es k ds \<longleftrightarrow>
     (\<forall>(emit :: differenceItem \<Rightarrow> differenceSet \<Rightarrow> bool \<times> differenceSet) fuel st s.
        diffLoop (k + fuel) bfuel H sm other emit (es @ st) s =
          (case feed emit ds s of
             (cont, s) \<Rightarrow> if cont then diffLoop fuel bfuel H sm other emit st s else (Inr False, s)))"

lemma settles_Nil [simp]: "settles bfuel H sm other [] 0 []"
  by (simp add: settles_def)

lemma settles_append:
  assumes "settles bfuel H sm other es k ds" "settles bfuel H sm other es' k' ds'"
  shows "settles bfuel H sm other (es @ es') (k + k') (ds @ ds')"
  using assms by (auto simp: settles_def feed_append add.assoc split: prod.splits)

lemma settles_concat:
  "(\<And>i. i \<in> set is \<Longrightarrow> settles bfuel H sm other (E i) (K i) (D i)) \<Longrightarrow>
     settles bfuel H sm other (concat (map E is)) (\<Sum>i\<leftarrow>is. K i) (concat (map D is))"
  by (induction "is") (auto intro: settles_append)

text \<open>What \<open>diffInner\<close> emits and pushes for one branch.\<close>

definition side :: "node \<Rightarrow> node \<Rightarrow> nat \<Rightarrow> differenceItem list" where
  "side n m i =
     (case (children n ! i, children m ! i) of
        (None, Some b) \<Rightarrow> map (oneSided False) (rev (map fst (leaves b)))
      | (Some a, None) \<Rightarrow> map (oneSided True) (rev (map fst (leaves a)))
      | _ \<Rightarrow> [])"

definition pairs :: "node \<Rightarrow> node \<Rightarrow> nat \<Rightarrow> (node \<times> node) list" where
  "pairs n m i =
     (case (children n ! i, children m ! i) of
        (Some a, Some b) \<Rightarrow> if Hash a \<noteq> Hash b then [(a, b)] else []
      | _ \<Rightarrow> [])"

lemma nodes_child:
  assumes "weak_wf H d n" "i < 16" "children n ! i = Some c"
  shows "nodes c < nodes n"
proof -
  have "slot_nodes (children n ! i) \<le> (\<Sum>i\<leftarrow>[0..<16]. slot_nodes (children n ! i))"
    by (rule member_le_sum_list) (use assms(2) in \<open>auto simp del: upt_rec_numeral\<close>)
  then show ?thesis using assms(3) by (simp add: nodes_inner[OF assms(1)] del: upt_rec_numeral)
qed

lemma loadSide_resident: "weak_wf H d n \<Longrightarrow> i < 16 \<Longrightarrow> loadSide H sm n i = Inr (children n ! i)"
  using readChild_resident[of n H d i sm] by (simp add: loadSide_def LoadChild_def)

lemma LoadChild_resident:
  assumes "weak_wf H d n" "i < 16"
  shows "snd (snd (LoadChild n i)) \<longleftrightarrow> children n ! i \<noteq> None"
    "children n ! i = Some c \<Longrightarrow> liveHash (LoadChild n i) = Hash c"
  using bit_iff_child[OF assms] by (simp_all add: LoadChild_def liveHash_def)

lemma diffInner_feed:
  assumes w: "weak_wf H d n" "weak_wf H d m" and fuel: "nodes n + nodes m \<le> bfuel"
  shows "list_all (\<lambda>i. i < 16) is \<Longrightarrow>
    diffInner bfuel H sm other emit n m is acc s =
      (case feed emit (concat (map (side n m) is)) s of
         (cont, s) \<Rightarrow> (Inr (if cont then (acc @ concat (map (pairs n m) is), True) else ([], False)), s))"
proof (induction "is" arbitrary: acc s)
  case (Cons i "is")
  then have i: "i < 16" and IH: "\<And>acc s. diffInner bfuel H sm other emit n m is acc s =
      (case feed emit (concat (map (side n m) is)) s of
         (cont, s) \<Rightarrow> (Inr (if cont then (acc @ concat (map (pairs n m) is), True) else ([], False)), s))" by simp_all
  note res = loadSide_resident[OF w(1) i] loadSide_resident[OF w(2) i] LoadChild_resident[OF w(1) i] LoadChild_resident[OF w(2) i]
  have walk: "walkBranch bfuel H t c None b emit s = apfst Inr (feed emit (map (oneSided b) (rev (map fst (leaves c)))) s)"
    if "children n ! i = Some c \<or> children m ! i = Some c" for c b t s
  proof -
    have "node_ok H c" using that child_wf[OF w(1) i] child_wf[OF w(2) i] by blast
    moreover have "nodes c \<le> bfuel" using that nodes_child[OF w(1) i] nodes_child[OF w(2) i] fuel by fastforce
    ultimately show ?thesis by (simp add: walkBranch_feed branch_trace_empty)
  qed
  show ?case
  proof (cases "children n ! i"; cases "children m ! i")
    assume c: "children n ! i = None" "children m ! i = None"
    then have "side n m i = []" "pairs n m i = []" by (simp_all add: side_def pairs_def)
    then show ?thesis using c res by (simp add: IH split: prod.splits)
  next
    fix b assume c: "children n ! i = None" "children m ! i = Some b"
    then have "side n m i = map (oneSided False) (rev (map fst (leaves b)))" "pairs n m i = []"
      by (simp_all add: side_def pairs_def)
    then show ?thesis using c res walk[of b other False s]
      by (cases "feed emit (map (oneSided False) (rev (map fst (leaves b)))) s") (simp add: IH feed_append split: prod.splits)
  next
    fix a assume c: "children n ! i = Some a" "children m ! i = None"
    then have "side n m i = map (oneSided True) (rev (map fst (leaves a)))" "pairs n m i = []"
      by (simp_all add: side_def pairs_def)
    then show ?thesis using c res walk[of a sm True s]
      by (cases "feed emit (map (oneSided True) (rev (map fst (leaves a)))) s") (simp add: IH feed_append split: prod.splits)
  next
    fix a b assume c: "children n ! i = Some a" "children m ! i = Some b"
    then have "side n m i = []" "pairs n m i = (if Hash a \<noteq> Hash b then [(a, b)] else [])"
      by (simp_all add: side_def pairs_def)
    then show ?thesis using c res by (simp add: IH split: prod.splits)
  qed
qed simp

section \<open>Differences slot by slot\<close>

lemma diffs_of_mset: "diffs_of f g ds \<Longrightarrow> mset ds = mset ds' \<Longrightarrow> diffs_of f g ds'"
  unfolding diffs_of_def by (metis mset_eq_imp_distinct_iff mset_eq_setD mset_map)

lemma diff_at_dom: "diff_at k a b = Some d \<Longrightarrow> a \<noteq> None \<or> b \<noteq> None"
  by (cases a; cases b) auto

lemma diffs_of_slots:
  assumes parts: "\<And>i. i < n \<Longrightarrow> diffs_of (f i) (g i) (E i)"
    and dom: "\<And>i k. i < n \<Longrightarrow> f i k \<noteq> None \<or> g i k \<noteq> None \<Longrightarrow> slot k = i"
    and all: "\<And>k. slot k < (n :: nat)"
  shows "diffs_of (\<lambda>k. f (slot k) k) (\<lambda>k. g (slot k) k) (concat (map E [0..<n]))"
proof -
  have mem: "d \<in> set (E i) \<Longrightarrow> slot (dkey d) = i" if "i < n" for i d
    using parts[OF that] dom[OF that, of "dkey d"] diff_at_dom unfolding diffs_of_def by blast
  have "(\<exists>i<n. d \<in> set (E i)) \<longleftrightarrow> d \<in> set (E (slot (dkey d)))" for d using mem all by metis
  moreover have "d \<in> set (concat (map E [0..<n])) \<longleftrightarrow> (\<exists>i<n. d \<in> set (E i))" for d by auto
  ultimately have "d \<in> set (concat (map E [0..<n])) \<longleftrightarrow> d \<in> set (E (slot (dkey d)))" for d by blast
  then have "d \<in> set (concat (map E [0..<n])) \<longleftrightarrow>
      diff_at (dkey d) (f (slot (dkey d)) (dkey d)) (g (slot (dkey d)) (dkey d)) = Some d" for d
    using parts[OF all[of "dkey d"]] by (simp add: diffs_of_def)
  moreover have "distinct (map dkey (concat (map E [0..<j])))" if "j \<le> n" for j
    using that
  proof (induction j)
    case (Suc j)
    have "distinct (map dkey (E j))" using parts[of j] Suc.prems by (simp add: diffs_of_def)
    moreover have "k \<notin> dkey ` set (concat (map E [0..<j]))" if kj: "k \<in> dkey ` set (E j)" for k
    proof
      obtain a where a: "a \<in> set (E j)" "k = dkey a" using kj by blast
      assume "k \<in> dkey ` set (concat (map E [0..<j]))"
      then obtain i b where "i < j" "b \<in> set (E i)" "k = dkey b" by auto
      then show False using mem[of j a] mem[of i b] a Suc.prems by simp
    qed
    ultimately show ?case using Suc by (auto simp del: set_concat)
  qed simp
  ultimately show ?thesis unfolding diffs_of_def by blast
qed

abbreviation slot_item :: "node option \<Rightarrow> hash256 \<Rightarrow> item option" where
  "slot_item c k \<equiv> map_option fst (slot_look c k)"

lemma slot_item_digit:
  assumes "weak_wf H d n" "i < 16" "slot_item (children n ! i) k \<noteq> None"
  shows "nib k d = i"
  using look_child_iff[OF assms(1,2), of k] assms(3) by (auto split: if_splits)

lemma diffs_of_inner:
  assumes w: "weak_wf H d n" "weak_wf H d m"
    and parts: "\<And>i. i < 16 \<Longrightarrow> diffs_of (slot_item (children n ! i)) (slot_item (children m ! i)) (E i)"
    and ds: "mset ds = mset (concat (map E [0..<16]))"
  shows "diffs_of (look_item n) (look_item m) ds"
proof -
  have "diffs_of (\<lambda>k. slot_item (children n ! nib k d) k) (\<lambda>k. slot_item (children m ! nib k d) k) (concat (map E [0..<16]))"
    by (rule diffs_of_slots[where f = "\<lambda>i. slot_item (children n ! i)" and g = "\<lambda>i. slot_item (children m ! i)"])
      (use parts slot_item_digit[OF w(1)] slot_item_digit[OF w(2)] in \<open>auto simp del: not_None_eq\<close>)
  then have "diffs_of (look_item n) (look_item m) (concat (map E [0..<16]))"
    using look_inner[OF w(1)] look_inner[OF w(2)] by simp
  then show ?thesis by (rule diffs_of_mset) (rule ds[symmetric])
qed

lemma holds_look:
  assumes "distinct (map lkey (leaves n))"
  shows "holds (look_item n) (map fst (leaves n))"
proof -
  have "look_item n k = Some x \<longleftrightarrow> x \<in> fst ` set (leaves n) \<and> ikey x = k" for k x
  proof
    assume "look_item n k = Some x"
    then obtain y where "look n k = Some y" "x = fst y" by auto
    then show "x \<in> fst ` set (leaves n) \<and> ikey x = k" using look_Some_in by auto
  next
    assume "x \<in> fst ` set (leaves n) \<and> ikey x = k"
    then obtain y where y: "y \<in> set (leaves n)" "x = fst y" "lkey y = k" by auto
    then have "look n k = Some y" using assms by (auto simp: look_def o_def intro!: map_of_is_SomeI)
    then show "look_item n k = Some x" using y(2) by simp
  qed
  then have "\<forall>k x. look_item n k = Some x \<longleftrightarrow> x \<in> set (map fst (leaves n)) \<and> ikey x = k" unfolding set_map by blast
  moreover have "distinct (map ikey (map fst (leaves n)))" using assms by (simp add: o_def)
  ultimately show ?thesis unfolding holds_def by blast
qed

lemma node_holds: "node_wf H d n \<Longrightarrow> common_prefix d n \<Longrightarrow> holds (look_item n) (map fst (leaves n))"
  using leaves_sorted[of H d n] strict_sorted_iff by (blast intro: holds_look)

section \<open>The walk reports exactly the differences\<close>

lemma settles_leaves:
  assumes "\<not> is_inner n" "\<not> is_inner m"
  shows "\<exists>ds. settles bfuel H sm other [(n, m)] 1 ds \<and> diffs_of (look_item n) (look_item m) ds"
proof -
  let ?x = "Item n" and ?y = "Item m"
  let ?ds = "if ikey ?x = ikey ?y then modified True ?x ?y else [oneSided True ?x, oneSided False ?y]"
  have "settles bfuel H sm other [(n, m)] 1 ?ds"
    using assms by (auto simp: settles_def emitLeafDiff_def modified_def oneSided_def Let_def split: prod.splits)
  moreover have "diffs_of (look_item n) (look_item m) ?ds"
    using assms by (auto simp: diffs_of_def modified_def oneSided_def)
  ultimately show ?thesis by blast
qed

lemma settles_branch:
  assumes n: "node_wf H d n" "common_prefix d n" "nodes n + nodes m \<le> bfuel" and i: "is_inner n" "\<not> is_inner m"
  shows "\<exists>ds. settles bfuel H sm other [(n, m)] 1 ds \<and> diffs_of (look_item n) (look_item m) ds"
    "\<exists>ds. settles bfuel H sm other [(m, n)] 1 ds \<and> diffs_of (look_item m) (look_item n) ds"
proof -
  let ?ds = "\<lambda>b. branch_trace b (Some (Item m)) False (rev (map fst (leaves n)))"
  have w: "walkBranch bfuel H t n (Some (Item m)) b emit s = apfst Inr (feed emit (?ds b) s)"
    for t b and emit :: "differenceItem \<Rightarrow> differenceSet \<Rightarrow> bool \<times> differenceSet" and s
    using n by (subst walkBranch_feed) auto
  have "settles bfuel H sm other [(n, m)] 1 (?ds True)" "settles bfuel H sm other [(m, n)] 1 (?ds False)"
    using i by (auto simp: settles_def w split: prod.splits)
  moreover have h: "holds (look_item n) (rev (map fst (leaves n)))" using node_holds[OF n(1,2)] by (simp add: holds_rev)
  have "look_item m = [ikey (Item m) \<mapsto> Item m]" using i(2) by (auto simp: fun_eq_iff)
  then have "diffs_of (look_item n) (look_item m) (?ds True)" "diffs_of (look_item m) (look_item n) (?ds False)"
    using diffs_of_branch[OF h, of "Item m"] by simp_all
  ultimately show "\<exists>ds. settles bfuel H sm other [(n, m)] 1 ds \<and> diffs_of (look_item n) (look_item m) ds"
    "\<exists>ds. settles bfuel H sm other [(m, n)] 1 ds \<and> diffs_of (look_item m) (look_item n) ds" by blast+
qed

lemma rev_pairs: "rev (concat (map (pairs n m) is)) = concat (map (pairs n m) (rev is))"
proof -
  have "rev (pairs n m i) = pairs n m i" for i by (simp add: pairs_def split: option.splits)
  then show ?thesis by (simp add: rev_concat rev_map o_def)
qed

lemma settles_inner:
  assumes w: "weak_wf H d n" "weak_wf H d m" and fuel: "nodes n + nodes m \<le> bfuel"
    and parts: "\<And>i. i < 16 \<Longrightarrow> settles bfuel H sm other (pairs n m i) (K i) (D i)"
  shows "settles bfuel H sm other [(n, m)] (Suc (\<Sum>i\<leftarrow>rev [0..<16]. K i))
    (concat (map (side n m) [0..<16]) @ concat (map D (rev [0..<16])))"
proof -
  have "settles bfuel H sm other (concat (map (pairs n m) (rev [0..<16]))) (\<Sum>i\<leftarrow>rev [0..<16]. K i) (concat (map D (rev [0..<16])))"
    using parts by (intro settles_concat) simp
  moreover have "diffInner bfuel H sm other emit n m [0..<16] [] s =
      (case feed emit (concat (map (side n m) [0..<16])) s of
         (cont, s) \<Rightarrow> (Inr (if cont then (concat (map (pairs n m) [0..<16]), True) else ([], False)), s))"
    for emit :: "differenceItem \<Rightarrow> differenceSet \<Rightarrow> bool \<times> differenceSet" and s
    using diffInner_feed[OF w fuel, of "[0..<16]" sm other emit "[]" s] unfolding append_Nil by (simp add: list_all_iff del: upt_rec_numeral)
  ultimately show ?thesis using w
    by (simp add: settles_def feed_append rev_pairs del: upt_rec_numeral split: prod.splits)
qed

lemma diffs_of_side:
  assumes w: "weak_wf H d n" "weak_wf H d m" "common_prefix d n" "common_prefix d m" and i: "i < 16"
    and one: "children n ! i = None \<or> children m ! i = None"
  shows "diffs_of (slot_item (children n ! i)) (slot_item (children m ! i)) (side n m i)"
proof -
  have h: "holds (look_item c) (rev (map fst (leaves c)))" if "children n ! i = Some c \<or> children m ! i = Some c" for c
    using that node_holds[OF child_wf[OF w(1) i] common_prefix_child[OF w(1) i _ w(3)]]
      node_holds[OF child_wf[OF w(2) i] common_prefix_child[OF w(2) i _ w(4)]] by (auto simp: holds_rev)
  consider "children n ! i = None" "children m ! i = None" | c where "children n ! i = None" "children m ! i = Some c"
    | c where "children n ! i = Some c" "children m ! i = None" using one by blast
  then show ?thesis
  proof cases
    case 1
    then show ?thesis by (simp add: side_def diffs_of_same)
  next
    case (2 c)
    then show ?thesis using diffs_of_one_sided(2)[OF h[of c]] by (simp add: side_def)
  next
    case (3 c)
    then show ?thesis using diffs_of_one_sided(1)[OF h[of c]] by (simp add: side_def)
  qed
qed

text \<open>The hashing assumptions between two trees, as in \<open>root_hash_binds_contents\<close>.\<close>

definition hashes_bind :: "(bytes \<Rightarrow> hash256) \<Rightarrow> node \<Rightarrow> node \<Rightarrow> bool" where
  "hashes_bind H n m \<longleftrightarrow> no_collision H n m \<and> nonzero_hashes H n \<and> nonzero_hashes H m \<and> tx_keys_ok H n \<and> tx_keys_ok H m"

lemma hashes_bind_child:
  assumes w: "weak_wf H d n" "weak_wf H d m" and i: "i < 16" "children n ! i = Some a" "children m ! i = Some b"
    and h: "hashes_bind H n m"
  shows "hashes_bind H a b"
  using h nonzero_child[OF w(1) _ i(1,2)] nonzero_child[OF w(2) _ i(1,3)] tx_keys_child[OF w(1) i(1,2)] tx_keys_child[OF w(2) i(1,3)]
    preimages_slot[OF w(1) i(1,2)] preimages_slot[OF w(2) i(1,3)]
  by (auto simp: hashes_bind_def no_collision_def list_all_iff)

lemma mset_two_runs:
  "mset (concat (map f is) @ concat (map g (rev is))) = mset (concat (map (\<lambda>i. f i @ g i) is))"
  by (induction "is") (simp_all add: ac_simps)

definition settled :: "nat \<Rightarrow> (bytes \<Rightarrow> hash256) \<Rightarrow> shamap \<Rightarrow> shamap \<Rightarrow> node \<Rightarrow> node \<Rightarrow> bool" where
  "settled bfuel H sm other n m \<longleftrightarrow>
     (\<exists>k ds. k \<le> nodes n \<and> settles bfuel H sm other [(n, m)] k ds \<and> diffs_of (look_item n) (look_item m) ds)"

lemma settled_slot:
  assumes w: "weak_wf H d n" "weak_wf H d m" "common_prefix d n" "common_prefix d m" and i: "i < 16"
    and h: "hashes_bind H n m"
    and IH: "\<And>a b. children n ! i = Some a \<Longrightarrow> children m ! i = Some b \<Longrightarrow> settled bfuel H sm other a b"
  shows "\<exists>k ds. k \<le> slot_nodes (children n ! i) \<and> settles bfuel H sm other (pairs n m i) k ds \<and>
    diffs_of (slot_item (children n ! i)) (slot_item (children m ! i)) (side n m i @ ds)"
proof (cases "children n ! i = None \<or> children m ! i = None")
  case True
  then have "pairs n m i = []" by (auto simp: pairs_def split: option.splits)
  then show ?thesis using diffs_of_side[OF w i True] by (intro exI[of _ 0] exI[of _ "[]"]) simp
next
  case False
  then obtain a b where ab: "children n ! i = Some a" "children m ! i = Some b" by auto
  have s: "side n m i = []" by (simp add: side_def ab)
  show ?thesis
  proof (cases "Hash a = Hash b")
    case True
    have "leaves a = leaves b"
      using hashes_bind_child[OF w(1,2) i ab h] True
        same_hash_same_leaves[OF child_wf[OF w(1) i ab(1)] child_wf[OF w(2) i ab(2)]] by (simp add: hashes_bind_def)
    then have "look a = look b" by (simp add: look_def fun_eq_iff)
    then show ?thesis using s ab True diffs_of_same[of "look_item a" "look_item b"]
      by (intro exI[of _ 0] exI[of _ "[]"]) (simp add: pairs_def)
  next
    case False
    then show ?thesis using IH[OF ab] s ab by (simp add: pairs_def settled_def)
  qed
qed

lemma pair_settled:
  "\<lbrakk>node_wf H d n; node_wf H d m; common_prefix d n; common_prefix d m; hashes_bind H n m; nodes n + nodes m \<le> bfuel\<rbrakk>
     \<Longrightarrow> settled bfuel H sm other n m"
proof (induction H d n arbitrary: m rule: node_wf.induct)
  case (1 H d n)
  note p = "1.prems"
  consider "\<not> is_inner n" "\<not> is_inner m" | "is_inner n" "\<not> is_inner m" | "\<not> is_inner n" "is_inner m"
    | "is_inner n" "is_inner m" by blast
  then show ?case
  proof cases
    case 1
    then show ?thesis using settles_leaves[OF 1, of bfuel H sm other] unfolding settled_def by (metis nodes_leaf order_refl)
  next
    case 2
    then show ?thesis using settles_branch(1)[OF p(1,3,6) 2, of sm other] nodes_pos[of n]
      unfolding settled_def by (metis One_nat_def Suc_leI)
  next
    case 3
    then have "nodes m + nodes n \<le> bfuel" using p(6) by simp
    from settles_branch(2)[OF p(2,4) this 3(2,1), of sm other] show ?thesis using nodes_pos[of n]
      unfolding settled_def by (metis One_nat_def Suc_leI)
  next
    case 4
    have w: "weak_wf H d n" "weak_wf H d m" using p 4 node_wf_weak by blast+
    have len: "length (children n) = 16" using w(1) by (simp add: inner_ok_def)
    have IH: "settled bfuel H sm other a b" if i: "i < 16" and ab: "children n ! i = Some a" "children m ! i = Some b" for i a b
    proof (rule "1.IH"[OF 4(1) len i ab(1)])
      show "node_wf H (Suc d) a" "node_wf H (Suc d) b" using child_wf[OF w(1) i ab(1)] child_wf[OF w(2) i ab(2)] .
      show "common_prefix (Suc d) a" "common_prefix (Suc d) b"
        using common_prefix_child[OF w(1) i ab(1) p(3)] common_prefix_child[OF w(2) i ab(2) p(4)] .
      show "hashes_bind H a b" by (rule hashes_bind_child[OF w i ab p(5)])
      show "nodes a + nodes b \<le> bfuel" using nodes_child[OF w(1) i ab(1)] nodes_child[OF w(2) i ab(2)] p(6) by linarith
    qed
    have "\<forall>i\<in>{..<16}. \<exists>k ds. k \<le> slot_nodes (children n ! i) \<and> settles bfuel H sm other (pairs n m i) k ds \<and>
        diffs_of (slot_item (children n ! i)) (slot_item (children m ! i)) (side n m i @ ds)"
      using settled_slot[OF w p(3,4) _ p(5) IH] by simp
    then obtain K D where KD: "\<And>i. i < 16 \<Longrightarrow> K i \<le> slot_nodes (children n ! i)"
        "\<And>i. i < 16 \<Longrightarrow> settles bfuel H sm other (pairs n m i) (K i) (D i)"
        "\<And>i. i < 16 \<Longrightarrow> diffs_of (slot_item (children n ! i)) (slot_item (children m ! i)) (side n m i @ D i)"
      unfolding bchoice_iff by auto
    let ?ds = "concat (map (side n m) [0..<16]) @ concat (map D (rev [0..<16]))"
    have "settles bfuel H sm other [(n, m)] (Suc (\<Sum>i\<leftarrow>rev [0..<16]. K i)) ?ds"
      by (rule settles_inner[OF w p(6) KD(2)])
    moreover have "(\<Sum>i\<leftarrow>rev [0..<16]. K i) \<le> (\<Sum>i\<leftarrow>[0..<16]. slot_nodes (children n ! i))"
      unfolding rev_map[symmetric] sum_list_rev by (rule sum_list_mono) (use KD(1) in simp)
    moreover have "diffs_of (look_item n) (look_item m) ?ds"
      by (rule diffs_of_inner[OF w KD(3) mset_two_runs])
    ultimately show ?thesis unfolding settled_def nodes_inner[OF w(1)] by (meson Suc_le_mono)
  qed
qed

lemma feed_collect:
  assumes "emit = (\<lambda>diff result. let result = addDifference result (dkey diff) (dtype diff) (firstItem diff) (secondItem diff)
      in (maxCount \<le> 0 \<or> int (Len result) < maxCount, result))"
  shows "maxCount \<le> 0 \<or> int (length xs) < maxCount \<Longrightarrow>
    feed emit ds \<lparr>differences = xs, complete = c\<rparr> =
      (maxCount \<le> 0 \<or> int (length (xs @ ds)) < maxCount,
       \<lparr>differences = if maxCount \<le> 0 then xs @ ds else take (nat maxCount) (xs @ ds), complete = c\<rparr>)"
proof (induction ds arbitrary: xs)
  case (Cons d ds)
  have e: "emit d \<lparr>differences = xs, complete = c\<rparr> =
      (maxCount \<le> 0 \<or> int (length (xs @ [d])) < maxCount, \<lparr>differences = xs @ [d], complete = c\<rparr>)"
    by (simp add: assms addDifference_def Len_def Let_def)
  show ?case
  proof (cases "maxCount \<le> 0 \<or> int (length (xs @ [d])) < maxCount")
    case True
    then show ?thesis using Cons.IH[OF True] e by (simp add: assms)
  next
    case False
    then have m: "nat maxCount = Suc (length xs)" "0 < maxCount" using Cons.prems by auto
    then show ?thesis using e False by (simp add: assms)
  qed
qed auto

lemma reachable_valid: "reachable H mt sm \<Longrightarrow> mstate sm \<noteq> stateInvalid"
proof (induction rule: reachable.induct)
  case (put sm k d sm')
  then show ?case using put_cachedSize[of H sm] reachable_inv[of H mt sm] by (auto simp: Put_unfold)
next
  case (put_typed sm k d nt sm')
  then show ?case using put_cachedSize[of H sm] reachable_inv[of H mt sm] by (auto simp: PutWithNodeType_unfold)
next
  case (delete sm fuel k sm')
  then show ?case using delete_Inr[of H sm fuel k sm'] reachable_inv[of H mt sm] by auto
next
  case (atomic sm items e sm')
  then show ?case by (auto simp: PutItemsAtomically_def split: if_splits sum.splits)
next
  case (snapshot sm m sm')
  then show ?case by (auto simp: snapshotLocked_def Let_def split: if_splits)
next
  case (count sm fuel c sm')
  then show ?case using Size_keeps[of fuel H sm c sm'] by simp
qed (auto simp: New_def SetImmutable_def SetLedgerSeq_def split: if_splits)

definition lookup :: "(bytes \<Rightarrow> hash256) \<Rightarrow> shamap \<Rightarrow> hash256 \<Rightarrow> item option" where
  "lookup H sm k = (case Get H sm k of Inr (it, _) \<Rightarrow> it | Inl _ \<Rightarrow> None)"

lemma lookup_look: "map_wf H sm \<Longrightarrow> lookup H sm = look_item (root sm)"
  by (simp add: lookup_def Get_look fun_eq_iff)

section \<open>Properties\<close>

text \<open>
  C14.  Comparing two maps reports exactly their differences.  For any two maps the package's operations
  produce, and fuel for the nodes of both trees, there is one list of differences, with one entry for
  each key at which the two maps hold different data (added, removed or modified, with the items of both
  sides) and no other entry, such that \<open>CompareContext\<close> returns this whole list when \<open>maxCount\<close> is zero or
  negative and its first \<open>maxCount\<close> entries otherwise; the result is marked complete exactly if
  \<open>maxCount\<close> is not positive or is larger than the number of differences.  This holds although subtrees with
  equal hashes are skipped, provided that the preimages hashed in the two trees do not collide or hash to
  zero and transaction leaves without metadata are keyed by their transaction hash.
\<close>

theorem CompareContext_exact:
  assumes r: "reachable H mt sm" "reachable H mt' other" and h: "hashes_bind H (root sm) (root other)"
    and fuel: "nodes (root sm) + nodes (root other) \<le> fuel"
  shows "\<exists>ds. diffs_of (lookup H sm) (lookup H other) ds \<and>
    (\<forall>maxCount. CompareContext fuel H sm (Some other) maxCount =
       Inr \<lparr>differences = if maxCount \<le> 0 then ds else take (nat maxCount) ds,
            complete = (maxCount \<le> 0 \<or> int (length ds) < maxCount)\<rparr>)"
proof -
  have w: "map_wf H sm" "map_wf H other" using r reachable_inv by blast+
  then have n: "node_wf H 0 (root sm)" "node_wf H 0 (root other)" by (simp_all add: map_wf_def)
  have v: "mstate sm \<noteq> stateInvalid" "mstate other \<noteq> stateInvalid" using r reachable_valid by blast+
  show ?thesis
  proof (cases "Hash (root sm) = Hash (root other)")
    case True
    have "leaves (root sm) = leaves (root other)"
      using same_hash_same_leaves[OF n True] h by (simp add: hashes_bind_def)
    then have "diffs_of (lookup H sm) (lookup H other) []"
      by (intro diffs_of_same) (simp add: lookup_look[OF w(1)] lookup_look[OF w(2)] look_def)
    then show ?thesis using True v by (intro exI[of _ "[]"]) (auto simp: CompareContext_def diffUnsafe_def)
  next
    case False
    obtain k ds where k: "k \<le> nodes (root sm)" "settles fuel H sm other [(root sm, root other)] k ds"
      "diffs_of (look_item (root sm)) (look_item (root other)) ds"
      using pair_settled[OF n _ _ h fuel, of sm other] by (auto simp: settled_def)
    have "CompareContext fuel H sm (Some other) maxCount =
        Inr \<lparr>differences = if maxCount \<le> 0 then ds else take (nat maxCount) ds,
             complete = (maxCount \<le> 0 \<or> int (length ds) < maxCount)\<rparr>" for maxCount
    proof -
      define emit where "emit = (\<lambda>(diff :: differenceItem) result.
          let result = addDifference result (dkey diff) (dtype diff) (firstItem diff) (secondItem diff)
          in (maxCount \<le> 0 \<or> int (Len result) < maxCount, result))"
      have "diffLoop (k + (fuel - k)) fuel H sm other emit ([(root sm, root other)] @ []) \<lparr>differences = [], complete = True\<rparr> =
          apfst Inr (feed emit ds \<lparr>differences = [], complete = True\<rparr>)"
        using k(2)[unfolded settles_def] by (simp split: prod.splits)
      then have "diffUnsafe fuel H sm other emit \<lparr>differences = [], complete = True\<rparr> =
          apfst Inr (feed emit ds \<lparr>differences = [], complete = True\<rparr>)"
        using False fuel k(1) by (simp add: diffUnsafe_def)
      then show ?thesis using v feed_collect[OF emit_def, of "[]" ds True]
        by (cases "maxCount \<le> 0") (simp_all add: CompareContext_def emit_def)
    qed
    then show ?thesis using k(3) lookup_look[OF w(1)] lookup_look[OF w(2)] by auto
  qed
qed

lemma diffs_of_single:
  assumes "diffs_of f g ds" "diffs_of f g [d]"
  shows "ds = [d]"
proof -
  have "set ds = {d}" using assms by (auto simp: diffs_of_def)
  moreover have "distinct ds" using assms(1) by (simp add: diffs_of_def distinct_map)
  ultimately have "length ds = card {d}" by (metis distinct_card)
  then obtain e where "ds = [e]" by (auto simp: length_Suc_conv)
  then show ?thesis using \<open>set ds = {d}\<close> by simp
qed

theorem CompareContext_exact_witness:
  "\<exists>s fuel ds. Put len_hash (New TypeState) 5 (replicate 12 1) = Inr s \<and>
     CompareContext fuel len_hash s (Some (New TypeState)) 0 = Inr ds \<and>
     map dkey (differences ds) = [5] \<and> complete ds"
proof -
  obtain s where s: "Put len_hash (New TypeState) 5 (replicate 12 1) = Inr s" "reachable len_hash TypeState s"
    "nonzero_hashes len_hash (root s)" "tx_keys_ok len_hash (root s)" "no_collision len_hash (root s) (root s)"
    "look (root s) = [5 \<mapsto> (\<lparr>ikey = 5, idata = replicate 12 1\<rparr>, leafAccountState)]" by (rule one_leaf_map)
  obtain s' where s': "Put len_hash (New TypeState) 5 (replicate 12 1) = Inr s'" "reachable len_hash TypeState s'"
    "items s' = [\<lparr>ikey = 5, idata = replicate 12 1\<rparr>]" by (rule single_item_map)
  then have it: "items s = [\<lparr>ikey = 5, idata = replicate 12 1\<rparr>]" using s(1) by simp
  have w: "map_wf len_hash s" using reachable_inv[OF s(2)] by blast
  have "preimages newInnerNode = []" by (simp add: newInnerNode_def map_replicate_const)
  then have h: "hashes_bind len_hash (root s) (root (New TypeState))"
    using s(3,4) by (simp add: hashes_bind_def no_collision_def nonzero_hashes_def tx_keys_ok_def list_all_iff)
  obtain ds where ds: "diffs_of (lookup len_hash s) (lookup len_hash (New TypeState)) ds"
    "\<forall>maxCount. CompareContext (nodes (root s) + nodes (root (New TypeState))) len_hash s (Some (New TypeState)) maxCount =
       Inr \<lparr>differences = if maxCount \<le> 0 then ds else take (nat maxCount) ds,
            complete = (maxCount \<le> 0 \<or> int (length ds) < maxCount)\<rparr>"
    using CompareContext_exact[OF s(2) reachable.new h order_refl] by blast
  have "diffs_of (lookup len_hash s) (\<lambda>_. None) (map (oneSided True) (items s))"
    using diffs_of_one_sided(1)[OF node_holds[of len_hash 0 "root s"]] w by (simp add: lookup_look map_wf_def)
  moreover have "lookup len_hash (New TypeState) = (\<lambda>_. None)" by (simp add: lookup_look[OF New_wf] fun_eq_iff)
  ultimately have "ds = [oneSided True \<lparr>ikey = 5, idata = replicate 12 1\<rparr>]" using ds(1) it by (auto intro: diffs_of_single)
  then show ?thesis using ds(2) s(1) by (auto intro!: exI[of _ "nodes (root s) + nodes (root (New TypeState))"])
qed

end
