(* ===== verification/Fee_Metrics.thy ===== *)
theory Fee_Metrics
  imports Xrpl_Prelude
begin

text \<open>
  Fee escalation of the transaction queue, \<^verbatim>\<open>src/internal/txq/{fee,config}.go\<close>: fee levels, the
  saturating multiply-divide, the metrics that are updated with every closed ledger, and the
  escalated fee level of one transaction or of a series.  All \<^verbatim>\<open>uint32\<close> and \<^verbatim>\<open>uint64\<close> values keep their
  width; the indices of the circular buffer are natural numbers.
\<close>

section \<open>Configuration\<close>

type_synonym FeeLevel = u64

record Config =
  LedgersInQueue :: u32
  QueueSizeMin :: u32
  RetrySequencePercent :: u32
  MinimumEscalationMultiplier :: u64
  MinimumTxnInLedger :: u32
  MinimumTxnInLedgerStandalone :: u32
  TargetTxnInLedger :: u32
  MaximumTxnInLedger :: u32
  MaximumTxnInLedgerSet :: bool
  NormalConsensusIncreasePercent :: u32
  SlowConsensusDecreasePercent :: u32
  MaximumTxnPerAccount :: u32
  MinimumLastLedgerBuffer :: u32
  Standalone :: bool

definition BaseLevel :: u64 where "BaseLevel = 256"

definition maxLedgersInQueue :: u32 where "maxLedgersInQueue = 1048576"

datatype config_error =
    LedgersInQueueZero | LedgersInQueueTooLarge | MinimumExceedsMaximum u32 u32 | StandaloneMinimumExceedsMaximum u32 u32

definition normalize :: "Config \<Rightarrow> config_error + Config" where
  "normalize c =
     (if LedgersInQueue c = 0 then Inl LedgersInQueueZero
      else if LedgersInQueue c > maxLedgersInQueue then Inl LedgersInQueueTooLarge
      else
        let effectiveMin = (if Standalone c then MinimumTxnInLedgerStandalone c else MinimumTxnInLedger c);
            c = (if TargetTxnInLedger c < effectiveMin then c\<lparr>TargetTxnInLedger := effectiveMin\<rparr> else c);
            c = (if MaximumTxnInLedger c \<noteq> 0 then c\<lparr>MaximumTxnInLedgerSet := True\<rparr> else c)
        in if MaximumTxnInLedgerSet c \<and> MaximumTxnInLedger c < MinimumTxnInLedger c then
             Inl (MinimumExceedsMaximum (MinimumTxnInLedger c) (MaximumTxnInLedger c))
           else if MaximumTxnInLedgerSet c \<and> MaximumTxnInLedger c < MinimumTxnInLedgerStandalone c then
             Inl (StandaloneMinimumExceedsMaximum (MinimumTxnInLedgerStandalone c) (MaximumTxnInLedger c))
           else
             let c = (if MaximumTxnInLedgerSet c \<and> MaximumTxnInLedger c < TargetTxnInLedger c
                      then c\<lparr>MaximumTxnInLedger := TargetTxnInLedger c\<rparr> else c);
                 c = (if NormalConsensusIncreasePercent c > 1000
                      then c\<lparr>NormalConsensusIncreasePercent := 1000\<rparr> else c);
                 c = (if SlowConsensusDecreasePercent c > 100
                      then c\<lparr>SlowConsensusDecreasePercent := 100\<rparr> else c)
             in Inr c)"

definition Validate :: "Config \<Rightarrow> config_error option" where
  "Validate c = (case normalize c of Inl e \<Rightarrow> Some e | Inr _ \<Rightarrow> None)"

definition DefaultConfig :: Config where
  "DefaultConfig =
     \<lparr>LedgersInQueue = 20, QueueSizeMin = 2000, RetrySequencePercent = 25,
      MinimumEscalationMultiplier = BaseLevel * 500, MinimumTxnInLedger = 32,
      MinimumTxnInLedgerStandalone = 1000, TargetTxnInLedger = 256, MaximumTxnInLedger = 0,
      MaximumTxnInLedgerSet = False, NormalConsensusIncreasePercent = 20,
      SlowConsensusDecreasePercent = 50, MaximumTxnPerAccount = 10, MinimumLastLedgerBuffer = 2,
      Standalone = False\<rparr>"

definition StandaloneConfig :: Config where
  "StandaloneConfig = DefaultConfig\<lparr>Standalone := True\<rparr>"

section \<open>Fee levels\<close>

text \<open>\<open>Mul64\<close> and \<open>Div64\<close> of \<^verbatim>\<open>math/bits\<close>: the 128-bit product as two words, and the quotient of a two-word number.\<close>

definition Mul64 :: "u64 \<Rightarrow> u64 \<Rightarrow> u64 \<times> u64" where
  "Mul64 a b = (let p = unat a * unat b in (of_nat (p div 2 ^ 64), of_nat (p mod 2 ^ 64)))"

definition Div64 :: "u64 \<Rightarrow> u64 \<Rightarrow> u64 \<Rightarrow> u64 \<times> u64" where
  "Div64 hi lo y = (let n = unat hi * 2 ^ 64 + unat lo in (of_nat (n div unat y), of_nat (n mod unat y)))"

definition mulDiv :: "u64 \<Rightarrow> u64 \<Rightarrow> u64 \<Rightarrow> u64" where
  "mulDiv a b c =
     (if c = 0 then NOT 0
      else
        let (hi, lo) = Mul64 a b in
        if hi \<ge> c then NOT 0
        else fst (Div64 hi lo c))"

definition ToFeeLevelWithDefaultBaseFee :: "u64 \<Rightarrow> u64 \<Rightarrow> u64 \<Rightarrow> FeeLevel" where
  "ToFeeLevelWithDefaultBaseFee drops baseFee defaultBaseFee =
     (let (drops, baseFee) =
        (if baseFee = 0 then
           let modifier = (if defaultBaseFee = 0 then 1 else defaultBaseFee)
           in (drops + modifier, modifier)
         else (drops, baseFee))
      in mulDiv drops BaseLevel baseFee)"

definition ToFeeLevel :: "u64 \<Rightarrow> u64 \<Rightarrow> FeeLevel" where
  "ToFeeLevel drops baseFee = ToFeeLevelWithDefaultBaseFee drops baseFee 0"

definition ToDrops :: "FeeLevel \<Rightarrow> u64 \<Rightarrow> u64" where
  "ToDrops f baseFee = mulDiv f baseFee BaseLevel"

section \<open>Metrics\<close>

record feeMetrics =
  minimumTxnCount :: u64
  targetTxnCount :: u64
  maximumTxnCount :: u64
  hasMaximumTxnCount :: bool
  txnsExpected :: u64
  recentTxnCounts :: "u64 list"
  recentIndex :: nat
  recentSize :: nat
  recentCapacity :: nat
  escalationMultiplier :: u64

definition newFeeMetrics :: "Config \<Rightarrow> feeMetrics" where
  "newFeeMetrics cfg =
     (let minTxn = (if Standalone cfg then MinimumTxnInLedgerStandalone cfg else MinimumTxnInLedger cfg);
          targetTxn = max (TargetTxnInLedger cfg) minTxn;
          maxTxn = MaximumTxnInLedger cfg;
          maxTxn = (if maxTxn \<noteq> 0 \<and> maxTxn < targetTxn then targetTxn else maxTxn);
          ledgersInQueue = LedgersInQueue cfg
      in \<lparr>minimumTxnCount = ucast minTxn, targetTxnCount = ucast targetTxn,
          maximumTxnCount = ucast maxTxn, hasMaximumTxnCount = MaximumTxnInLedgerSet cfg,
          txnsExpected = ucast minTxn, recentTxnCounts = replicate (unat ledgersInQueue) 0,
          recentIndex = 0, recentSize = 0, recentCapacity = unat ledgersInQueue,
          escalationMultiplier = MinimumEscalationMultiplier cfg\<rparr>)"

record feeMetricsSnapshot =
  TxnsExpected :: u64
  EscalationMultiplier :: u64

definition snapshot :: "feeMetrics \<Rightarrow> feeMetricsSnapshot" where
  "snapshot fm = \<lparr>TxnsExpected = txnsExpected fm, EscalationMultiplier = escalationMultiplier fm\<rparr>"

definition addRecentCount :: "feeMetrics \<Rightarrow> u64 \<Rightarrow> feeMetrics" where
  "addRecentCount fm count =
     (if recentCapacity fm = 0 then fm
      else
        let fm = fm\<lparr>recentTxnCounts := (recentTxnCounts fm)[recentIndex fm := count]\<rparr>;
            fm = fm\<lparr>recentIndex := (recentIndex fm + 1) mod recentCapacity fm\<rparr>
        in if recentSize fm < recentCapacity fm then fm\<lparr>recentSize := recentSize fm + 1\<rparr> else fm)"

definition maxRecentCount :: "feeMetrics \<Rightarrow> u64" where
  "maxRecentCount fm =
     (if recentSize fm = 0 then 0
      else fold (\<lambda>i m. if recentTxnCounts fm ! i > m then recentTxnCounts fm ! i else m)
             [0..<recentSize fm] 0)"

text \<open>\<open>update\<close> in the two parts of its body: the expected count, then the escalation multiplier.\<close>

definition updateExpected :: "feeMetrics \<Rightarrow> u64 \<Rightarrow> bool \<Rightarrow> Config \<Rightarrow> feeMetrics" where
  "updateExpected fm sz timeLeap cfg =
     (if timeLeap then
        let cutPct = ucast (100 - SlowConsensusDecreasePercent cfg);
            upperLimit = max (mulDiv (txnsExpected fm) cutPct 100) (minimumTxnCount fm);
            newExpected = min (max (mulDiv sz cutPct 100) (minimumTxnCount fm)) upperLimit
        in fm\<lparr>txnsExpected := newExpected, recentSize := 0, recentIndex := 0\<rparr>
      else if sz > txnsExpected fm \<or> sz > targetTxnCount fm then
        let increased = mulDiv sz (100 + ucast (NormalConsensusIncreasePercent cfg)) 100;
            fm = addRecentCount fm increased;
            maxRecent = maxRecentCount fm;
            next = (if maxRecent \<ge> txnsExpected fm then maxRecent
                    else (txnsExpected fm * 9 + maxRecent) div 10);
            next = (if hasMaximumTxnCount fm \<and> next > maximumTxnCount fm then maximumTxnCount fm else next)
        in fm\<lparr>txnsExpected := next\<rparr>
      else fm)"

definition updateMultiplier :: "feeMetrics \<Rightarrow> FeeLevel list \<Rightarrow> Config \<Rightarrow> feeMetrics" where
  "updateMultiplier fm levels cfg =
     (let count = length levels in
      if count = 0 then fm\<lparr>escalationMultiplier := MinimumEscalationMultiplier cfg\<rparr>
      else
        let median = (levels ! (count div 2) + levels ! ((count - 1) div 2) + 1) div 2
        in fm\<lparr>escalationMultiplier := max median (MinimumEscalationMultiplier cfg)\<rparr>)"

definition update :: "feeMetrics \<Rightarrow> FeeLevel list \<Rightarrow> u64 \<Rightarrow> bool \<Rightarrow> Config \<Rightarrow> u64 \<times> feeMetrics" where
  "update fm feeLevels sz timeLeap cfg =
     (let levels = sort feeLevels;
          fm = updateExpected fm sz timeLeap cfg;
          fm = updateMultiplier fm levels cfg
      in (sz, fm))"

section \<open>Escalation\<close>

definition scaleFeeLevel :: "feeMetricsSnapshot \<Rightarrow> u32 \<Rightarrow> FeeLevel" where
  "scaleFeeLevel s txInLedger =
     (if ucast txInLedger \<le> TxnsExpected s then BaseLevel
      else
        let current = ucast txInLedger; target = TxnsExpected s
        in mulDiv (EscalationMultiplier s) (current * current) (target * target))"

definition sumOfSquares :: "u64 \<Rightarrow> u64 \<times> bool" where
  "sumOfSquares x =
     (if x \<ge> push_bit 21 1 then (NOT 0, False)
      else ((x * (x + 1) * (2 * x + 1)) div 6, True))"

definition escalatedSeriesFeeLevel ::
  "feeMetricsSnapshot \<Rightarrow> u32 \<Rightarrow> u32 \<Rightarrow> u32 \<Rightarrow> FeeLevel \<times> bool" where
  "escalatedSeriesFeeLevel s txInLedger extraCount seriesSize =
     (let current = ucast txInLedger + ucast extraCount;
          last = current + ucast seriesSize - 1;
          target = TxnsExpected s;
          (sumLast, ok1) = sumOfSquares last;
          (sumCurrent, ok2) = sumOfSquares (current - 1)
      in if \<not> ok1 \<or> \<not> ok2 then (NOT 0, False)
         else
           let diff = sumLast - sumCurrent
           in (mulDiv (EscalationMultiplier s) diff (target * target), True))"

section \<open>Words\<close>

lemma max_u64 [simp]: "unat (- 1 :: u64) = 2 ^ 64 - 1"
  by (simp add: unsigned_minus_1_eq_mask mask_eq_exp_minus_1)

lemma unat_lt_64: "unat (x :: u64) < 2 ^ 64"
  using unsigned_less[of x, where 'a = nat] by simp

lemma unat_of_nat_small [simp]: "n < 2 ^ 64 \<Longrightarrow> unat (of_nat n :: u64) = n"
  by (simp add: unat_of_nat take_bit_nat_eq_self)

section \<open>Multiply and divide\<close>

lemma Mul64_unat: "Mul64 a b = (hi, lo) \<Longrightarrow> unat hi = unat a * unat b div 2 ^ 64 \<and> unat lo = unat a * unat b mod 2 ^ 64"
proof -
  have "unat a * unat b < 2 ^ 64 * 2 ^ 64"
    using unat_lt_64[of a] unat_lt_64[of b] by (intro mult_strict_mono) simp_all
  then have "unat a * unat b div 2 ^ 64 < 2 ^ 64" by (simp add: less_mult_imp_div_less)
  then show "Mul64 a b = (hi, lo) \<Longrightarrow> ?thesis" by (auto simp: Mul64_def Let_def)
qed

lemma mulDiv_exact:
  "unat (mulDiv a b c) =
     (if c = 0 \<or> 2 ^ 64 \<le> unat a * unat b div unat c then 2 ^ 64 - 1 else unat a * unat b div unat c)"
proof (cases "c = 0")
  case False
  then have c: "0 < unat c" by (simp add: unat_gt_0)
  obtain hi lo where hl: "Mul64 a b = (hi, lo)" by fastforce
  let ?p = "unat a * unat b"
  have u: "unat hi = ?p div 2 ^ 64" "unat lo = ?p mod 2 ^ 64" using Mul64_unat[OF hl] by simp_all
  have "hi \<ge> c \<longleftrightarrow> 2 ^ 64 \<le> ?p div unat c"
  proof -
    have "hi \<ge> c \<longleftrightarrow> unat c \<le> ?p div 2 ^ 64" by (simp add: word_le_nat_alt u)
    also have "\<dots> \<longleftrightarrow> unat c * 2 ^ 64 \<le> ?p" by (simp add: less_eq_div_iff_mult_less_eq)
    also have "\<dots> \<longleftrightarrow> 2 ^ 64 \<le> ?p div unat c" using c by (simp add: less_eq_div_iff_mult_less_eq mult.commute)
    finally show ?thesis .
  qed
  moreover have "unat hi * 2 ^ 64 + unat lo = ?p" unfolding u by (rule div_mult_mod_eq)
  ultimately show ?thesis using False hl by (auto simp: mulDiv_def Div64_def Let_def not_le)
qed (simp add: mulDiv_def)

lemma mulDiv_mono: "a \<le> a' \<Longrightarrow> b \<le> b' \<Longrightarrow> mulDiv a b c \<le> mulDiv a' b' c"
proof -
  assume "a \<le> a'" "b \<le> b'"
  then have "unat a * unat b div unat c \<le> unat a' * unat b' div unat c"
    by (intro div_le_mono mult_mono) (simp_all add: word_le_nat_alt)
  then show ?thesis unfolding word_le_nat_alt mulDiv_exact by auto
qed

lemma mulDiv_small:
  assumes "c \<noteq> 0" "unat b \<le> unat c"
  shows "unat (mulDiv a b c) = unat a * unat b div unat c" "unat (mulDiv a b c) \<le> unat a"
proof -
  have "unat a * unat b \<le> unat a * unat c" using assms by simp
  then have "unat a * unat b div unat c \<le> unat a * unat c div unat c" by (rule div_le_mono)
  also have "\<dots> = unat a" using assms(1) by (simp add: unat_gt_0)
  finally have le: "unat a * unat b div unat c \<le> unat a" .
  then show "unat (mulDiv a b c) = unat a * unat b div unat c"
    using assms(1) unat_lt_64[of a] by (simp add: mulDiv_exact)
  then show "unat (mulDiv a b c) \<le> unat a" using le by simp
qed

section \<open>Squares\<close>

lemma unat_mult_small: "unat (a :: u64) * unat b < 2 ^ 64 \<Longrightarrow> unat (a * b) = unat a * unat b"
  using unat_mult_lem[of a b] by simp

lemma unat_add_small: "unat (a :: u64) + unat b < 2 ^ 64 \<Longrightarrow> unat (a + b) = unat a + unat b"
  using unat_add_lem[of a b] by simp

lemma square_32: "unat (a :: u64) < 2 ^ 32 \<Longrightarrow> unat (a * a) = unat a * unat a"
proof (rule unat_mult_small)
  assume "unat a < 2 ^ 32"
  then have "unat a * unat a < 2 ^ 32 * 2 ^ 32" by (intro mult_strict_mono) simp_all
  then show "unat a * unat a < 2 ^ 64" by simp
qed

definition squares :: "nat \<Rightarrow> nat" where
  "squares n = (\<Sum>k=1..n. k * k)"

lemma squares_closed: "6 * squares n = n * (n + 1) * (2 * n + 1)"
  by (induction n) (simp_all add: squares_def algebra_simps)

lemma squares_range: "m \<le> n \<Longrightarrow> squares n - squares m = (\<Sum>k=m+1..n. k * k)"
proof (induction n)
  case (Suc n)
  show ?case
  proof (cases "m = Suc n")
    case False
    then have "m \<le> n" using Suc.prems by simp
    then have "squares m \<le> squares n" unfolding squares_def by (intro sum_mono2) auto
    then show ?thesis using Suc.IH \<open>m \<le> n\<close> by (simp add: squares_def)
  qed simp
qed simp

lemma sumOfSquares_correct:
  "sumOfSquares x = (if unat x < 2 ^ 21 then (of_nat (squares (unat x)), True) else (NOT 0, False))"
  "unat x < 2 ^ 21 \<Longrightarrow> squares (unat x) < 2 ^ 64"
proof -
  let ?n = "unat x"
  have lt: "x < push_bit 21 1 \<longleftrightarrow> ?n < 2 ^ 21" by (simp add: word_less_nat_alt)
  have b: "?n * (?n + 1) * (2 * ?n + 1) < 2 ^ 64" if "?n < 2 ^ 21"
  proof -
    have "?n * (?n + 1) * (2 * ?n + 1) \<le> (2 ^ 21 - 1) * 2 ^ 21 * (2 ^ 22 - 1)"
      using that by (intro mult_mono) simp_all
    then show ?thesis by simp
  qed
  have sq: "squares ?n = ?n * (?n + 1) * (2 * ?n + 1) div 6" using squares_closed[of ?n] by simp
  then show "?n < 2 ^ 21 \<Longrightarrow> squares ?n < 2 ^ 64" using b by simp
  have "(x * (x + 1) * (2 * x + 1)) div 6 = of_nat (squares ?n)" if n: "?n < 2 ^ 21"
  proof -
    have "x * (x + 1) * (2 * x + 1) = of_nat (?n * (?n + 1) * (2 * ?n + 1))" by (simp add: algebra_simps)
    then have "unat (x * (x + 1) * (2 * x + 1)) = ?n * (?n + 1) * (2 * ?n + 1)"
      using b[OF n] by (simp only: unat_of_nat_small)
    then have "unat ((x * (x + 1) * (2 * x + 1)) div 6) = squares ?n" by (simp add: unat_div_distrib sq)
    then show ?thesis by (metis of_nat_unat ucast_id)
  qed
  then show "sumOfSquares x = (if ?n < 2 ^ 21 then (of_nat (squares ?n), True) else (NOT 0, False))"
    using lt by (simp add: sumOfSquares_def not_le[symmetric])
qed

section \<open>Escalation\<close>

lemma scale_args:
  assumes "\<not> unat (n :: u32) \<le> unat (TxnsExpected s)"
  shows "unat (ucast n * ucast n :: u64) = unat n * unat n"
    "unat (TxnsExpected s * TxnsExpected s) = unat (TxnsExpected s) * unat (TxnsExpected s)"
    "TxnsExpected s * TxnsExpected s = 0 \<longleftrightarrow> TxnsExpected s = 0"
proof -
  have t: "unat (TxnsExpected s) < 2 ^ 32" using assms unat_lt_32[of n] by simp
  show "unat (ucast n * ucast n :: u64) = unat n * unat n" using square_32[of "ucast n"] unat_lt_32[of n] by simp
  show sq: "unat (TxnsExpected s * TxnsExpected s) = unat (TxnsExpected s) * unat (TxnsExpected s)"
    using square_32[OF t] .
  show "TxnsExpected s * TxnsExpected s = 0 \<longleftrightarrow> TxnsExpected s = 0"
    using sq by (metis mult_eq_0_iff unat_eq_0)
qed

text \<open>The fee level as an exact rational, rounded down and saturated at the largest word.\<close>

definition saturated :: "nat \<Rightarrow> nat" where
  "saturated n = min n (2 ^ 64 - 1)"

lemma saturated_mono: "m \<le> n \<Longrightarrow> saturated m \<le> saturated n"
  by (auto simp: saturated_def)

lemma mulDiv_saturated: "c \<noteq> 0 \<Longrightarrow> unat (mulDiv a b c) = saturated (unat a * unat b div unat c)"
  by (simp add: mulDiv_exact saturated_def)

lemma scaleFeeLevel_eq:
  "unat (scaleFeeLevel s n) =
     (if unat n \<le> unat (TxnsExpected s) then 256
      else if TxnsExpected s = 0 then 2 ^ 64 - 1
      else saturated (unat (EscalationMultiplier s) * (unat n)\<^sup>2 div (unat (TxnsExpected s))\<^sup>2))"
proof (cases "unat n \<le> unat (TxnsExpected s)")
  case True
  then show ?thesis by (simp add: scaleFeeLevel_def word_le_nat_alt BaseLevel_def)
next
  case False
  note a = scale_args[OF False]
  show ?thesis
  proof (cases "TxnsExpected s = 0")
    case True
    then show ?thesis using False by (simp add: scaleFeeLevel_def word_le_nat_alt Let_def mulDiv_exact)
  next
    case nz: False
    then show ?thesis using False a
      by (simp add: scaleFeeLevel_def word_le_nat_alt Let_def mulDiv_saturated power2_eq_square)
  qed
qed

lemma scaleFeeLevel_mono:
  assumes "256 \<le> unat (EscalationMultiplier s)" "n \<le> m"
  shows "scaleFeeLevel s n \<le> scaleFeeLevel s m"
proof -
  let ?t = "unat (TxnsExpected s)" and ?e = "unat (EscalationMultiplier s)"
  have nm: "unat n \<le> unat m" using assms(2) by (simp add: word_le_nat_alt)
  have big: "256 \<le> saturated (?e * (unat m)\<^sup>2 div ?t\<^sup>2)" if "?t < unat m" "0 < ?t"
  proof -
    have "?e * ?t\<^sup>2 div ?t\<^sup>2 \<le> ?e * (unat m)\<^sup>2 div ?t\<^sup>2" using that by (intro div_le_mono mult_left_mono power_mono) simp_all
    then have "?e \<le> ?e * (unat m)\<^sup>2 div ?t\<^sup>2" using that by simp
    then show ?thesis using assms(1) by (simp add: saturated_def)
  qed
  have mono: "saturated (?e * (unat n)\<^sup>2 div ?t\<^sup>2) \<le> saturated (?e * (unat m)\<^sup>2 div ?t\<^sup>2)"
    using nm by (intro saturated_mono div_le_mono mult_left_mono power_mono) simp_all
  show ?thesis unfolding word_le_nat_alt scaleFeeLevel_eq using nm big mono by (auto simp: unat_gt_0)
qed

lemma escalatedSeries_eq:
  assumes cur: "1 \<le> unat tx + unat extra" and ser: "1 \<le> unat n" and t: "TxnsExpected s \<noteq> 0" "unat (TxnsExpected s) < 2 ^ 32"
  shows "escalatedSeriesFeeLevel s tx extra n =
    (if unat tx + unat extra + unat n \<le> 2 ^ 21
     then (of_nat (saturated (unat (EscalationMultiplier s) *
        (\<Sum>k = unat tx + unat extra..unat tx + unat extra + unat n - 1. k * k) div (unat (TxnsExpected s))\<^sup>2)), True)
     else (NOT 0, False))"
proof -
  let ?c = "ucast tx + ucast extra :: u64" and ?t = "TxnsExpected s"
  have c: "unat ?c = unat tx + unat extra"
    using unat_add_small[of "ucast tx" "ucast extra"] unat_lt_32[of tx] unat_lt_32[of extra] by simp
  have cn: "unat (?c + ucast n) = unat ?c + unat n"
    using unat_add_small[of ?c "ucast n"] unat_lt_32[of tx] unat_lt_32[of extra] unat_lt_32[of n] c by simp
  have ge: "?c \<noteq> 0" "?c + ucast n \<noteq> 0" using c cn cur by (auto simp: unat_eq_0[symmetric])
  have l: "unat (?c + ucast n - 1) = unat ?c + unat n - 1" using unat_minus_one[OF ge(2)] cn by simp
  have c1: "unat (?c - 1) = unat ?c - 1" using unat_minus_one[OF ge(1)] by simp
  have lt: "unat ?c + unat n - 1 < 2 ^ 21 \<longleftrightarrow> unat tx + unat extra + unat n \<le> 2 ^ 21" using c ser by auto
  have t2: "unat (?t * ?t) = (unat ?t)\<^sup>2" "?t * ?t \<noteq> 0"
    using square_32[OF t(2)] t(1) by (auto simp: power2_eq_square) (metis mult_eq_0_iff unat_eq_0)
  show ?thesis
  proof (cases "unat tx + unat extra + unat n \<le> 2 ^ 21")
    case True
    then have b: "unat ?c + unat n - 1 < 2 ^ 21" "unat ?c - 1 < 2 ^ 21" using lt ser by auto
    have le: "squares (unat ?c - 1) \<le> squares (unat ?c + unat n - 1)"
      unfolding squares_def by (intro sum_mono2) auto
    have sm: "squares (unat ?c + unat n - 1) < 2 ^ 64" "squares (unat ?c - 1) < 2 ^ 64"
      using sumOfSquares_correct(2)[of "?c + ucast n - 1"] sumOfSquares_correct(2)[of "?c - 1"] l c1 b by simp_all
    have "unat (of_nat (squares (unat ?c + unat n - 1)) - of_nat (squares (unat ?c - 1)) :: u64) =
        squares (unat ?c + unat n - 1) - squares (unat ?c - 1)"
      using sm le by (simp add: unat_sub word_le_nat_alt)
    also have "\<dots> = (\<Sum>k = unat tx + unat extra..unat tx + unat extra + unat n - 1. k * k)"
    proof -
      have "unat ?c - 1 + 1 = unat tx + unat extra" using c cur by simp
      then show ?thesis using squares_range[of "unat ?c - 1" "unat ?c + unat n - 1"] c by simp
    qed
    finally have d: "unat (of_nat (squares (unat ?c + unat n - 1)) - of_nat (squares (unat ?c - 1)) :: u64) =
        (\<Sum>k = unat tx + unat extra..unat tx + unat extra + unat n - 1. k * k)" .
    have of_unat: "of_nat (unat w) = w" for w :: u64 by simp
    have "escalatedSeriesFeeLevel s tx extra n = (mulDiv (EscalationMultiplier s)
        (of_nat (squares (unat ?c + unat n - 1)) - of_nat (squares (unat ?c - 1))) (?t * ?t), True)"
      using b by (simp add: escalatedSeriesFeeLevel_def Let_def sumOfSquares_correct(1) l c1)
    also have "\<dots> = (of_nat (saturated (unat (EscalationMultiplier s) *
        (\<Sum>k = unat tx + unat extra..unat tx + unat extra + unat n - 1. k * k) div (unat ?t)\<^sup>2)), True)"
      by (simp only: mulDiv_saturated[OF t2(2), of "EscalationMultiplier s", unfolded t2(1), symmetric]
          d[symmetric] of_unat)
    finally show ?thesis using True by simp
  next
    case False
    then have "\<not> unat (?c + ucast n - 1) < 2 ^ 21" using l lt by simp
    then show ?thesis using False by (simp add: escalatedSeriesFeeLevel_def Let_def sumOfSquares_correct(1))
  qed
qed

section \<open>The history of recent counts\<close>

text \<open>
  \<open>recent h fm\<close>: the circular buffer holds the history \<open>h\<close> of the counts added since the last slow
  ledger, newest first, cut to its capacity.
\<close>

definition recent :: "u64 list \<Rightarrow> feeMetrics \<Rightarrow> bool" where
  "recent h fm \<longleftrightarrow> 0 < recentCapacity fm \<and> length (recentTxnCounts fm) = recentCapacity fm \<and>
     recentSize fm = min (length h) (recentCapacity fm) \<and> recentIndex fm = length h mod recentCapacity fm \<and>
     (\<forall>j < recentSize fm. recentTxnCounts fm ! ((length h - 1 - j) mod recentCapacity fm) = h ! j)"

lemma mod_sub_eq:
  assumes "(a - i) mod c = (a - j) mod c" "i < c" "j < c" "i \<le> a" "j \<le> a"
  shows "i = (j :: nat)"
proof (rule ccontr)
  assume "i \<noteq> j"
  have aux: "x = y" if "x \<le> y" "(a - x) mod c = (a - y) mod c" "y < c" "y \<le> a" for x y :: nat
  proof -
    have "c dvd (a - x) - (a - y)" using that(2) by (rule mod_eq_dvd_iff_nat[THEN iffD1, rotated]) (use that in simp)
    moreover have "(a - x) - (a - y) = y - x" using that by simp
    ultimately show ?thesis using nat_dvd_not_less[of "y - x" c] that by (cases "y - x = 0") auto
  qed
  from \<open>i \<noteq> j\<close> show False using aux[of i j] aux[of j i] assms by (cases "i \<le> j") auto
qed

lemma recent_add:
  assumes "recent h fm"
  shows "recent (c # h) (addRecentCount fm c)" "txnsExpected (addRecentCount fm c) = txnsExpected fm"
    "recentCapacity (addRecentCount fm c) = recentCapacity fm"
proof -
  let ?k = "recentCapacity fm" and ?n = "length h" and ?b = "recentTxnCounts fm"
  have r: "0 < ?k" "length ?b = ?k" "recentSize fm = min ?n ?k" "recentIndex fm = ?n mod ?k"
    "\<forall>j < recentSize fm. ?b ! ((?n - 1 - j) mod ?k) = h ! j" using assms by (auto simp: recent_def)
  have sz: "recentSize (addRecentCount fm c) = min (Suc ?n) ?k"
    using r by (auto simp: addRecentCount_def Let_def min_def)
  have b: "recentTxnCounts (addRecentCount fm c) = ?b[?n mod ?k := c]" using r by (simp add: addRecentCount_def Let_def)
  have ix: "recentIndex (addRecentCount fm c) = Suc ?n mod ?k" using r by (simp add: addRecentCount_def Let_def mod_Suc_eq)
  show "txnsExpected (addRecentCount fm c) = txnsExpected fm" by (simp add: addRecentCount_def Let_def)
  show cap: "recentCapacity (addRecentCount fm c) = ?k" by (simp add: addRecentCount_def Let_def)
  have "?b[?n mod ?k := c] ! ((?n - j) mod ?k) = (c # h) ! j" if "j < min (Suc ?n) ?k" for j
  proof (cases j)
    case 0
    then show ?thesis using r by simp
  next
    case (Suc i)
    then have i: "i < ?n" "i < ?k" "Suc i < ?k" using that by auto
    have "?n mod ?k \<noteq> (?n - Suc i) mod ?k" using mod_sub_eq[of ?n 0 ?k "Suc i"] i by auto
    then have "?b[?n mod ?k := c] ! ((?n - j) mod ?k) = ?b ! ((?n - Suc i) mod ?k)" using Suc by simp
    also have "?n - Suc i = ?n - 1 - i" by simp
    also have "?b ! ((?n - 1 - i) mod ?k) = h ! i" using r(3,5) i by simp
    finally show ?thesis using Suc by simp
  qed
  then show "recent (c # h) (addRecentCount fm c)" using r(1,2) sz b ix cap by (simp add: recent_def)
qed

lemma fold_max_eq: "fold (\<lambda>i m. if f i > m then f i else m) ks (a :: 'a :: linorder) = Max (insert a (f ` set ks))"
proof (induction ks arbitrary: a)
  case (Cons i ks)
  have 1: "(if f i > a then f i else a) = max a (f i)" by (auto simp: max_def)
  have 2: "Max (insert (max a (f i)) (f ` set ks)) = Max (insert a (insert (f i) (f ` set ks)))"
    by (cases "ks = []") (simp_all add: max.assoc)
  show ?case using Cons.IH[of "max a (f i)"] 1 2 by simp
qed simp

lemma maxRecentCount_recent:
  assumes "recent h fm"
  shows "maxRecentCount fm = Max (insert 0 (set (take (recentCapacity fm) h)))"
proof -
  let ?k = "recentCapacity fm" and ?n = "length h" and ?b = "recentTxnCounts fm" and ?s = "recentSize fm"
  have r: "0 < ?k" "length ?b = ?k" "?s = min ?n ?k" "\<forall>j < ?s. ?b ! ((?n - 1 - j) mod ?k) = h ! j"
    using assms by (auto simp: recent_def)
  have inj: "inj_on (\<lambda>j. (?n - 1 - j) mod ?k) {..<?s}"
  proof (rule inj_onI)
    fix i j assume ij: "i \<in> {..<?s}" "j \<in> {..<?s}" "(?n - 1 - i) mod ?k = (?n - 1 - j) mod ?k"
    then have "i < ?n" "i < ?k" "j < ?n" "j < ?k" unfolding r(3) by simp_all
    then show "i = j" by (intro mod_sub_eq[OF ij(3)]) simp_all
  qed
  have "(\<lambda>j. (?n - 1 - j) mod ?k) ` {..<?s} \<subseteq> {..<?s}"
  proof (cases "?n \<le> ?k")
    case True
    then show ?thesis using r by (auto simp: min_def)
  qed (use r in auto)
  then have "(\<lambda>j. (?n - 1 - j) mod ?k) ` {..<?s} = {..<?s}" using inj by (simp add: endo_inj_surj)
  then have "(!) ?b ` {..<?s} = (\<lambda>j. ?b ! ((?n - 1 - j) mod ?k)) ` {..<?s}" by (metis image_image)
  also have "\<dots> = (!) h ` {..<?s}" using r(4) by (intro image_cong) auto
  also have "\<dots> = set (take ?k h)" using nth_image[of ?s h] r(3) by (simp add: lessThan_atLeast0 min_def split: if_splits)
  finally have im: "(!) ?b ` {..<?s} = set (take ?k h)" .
  show ?thesis using im fold_max_eq[of "(!) ?b" "[0..<?s]" 0]
    by (cases "?s = 0") (auto simp: maxRecentCount_def atLeast0LessThan)
qed

lemma recent_clear: "0 < recentCapacity fm \<Longrightarrow> length (recentTxnCounts fm) = recentCapacity fm \<Longrightarrow>
    recent [] (fm\<lparr>txnsExpected := n, recentSize := 0, recentIndex := 0\<rparr>)"
  by (simp add: recent_def)

section \<open>The invariant of the metrics\<close>

definition metrics_inv :: "Config \<Rightarrow> feeMetrics \<Rightarrow> bool" where
  "metrics_inv cfg fm \<longleftrightarrow>
     minimumTxnCount fm \<le> txnsExpected fm \<and> minimumTxnCount fm \<le> targetTxnCount fm \<and>
     (hasMaximumTxnCount fm \<longrightarrow> txnsExpected fm \<le> maximumTxnCount fm \<and> minimumTxnCount fm \<le> maximumTxnCount fm) \<and>
     unat (txnsExpected fm) < 2 ^ 36 \<and> unat (targetTxnCount fm) < 2 ^ 32 \<and>
     MinimumEscalationMultiplier cfg \<le> escalationMultiplier fm \<and>
     (\<exists>h. recent h fm \<and> (\<forall>x\<in>set h. unat x < 2 ^ 36))"

lemma normalize_Inr:
  assumes "normalize c = Inr cfg"
  shows "LedgersInQueue cfg \<noteq> 0" "LedgersInQueue cfg \<le> maxLedgersInQueue"
    "(if Standalone cfg then MinimumTxnInLedgerStandalone cfg else MinimumTxnInLedger cfg) \<le> TargetTxnInLedger cfg"
    "MaximumTxnInLedger cfg \<noteq> 0 \<longrightarrow> MaximumTxnInLedgerSet cfg"
    "MaximumTxnInLedgerSet cfg \<longrightarrow> TargetTxnInLedger cfg \<le> MaximumTxnInLedger cfg"
    "NormalConsensusIncreasePercent cfg \<le> 1000" "SlowConsensusDecreasePercent cfg \<le> 100"
proof -
  define e where "e = (if Standalone c then MinimumTxnInLedgerStandalone c else MinimumTxnInLedger c)"
  define c1 where "c1 = (if TargetTxnInLedger c < e then c\<lparr>TargetTxnInLedger := e\<rparr> else c)"
  define c2 where "c2 = (if MaximumTxnInLedger c1 \<noteq> 0 then c1\<lparr>MaximumTxnInLedgerSet := True\<rparr> else c1)"
  define c3 where "c3 = (if MaximumTxnInLedgerSet c2 \<and> MaximumTxnInLedger c2 < TargetTxnInLedger c2
    then c2\<lparr>MaximumTxnInLedger := TargetTxnInLedger c2\<rparr> else c2)"
  define c4 where "c4 = (if NormalConsensusIncreasePercent c3 > 1000 then c3\<lparr>NormalConsensusIncreasePercent := 1000\<rparr> else c3)"
  define c5 where "c5 = (if SlowConsensusDecreasePercent c4 > 100 then c4\<lparr>SlowConsensusDecreasePercent := 100\<rparr> else c4)"
  have r: "LedgersInQueue c \<noteq> 0 \<and> LedgersInQueue c \<le> maxLedgersInQueue \<and> cfg = c5"
    using assms unfolding normalize_def Let_def e_def[symmetric] c1_def[symmetric] c2_def[symmetric]
      c3_def[symmetric] c4_def[symmetric] c5_def[symmetric] by (auto split: if_splits)
  have 1: "LedgersInQueue c1 = LedgersInQueue c" "Standalone c1 = Standalone c" "e \<le> TargetTxnInLedger c1"
    "MinimumTxnInLedgerStandalone c1 = MinimumTxnInLedgerStandalone c" "MinimumTxnInLedger c1 = MinimumTxnInLedger c"
    by (auto simp: c1_def)
  have 2: "LedgersInQueue c2 = LedgersInQueue c1" "Standalone c2 = Standalone c1" "TargetTxnInLedger c2 = TargetTxnInLedger c1"
    "MinimumTxnInLedgerStandalone c2 = MinimumTxnInLedgerStandalone c1" "MinimumTxnInLedger c2 = MinimumTxnInLedger c1"
    "MaximumTxnInLedger c2 \<noteq> 0 \<longrightarrow> MaximumTxnInLedgerSet c2" by (auto simp: c2_def)
  have 3: "LedgersInQueue c3 = LedgersInQueue c2" "Standalone c3 = Standalone c2" "TargetTxnInLedger c3 = TargetTxnInLedger c2"
    "MinimumTxnInLedgerStandalone c3 = MinimumTxnInLedgerStandalone c2" "MinimumTxnInLedger c3 = MinimumTxnInLedger c2"
    "MaximumTxnInLedger c3 \<noteq> 0 \<longrightarrow> MaximumTxnInLedgerSet c3"
    "MaximumTxnInLedgerSet c3 \<longrightarrow> TargetTxnInLedger c3 \<le> MaximumTxnInLedger c3" using 2(6) by (auto simp: c3_def word_neq_0_conv)
  have 4: "LedgersInQueue c5 = LedgersInQueue c3" "Standalone c5 = Standalone c3" "TargetTxnInLedger c5 = TargetTxnInLedger c3"
    "MinimumTxnInLedgerStandalone c5 = MinimumTxnInLedgerStandalone c3" "MinimumTxnInLedger c5 = MinimumTxnInLedger c3"
    "MaximumTxnInLedger c5 = MaximumTxnInLedger c3" "MaximumTxnInLedgerSet c5 = MaximumTxnInLedgerSet c3"
    by (auto simp: c5_def c4_def)
  have "NormalConsensusIncreasePercent c4 \<le> 1000" by (simp add: c4_def not_less)
  then show "NormalConsensusIncreasePercent cfg \<le> 1000" using r by (simp add: c5_def)
  show "SlowConsensusDecreasePercent cfg \<le> 100" using r by (simp add: c5_def not_less)
  show "LedgersInQueue cfg \<noteq> 0" "LedgersInQueue cfg \<le> maxLedgersInQueue" using r 1 2 3 4 by simp_all
  show "(if Standalone cfg then MinimumTxnInLedgerStandalone cfg else MinimumTxnInLedger cfg) \<le> TargetTxnInLedger cfg"
    using 1(3) r by (simp add: 1(2,4,5) 2(2-5) 3(2-5) 4(2-5) e_def split: if_splits)
  show "MaximumTxnInLedger cfg \<noteq> 0 \<longrightarrow> MaximumTxnInLedgerSet cfg"
    "MaximumTxnInLedgerSet cfg \<longrightarrow> TargetTxnInLedger cfg \<le> MaximumTxnInLedger cfg" using r 3 4 by simp_all
qed

lemma ucast_le_32_64 [simp]: "(ucast (x :: u32) :: u64) \<le> ucast y \<longleftrightarrow> x \<le> y"
  by (simp add: word_le_nat_alt)

lemma new_metrics_inv:
  assumes "normalize c = Inr cfg"
  shows "metrics_inv cfg (newFeeMetrics cfg)"
proof -
  note n = normalize_Inr[OF assms]
  let ?mn = "if Standalone cfg then MinimumTxnInLedgerStandalone cfg else MinimumTxnInLedger cfg"
  have cap: "0 < unat (LedgersInQueue cfg)" using n(1) by (simp add: unat_gt_0)
  have u: "unat x < 2 ^ 36" "unat x < 2 ^ 32" for x :: u32 using unat_lt_32[of x] by simp_all
  have mt: "max (TargetTxnInLedger cfg) ?mn = TargetTxnInLedger cfg" by (rule max_absorb1[OF n(3)])
  have mx: "\<not> (MaximumTxnInLedger cfg \<noteq> 0 \<and> MaximumTxnInLedger cfg < TargetTxnInLedger cfg)"
    using n(4,5) by (auto simp: not_less)
  have f: "newFeeMetrics cfg = \<lparr>minimumTxnCount = ucast ?mn, targetTxnCount = ucast (TargetTxnInLedger cfg),
      maximumTxnCount = ucast (MaximumTxnInLedger cfg), hasMaximumTxnCount = MaximumTxnInLedgerSet cfg,
      txnsExpected = ucast ?mn, recentTxnCounts = replicate (unat (LedgersInQueue cfg)) 0,
      recentIndex = 0, recentSize = 0, recentCapacity = unat (LedgersInQueue cfg),
      escalationMultiplier = MinimumEscalationMultiplier cfg\<rparr>"
    unfolding newFeeMetrics_def Let_def mt if_not_P[OF mx] ..
  have "recent [] (newFeeMetrics cfg)" using cap by (simp add: recent_def f)
  moreover have "MaximumTxnInLedgerSet cfg \<Longrightarrow> ?mn \<le> MaximumTxnInLedger cfg" using n(3,5) by (metis order_trans)
  ultimately show ?thesis
    unfolding metrics_inv_def f using n(3) u[of ?mn] u[of "TargetTxnInLedger cfg"]
    by (intro conjI exI[of _ "[]"] impI) (simp_all add: recent_def)
qed

lemma add_max:
  assumes "recent h fm" "\<forall>x\<in>set h. unat x < 2 ^ 36" "unat c < 2 ^ 36"
  shows "c \<le> maxRecentCount (addRecentCount fm c)" "unat (maxRecentCount (addRecentCount fm c)) < 2 ^ 36"
proof -
  let ?S = "insert 0 (set (take (recentCapacity fm) (c # h)))"
  have m: "maxRecentCount (addRecentCount fm c) = Max ?S"
    using maxRecentCount_recent[OF recent_add(1)[OF assms(1), of c]] recent_add(3)[OF assms(1)] by simp
  have "c \<in> ?S" using assms(1) by (cases "recentCapacity fm") (simp_all add: recent_def)
  then show "c \<le> maxRecentCount (addRecentCount fm c)" unfolding m by (intro Max_ge) simp_all
  have "Max ?S \<in> ?S" by (rule Max_in) simp_all
  moreover have "unat x < 2 ^ 36" if "x \<in> ?S" for x using that assms(2,3) set_take_subset[of "recentCapacity fm" "c # h"] by auto
  ultimately show "unat (maxRecentCount (addRecentCount fm c)) < 2 ^ 36" unfolding m by blast
qed

section \<open>Updates keep the invariant\<close>

lemma increased_bounds:
  assumes "NormalConsensusIncreasePercent cfg \<le> 1000"
  shows "ucast n \<le> mulDiv (ucast (n :: u32)) (100 + ucast (NormalConsensusIncreasePercent cfg)) 100"
    "unat (mulDiv (ucast n) (100 + ucast (NormalConsensusIncreasePercent cfg)) 100) < 2 ^ 36"
proof -
  let ?p = "NormalConsensusIncreasePercent cfg"
  have p: "unat ?p \<le> 1000" using assms by (simp add: word_le_nat_alt)
  then have u: "unat (100 + ucast ?p :: u64) = 100 + unat ?p"
    using unat_add_small[of 100 "ucast ?p"] by simp
  have v: "unat n * (100 + unat ?p) div 100 \<le> unat n * 11"
  proof -
    have "unat n * (100 + unat ?p) \<le> unat n * 1100" using p by (intro mult_left_mono) simp_all
    then have "unat n * (100 + unat ?p) div 100 \<le> unat n * 1100 div 100" by (rule div_le_mono)
    then show ?thesis by simp
  qed
  have "unat n * 11 < 2 ^ 36" using unat_lt_32[of n] by simp
  then have e: "unat (mulDiv (ucast n) (100 + ucast ?p) 100) = unat n * (100 + unat ?p) div 100"
    using v u by (simp add: mulDiv_exact)
  then show "unat (mulDiv (ucast n) (100 + ucast ?p) 100) < 2 ^ 36" using v \<open>unat n * 11 < 2 ^ 36\<close> by simp
  have "unat n * 100 div 100 \<le> unat n * (100 + unat ?p) div 100" by (intro div_le_mono mult_left_mono) simp_all
  then show "ucast n \<le> mulDiv (ucast n) (100 + ucast ?p) 100" using e by (simp add: word_le_nat_alt)
qed

lemma slow_bounds:
  assumes "SlowConsensusDecreasePercent cfg \<le> 100"
  shows "mulDiv x (ucast (100 - SlowConsensusDecreasePercent cfg)) 100 \<le> x"
proof -
  have "unat (100 - SlowConsensusDecreasePercent cfg) \<le> 100"
    using assms by (simp add: unat_sub word_le_nat_alt)
  then show ?thesis using mulDiv_small(2)[of 100 "ucast (100 - SlowConsensusDecreasePercent cfg)" x]
    by (simp add: word_le_nat_alt)
qed

lemma shrink_bounds:
  assumes "unat e < 2 ^ 36" "unat (m :: u64) < 2 ^ 36" "m < e" "a \<le> e" "a \<le> m"
  shows "a \<le> (e * 9 + m) div 10" "(e * 9 + m) div 10 \<le> e"
proof -
  have "unat (e * 9) = unat e * 9" using unat_mult_small[of e 9] assms(1) by simp
  then have "unat (e * 9 + m) = unat e * 9 + unat m" using unat_add_small[of "e * 9" m] assms(1,2) by simp
  then have "unat ((e * 9 + m) div 10) = (unat e * 9 + unat m) div 10" by (simp add: unat_div_distrib)
  then show "a \<le> (e * 9 + m) div 10" "(e * 9 + m) div 10 \<le> e"
    using assms(3-5) by (simp_all add: word_le_nat_alt word_less_nat_alt)
qed

lemma updateExpected_fields [simp]:
  "minimumTxnCount (updateExpected fm n b cfg) = minimumTxnCount fm"
  "targetTxnCount (updateExpected fm n b cfg) = targetTxnCount fm"
  "maximumTxnCount (updateExpected fm n b cfg) = maximumTxnCount fm"
  "hasMaximumTxnCount (updateExpected fm n b cfg) = hasMaximumTxnCount fm"
  "escalationMultiplier (updateExpected fm n b cfg) = escalationMultiplier fm"
  by (simp_all add: updateExpected_def addRecentCount_def Let_def)

lemma updateMultiplier_fields [simp]:
  "minimumTxnCount (updateMultiplier fm l cfg) = minimumTxnCount fm"
  "targetTxnCount (updateMultiplier fm l cfg) = targetTxnCount fm"
  "maximumTxnCount (updateMultiplier fm l cfg) = maximumTxnCount fm"
  "hasMaximumTxnCount (updateMultiplier fm l cfg) = hasMaximumTxnCount fm"
  "txnsExpected (updateMultiplier fm l cfg) = txnsExpected fm"
  "MinimumEscalationMultiplier cfg \<le> escalationMultiplier (updateMultiplier fm l cfg)"
  "recent h (updateMultiplier fm l cfg) \<longleftrightarrow> recent h fm"
  by (simp_all add: updateMultiplier_def Let_def recent_def)

text \<open>The abstract history that an update leaves behind.\<close>

definition history :: "u64 list \<Rightarrow> feeMetrics \<Rightarrow> u64 \<Rightarrow> bool \<Rightarrow> Config \<Rightarrow> u64 list" where
  "history h fm sz timeLeap cfg =
     (if timeLeap then []
      else if sz > txnsExpected fm \<or> sz > targetTxnCount fm
      then mulDiv sz (100 + ucast (NormalConsensusIncreasePercent cfg)) 100 # h
      else h)"

lemma updateExpected_recent:
  assumes "recent h fm"
  shows "recent (history h fm sz timeLeap cfg) (updateExpected fm sz timeLeap cfg)"
proof -
  have r: "recent h' (f\<lparr>txnsExpected := n\<rparr>) \<longleftrightarrow> recent h' f" for h' f n by (simp add: recent_def)
  have "0 < recentCapacity fm" "length (recentTxnCounts fm) = recentCapacity fm" using assms by (simp_all add: recent_def)
  then show ?thesis using recent_add(1)[OF assms] assms
    by (simp add: history_def updateExpected_def Let_def r recent_clear)
qed

lemma updateExpected_normal:
  assumes "recent h fm" "\<forall>x\<in>set h. unat x < 2 ^ 36" "NormalConsensusIncreasePercent cfg \<le> 1000"
    "sz = ucast (n :: u32)" "sz > txnsExpected fm \<or> sz > targetTxnCount fm"
  shows "\<exists>m. sz \<le> m \<and> unat m < 2 ^ 36 \<and> m = Max (insert 0 (set (take (recentCapacity fm) (history h fm sz False cfg)))) \<and>
    txnsExpected (updateExpected fm sz False cfg) =
      (let next = (if m \<ge> txnsExpected fm then m else (txnsExpected fm * 9 + m) div 10)
       in if hasMaximumTxnCount fm \<and> next > maximumTxnCount fm then maximumTxnCount fm else next)"
proof -
  let ?c = "mulDiv sz (100 + ucast (NormalConsensusIncreasePercent cfg)) 100"
  let ?m = "maxRecentCount (addRecentCount fm ?c)"
  have c: "sz \<le> ?c" "unat ?c < 2 ^ 36" using increased_bounds[OF assms(3), of n] assms(4) by simp_all
  have m: "?m = Max (insert 0 (set (take (recentCapacity fm) (?c # h))))"
    using maxRecentCount_recent[OF recent_add(1)[OF assms(1), of ?c]] recent_add(3)[OF assms(1)] by simp
  have f: "hasMaximumTxnCount (addRecentCount fm ?c) = hasMaximumTxnCount fm"
    "maximumTxnCount (addRecentCount fm ?c) = maximumTxnCount fm" by (simp_all add: addRecentCount_def Let_def)
  have h: "history h fm sz False cfg = ?c # h" using assms(5) by (auto simp: history_def)
  have "sz \<le> ?m" using add_max(1)[OF assms(1,2) c(2)] c(1) by (rule order_trans[rotated])
  moreover have "unat ?m < 2 ^ 36" using add_max(2)[OF assms(1,2) c(2)] .
  moreover have "txnsExpected (updateExpected fm sz False cfg) =
      (let next = (if ?m \<ge> txnsExpected fm then ?m else (txnsExpected fm * 9 + ?m) div 10)
       in if hasMaximumTxnCount fm \<and> next > maximumTxnCount fm then maximumTxnCount fm else next)"
    using assms(5) unfolding updateExpected_def Let_def f recent_add(2)[OF assms(1)] by simp
  ultimately show ?thesis unfolding h using m by blast
qed

lemma slow_update:
  assumes "minimumTxnCount fm \<le> txnsExpected fm" "SlowConsensusDecreasePercent cfg \<le> 100"
  shows "minimumTxnCount fm \<le> txnsExpected (updateExpected fm sz True cfg)"
    "txnsExpected (updateExpected fm sz True cfg) \<le> txnsExpected fm"
  using assms slow_bounds[OF assms(2), of "txnsExpected fm"]
  by (auto simp: updateExpected_def Let_def max_def min_def split: if_splits)

lemma normal_update:
  assumes inv: "metrics_inv cfg fm" and cfg: "NormalConsensusIncreasePercent cfg \<le> 1000"
  shows "minimumTxnCount fm \<le> txnsExpected (updateExpected fm (ucast (n :: u32)) False cfg)"
    "hasMaximumTxnCount fm \<longrightarrow> txnsExpected (updateExpected fm (ucast n) False cfg) \<le> maximumTxnCount fm"
    "unat (txnsExpected (updateExpected fm (ucast n) False cfg)) < 2 ^ 36"
proof -
  let ?e = "txnsExpected fm" and ?mn = "minimumTxnCount fm" and ?u = "updateExpected fm (ucast n) False cfg"
  obtain h where h: "recent h fm" "\<forall>x\<in>set h. unat x < 2 ^ 36" using inv by (auto simp: metrics_inv_def)
  have i: "?mn \<le> ?e" "?mn \<le> targetTxnCount fm" "unat ?e < 2 ^ 36"
    "hasMaximumTxnCount fm \<longrightarrow> ?e \<le> maximumTxnCount fm \<and> ?mn \<le> maximumTxnCount fm"
    using inv by (simp_all add: metrics_inv_def)
  have "\<exists>x. ?mn \<le> x \<and> unat x < 2 ^ 36 \<and>
      txnsExpected ?u = (if hasMaximumTxnCount fm \<and> x > maximumTxnCount fm then maximumTxnCount fm else x)"
  proof (cases "ucast n > ?e \<or> ucast n > targetTxnCount fm")
    case True
    then obtain m where m: "ucast n \<le> m" "unat m < 2 ^ 36"
      "txnsExpected ?u = (let next = (if m \<ge> ?e then m else (?e * 9 + m) div 10)
        in if hasMaximumTxnCount fm \<and> next > maximumTxnCount fm then maximumTxnCount fm else next)"
      using updateExpected_normal[OF h cfg refl, of n] by blast
    let ?x = "if m \<ge> ?e then m else (?e * 9 + m) div 10"
    have "?mn \<le> ucast n" using True i by auto
    then have mn: "?mn \<le> m" using m(1) by (rule order_trans)
    have s: "?mn \<le> (?e * 9 + m) div 10" "(?e * 9 + m) div 10 \<le> ?e" if "\<not> ?e \<le> m"
      using shrink_bounds[OF i(3) m(2) _ i(1) mn] that by simp_all
    have "unat ((?e * 9 + m) div 10) < 2 ^ 36" if "\<not> ?e \<le> m"
      using s(2)[OF that] i(3) by (simp add: word_le_nat_alt)
    then show ?thesis using mn m(2,3) s(1) by (intro exI[of _ ?x]) (simp add: Let_def)
  next
    case False
    then have "txnsExpected ?u = ?e" by (simp add: updateExpected_def)
    then show ?thesis using i by (intro exI[of _ ?e]) auto
  qed
  then show "?mn \<le> txnsExpected ?u" "hasMaximumTxnCount fm \<longrightarrow> txnsExpected ?u \<le> maximumTxnCount fm"
    "unat (txnsExpected ?u) < 2 ^ 36" using i by (auto simp: word_less_nat_alt word_le_nat_alt)
qed

lemma history_small:
  "\<forall>x\<in>set h. unat x < 2 ^ 36 \<Longrightarrow> NormalConsensusIncreasePercent cfg \<le> 1000 \<Longrightarrow>
    \<forall>x\<in>set (history h fm (ucast (n :: u32)) b cfg). unat x < 2 ^ 36"
  using increased_bounds(2)[of cfg n] by (simp add: history_def)

lemma update_inv:
  assumes inv: "metrics_inv cfg fm" and cfg: "NormalConsensusIncreasePercent cfg \<le> 1000" "SlowConsensusDecreasePercent cfg \<le> 100"
  shows "metrics_inv cfg (snd (update fm levels (ucast (n :: u32)) timeLeap cfg))"
proof -
  let ?u = "updateExpected fm (ucast n) timeLeap cfg"
  obtain h where h: "recent h fm" "\<forall>x\<in>set h. unat x < 2 ^ 36" using inv by (auto simp: metrics_inv_def)
  have e: "minimumTxnCount fm \<le> txnsExpected ?u" "hasMaximumTxnCount fm \<longrightarrow> txnsExpected ?u \<le> maximumTxnCount fm"
    "unat (txnsExpected ?u) < 2 ^ 36"
  proof -
    show "minimumTxnCount fm \<le> txnsExpected ?u" "hasMaximumTxnCount fm \<longrightarrow> txnsExpected ?u \<le> maximumTxnCount fm"
      using normal_update[OF inv cfg(1), of n] slow_update[OF _ cfg(2), of fm "ucast n"] inv
      by (cases timeLeap; auto simp: metrics_inv_def intro: order_trans)+
    show "unat (txnsExpected ?u) < 2 ^ 36"
      using normal_update(3)[OF inv cfg(1), of n] slow_update(2)[OF _ cfg(2), of fm "ucast n"] inv
      by (cases timeLeap) (auto simp: metrics_inv_def word_le_nat_alt)
  qed
  have "recent (history h fm (ucast n) timeLeap cfg) ?u" by (rule updateExpected_recent[OF h(1)])
  moreover have "\<forall>x\<in>set (history h fm (ucast n) timeLeap cfg). unat x < 2 ^ 36" by (rule history_small[OF h(2) cfg(1)])
  ultimately show ?thesis using e inv by (auto simp: metrics_inv_def update_def Let_def)
qed

inductive metrics_reachable :: "Config \<Rightarrow> feeMetrics \<Rightarrow> bool" where
  start: "normalize c = Inr cfg \<Longrightarrow> metrics_reachable cfg (newFeeMetrics cfg)"
| closed: "metrics_reachable cfg fm \<Longrightarrow>
    metrics_reachable cfg (snd (update fm levels (ucast (n :: u32)) timeLeap cfg))"

lemma metrics_reachable_inv:
  "metrics_reachable cfg fm \<Longrightarrow>
    metrics_inv cfg fm \<and> NormalConsensusIncreasePercent cfg \<le> 1000 \<and> SlowConsensusDecreasePercent cfg \<le> 100"
proof (induction rule: metrics_reachable.induct)
  case (start c cfg)
  then show ?case using new_metrics_inv normalize_Inr by blast
next
  case (closed cfg fm levels n timeLeap)
  then show ?case using update_inv by blast
qed

section \<open>Properties\<close>

text \<open>
  C36.  \<open>mulDiv\<close> is exact saturating arithmetic: for all 64-bit arguments it is the quotient of the
  128-bit product, rounded down, and the largest 64-bit value exactly if the divisor is zero or the
  quotient does not fit (so \<open>Div64\<close> never panics).
\<close>

theorem mulDiv_saturates:
  "unat (mulDiv a b c) = (if c = 0 then 2 ^ 64 - 1 else min (unat a * unat b div unat c) (2 ^ 64 - 1))"
  using mulDiv_exact[of a b c] by (simp add: min_def)

text \<open>
  C37.  The fee level to enter the open ledger: the base level 256 up to the expected number of
  transactions, then the multiplier times the square of the ratio, computed without wrap-around
  (rounded down, saturated); and it never falls as the ledger fills, when the multiplier is at least
  the base level.
\<close>

theorem scaleFeeLevel_escalates:
  assumes "256 \<le> unat (EscalationMultiplier s)" "n \<le> m"
  shows "scaleFeeLevel s n \<le> scaleFeeLevel s m \<and>
    unat (scaleFeeLevel s n) =
      (if unat n \<le> unat (TxnsExpected s) then 256
       else if TxnsExpected s = 0 then 2 ^ 64 - 1
       else saturated (unat (EscalationMultiplier s) * (unat n)\<^sup>2 div (unat (TxnsExpected s))\<^sup>2))"
  using scaleFeeLevel_mono[OF assms] scaleFeeLevel_eq by blast

theorem scaleFeeLevel_escalates_witness:
  "scaleFeeLevel \<lparr>TxnsExpected = 32, EscalationMultiplier = 128000\<rparr> 40 \<le>
     scaleFeeLevel \<lparr>TxnsExpected = 32, EscalationMultiplier = 128000\<rparr> 64 \<and>
   unat (scaleFeeLevel \<lparr>TxnsExpected = 32, EscalationMultiplier = 128000\<rparr> 40) = 200000"
  using scaleFeeLevel_escalates[of "\<lparr>TxnsExpected = 32, EscalationMultiplier = 128000\<rparr>" 40 64]
  by (simp add: saturated_def)

text \<open>
  C38.  The fee level of a series of transactions: for positions \<open>txInLedger + extraCount\<close> onward the
  code's closed formula gives the multiplier times the sum of the squares of the positions, divided by
  the square of the expected count (rounded down, saturated), without wrap-around; it reports failure
  exactly if the series ends at position \<open>2 ^ 21\<close> or beyond.
\<close>

theorem escalatedSeries_sums_squares:
  assumes "1 \<le> unat tx + unat extra" "1 \<le> unat n" "TxnsExpected s \<noteq> 0" "unat (TxnsExpected s) < 2 ^ 32"
  shows "escalatedSeriesFeeLevel s tx extra n =
    (if unat tx + unat extra + unat n \<le> 2 ^ 21
     then (of_nat (saturated (unat (EscalationMultiplier s) *
        (\<Sum>k = unat tx + unat extra..unat tx + unat extra + unat n - 1. k * k) div (unat (TxnsExpected s))\<^sup>2)), True)
     else (NOT 0, False))"
  using assms by (rule escalatedSeries_eq)

theorem escalatedSeries_sums_squares_witness:
  "escalatedSeriesFeeLevel \<lparr>TxnsExpected = 10, EscalationMultiplier = 1000\<rparr> 11 0 3 = (4340, True)"
proof -
  have "{11..13} = {11, 12, 13 :: nat}" by auto
  then show ?thesis
    using escalatedSeries_sums_squares[of 11 0 3 "\<lparr>TxnsExpected = 10, EscalationMultiplier = 1000\<rparr>"]
    by (simp add: saturated_def)
qed



text \<open>
  C40.  The expected number of transactions after a busy ledger: with \<open>h\<close> the counts added to the
  circular buffer since the last slow ledger (newest first), the update adds the ledger's size plus the
  configured percentage, takes the largest of the newest \<open>LedgersInQueue\<close> counts, grows to it at once or
  else moves a tenth of the way down to it, and caps the result at the configured maximum.
\<close>

theorem update_follows_recent_maximum:
  assumes "metrics_reachable cfg fm" "recent h fm" "\<forall>x\<in>set h. unat x < 2 ^ 36"
    "ucast n > txnsExpected fm \<or> ucast n > targetTxnCount fm"
  shows "\<exists>m fm'. update fm levels (ucast (n :: u32)) False cfg = (ucast n, fm') \<and>
    recent (mulDiv (ucast n) (100 + ucast (NormalConsensusIncreasePercent cfg)) 100 # h) fm' \<and>
    m = Max (set (take (recentCapacity fm) (mulDiv (ucast n) (100 + ucast (NormalConsensusIncreasePercent cfg)) 100 # h))) \<and>
    txnsExpected fm' =
      (let next = (if m \<ge> txnsExpected fm then m else (txnsExpected fm * 9 + m) div 10)
       in if hasMaximumTxnCount fm \<and> next > maximumTxnCount fm then maximumTxnCount fm else next)"
proof -
  let ?c = "mulDiv (ucast n) (100 + ucast (NormalConsensusIncreasePercent cfg)) 100"
  have cfg: "NormalConsensusIncreasePercent cfg \<le> 1000" using metrics_reachable_inv[OF assms(1)] by simp
  have h: "history h fm (ucast n) False cfg = ?c # h" using assms(4) by (auto simp: history_def)
  have "recentCapacity fm \<noteq> 0" using assms(2) by (simp add: recent_def)
  then have "set (take (recentCapacity fm) (?c # h)) \<noteq> {}" by simp
  then have "Max (insert 0 (set (take (recentCapacity fm) (?c # h)))) = Max (set (take (recentCapacity fm) (?c # h)))"
    by (simp add: max_absorb2 word_zero_le)
  moreover note updateExpected_normal[OF assms(2,3) cfg refl assms(4)] updateExpected_recent[OF assms(2), of "ucast n" False cfg]
  ultimately show ?thesis by (simp add: update_def h)
qed

theorem update_follows_recent_maximum_witness:
  "\<exists>fm'. update (newFeeMetrics DefaultConfig) [] (ucast (40 :: u32)) False DefaultConfig = (40, fm') \<and> txnsExpected fm' = 48"
proof -
  have "normalize DefaultConfig = Inr DefaultConfig"
    by (simp add: normalize_def DefaultConfig_def maxLedgersInQueue_def)
  then have r: "metrics_reachable DefaultConfig (newFeeMetrics DefaultConfig)" by (rule metrics_reachable.start)
  have c: "mulDiv 40 120 100 = (48 :: u64)" by (simp add: mulDiv_def Mul64_def Div64_def)
  show ?thesis
    using update_follows_recent_maximum[OF r, of "[]" "40 :: u32" "[]"]
    by (auto simp: newFeeMetrics_def DefaultConfig_def recent_def c Let_def)
qed

text \<open>
  Fee levels and drops: converting a fee to its level and back never gives more drops than were
  paid, and loses at most the base fee divided by 256, rounded up, as long as the level does not
  saturate.
\<close>

theorem ToDrops_ToFeeLevel:
  assumes b: "baseFee \<noteq> 0" and lvl: "unat drops * 256 div unat baseFee < 2 ^ 64"
  shows "ToDrops (ToFeeLevel drops baseFee) baseFee \<le> drops \<and>
    unat drops - unat (ToDrops (ToFeeLevel drops baseFee) baseFee) \<le> (unat baseFee + 255) div 256"
proof -
  let ?b = "unat baseFee" and ?d = "unat drops"
  have b0: "0 < ?b" using b by (simp add: unat_gt_0)
  define L where "L = ?d * 256 div ?b"
  have l: "unat (ToFeeLevel drops baseFee) = L"
    using b lvl by (simp add: ToFeeLevel_def ToFeeLevelWithDefaultBaseFee_def mulDiv_exact BaseLevel_def L_def)
  have Lb: "L * ?b \<le> ?d * 256" "?d * 256 < L * ?b + ?b"
    unfolding L_def using b0 div_mult_mod_eq[of "?d * 256" ?b] mod_less_divisor[OF b0, of "?d * 256"] by linarith+
  then have "L * ?b div 256 \<le> ?d" by (simp add: div_le_mono[of _ "?d * 256" 256, simplified])
  then have dr: "unat (ToDrops (ToFeeLevel drops baseFee) baseFee) = L * ?b div 256"
    using unat_lt_64[of drops] by (simp add: ToDrops_def mulDiv_exact BaseLevel_def l)
  have "?d - L * ?b div 256 \<le> (?b + 255) div 256" using Lb by linarith
  then show ?thesis using dr \<open>L * ?b div 256 \<le> ?d\<close> by (simp add: word_le_nat_alt)
qed

theorem ToDrops_ToFeeLevel_witness:
  "ToDrops (ToFeeLevel 1001 10) 10 \<le> 1001 \<and> 1001 - unat (ToDrops (ToFeeLevel 1001 10) 10) \<le> 1"
  using ToDrops_ToFeeLevel[of 10 1001] by simp

end
