(* ===== verification/Txq_State.thy ===== *)
theory Txq_State
  imports Fee_Metrics "HOL-Library.AList"
begin

text \<open>
  The state of the transaction queue, \<^verbatim>\<open>src/internal/txq/{candidate,txq,process}.go\<close>: candidates, the
  per-account queues, the fee-ordered index and the index by transaction id, with the operations that
  maintain them.  Candidates are shared by the three indices through pointers and are updated in
  place, so they live in an explicit heap: a pointer is a natural number, the heap of a queue maps it
  to the candidate, and pointer equality is equality of numbers.  The Go maps are association lists
  (\<open>map_of\<close> is the lookup, \<open>AList.update\<close> and \<open>AList.delete\<close> the store and the delete), walked in the
  order of the list; the lemmas of \<^verbatim>\<open>Txq_Select\<close> show that no result depends on that order.  The locks are
  not modelled: every operation runs under the queue's mutex.
\<close>

section \<open>Sequence proxies\<close>

datatype SeqProxy = seq_proxy (Value: u32) (IsTicket: bool)

definition NewSeqProxySequence :: "u32 \<Rightarrow> SeqProxy" where
  "NewSeqProxySequence s = seq_proxy s False"

definition NewSeqProxyTicket :: "u32 \<Rightarrow> SeqProxy" where
  "NewSeqProxyTicket t = seq_proxy t True"

definition Less :: "SeqProxy \<Rightarrow> SeqProxy \<Rightarrow> bool" where
  "Less s other =
     (if \<not> IsTicket s \<and> IsTicket other then True
      else if IsTicket s \<and> \<not> IsTicket other then False
      else Value s < Value other)"

text \<open>\<open>Less\<close> is a strict linear order; sorting by it is the library's \<open>sort_key\<close>.\<close>

instantiation SeqProxy :: linorder
begin

definition less_SeqProxy :: "SeqProxy \<Rightarrow> SeqProxy \<Rightarrow> bool" where
  "less_SeqProxy = Less"

definition less_eq_SeqProxy :: "SeqProxy \<Rightarrow> SeqProxy \<Rightarrow> bool" where
  "less_eq_SeqProxy a b \<longleftrightarrow> Less a b \<or> a = b"

instance
proof
  fix a b c :: SeqProxy
  show "a < b \<longleftrightarrow> a \<le> b \<and> \<not> b \<le> a"
    by (cases a; cases b) (auto simp: less_SeqProxy_def less_eq_SeqProxy_def Less_def)
  show "a \<le> a" by (simp add: less_eq_SeqProxy_def)
  show "a \<le> b \<Longrightarrow> b \<le> c \<Longrightarrow> a \<le> c"
    by (cases a; cases b; cases c) (auto simp: less_eq_SeqProxy_def Less_def split: if_splits)
  show "a \<le> b \<Longrightarrow> b \<le> a \<Longrightarrow> a = b"
    by (cases a; cases b) (auto simp: less_eq_SeqProxy_def Less_def split: if_splits)
  show "a \<le> b \<or> b \<le> a"
    by (cases a; cases b) (auto simp: less_eq_SeqProxy_def Less_def split: if_splits)
qed

end

section \<open>Results and transactions\<close>

text \<open>Result codes are the integers of \<^verbatim>\<open>src/internal/tx/ter/result.go\<close>.\<close>

type_synonym Result = int

definition TesSUCCESS :: Result where "TesSUCCESS = 0"
definition TecCLAIM :: Result where "TecCLAIM = 100"
definition TefEXCEPTION :: Result where "TefEXCEPTION = -193"
definition TefINTERNAL :: Result where "TefINTERNAL = -192"
definition TefPAST_SEQ :: Result where "TefPAST_SEQ = -190"
definition TefNO_TICKET :: Result where "TefNO_TICKET = -180"
definition TelCAN_NOT_QUEUE :: Result where "TelCAN_NOT_QUEUE = -392"
definition TelCAN_NOT_QUEUE_BALANCE :: Result where "TelCAN_NOT_QUEUE_BALANCE = -391"
definition TelCAN_NOT_QUEUE_BLOCKS :: Result where "TelCAN_NOT_QUEUE_BLOCKS = -390"
definition TelCAN_NOT_QUEUE_BLOCKED :: Result where "TelCAN_NOT_QUEUE_BLOCKED = -389"
definition TelCAN_NOT_QUEUE_FEE :: Result where "TelCAN_NOT_QUEUE_FEE = -388"
definition TelCAN_NOT_QUEUE_FULL :: Result where "TelCAN_NOT_QUEUE_FULL = -387"
definition TemMALFORMED :: Result where "TemMALFORMED = -299"
definition TemBAD_FEE :: Result where "TemBAD_FEE = -295"
definition TemBAD_SRC_ACCOUNT :: Result where "TemBAD_SRC_ACCOUNT = -281"
definition TerNO_ACCOUNT :: Result where "TerNO_ACCOUNT = -96"
definition TerPRE_SEQ :: Result where "TerPRE_SEQ = -92"
definition TerQUEUED :: Result where "TerQUEUED = -89"
definition TerPRE_TICKET :: Result where "TerPRE_TICKET = -88"

definition IsTec :: "Result \<Rightarrow> bool" where "IsTec r \<longleftrightarrow> r \<ge> TecCLAIM"
definition IsTef :: "Result \<Rightarrow> bool" where "IsTef r \<longleftrightarrow> r \<ge> -199 \<and> r \<le> -100"
definition IsTem :: "Result \<Rightarrow> bool" where "IsTem r \<longleftrightarrow> r \<ge> -299 \<and> r \<le> -200"

text \<open>
  A transaction, with the parts the queue reads: its type, the common fields, and the Go type with the
  fields that bear on its consequences.  An amount is native with a signed 64-bit number of drops, or
  not.
\<close>

record amount =
  IsNative :: bool
  xrp :: "64 word"

definition Drops :: "amount \<Rightarrow> 64 word" where
  "Drops a = (if \<not> IsNative a then 0 else xrp a)"

datatype txType =
    TypeRegularKeySet | TypeSignerListSet | TypeAccountDelete | TypeXChainClaim
  | TypeXChainAddClaimAttestation | TypeXChainAddAccountCreateAttest | TypeAccountSet | TypeBatch
  | TypeOther nat

datatype tx_body =
    TicketCreate (TicketCount: u32)
  | AccountSet (SetFlag: "u32 option") (ClearFlag: "u32 option")
  | Payment (Amount: amount) (SendMax: "amount option")
  | OfferCreate (TakerGets: amount)
  | EscrowCreate (Amount: amount)
  | PaymentChannelCreate (Amount: amount)
  | PaymentChannelFund (Amount: amount)
  | XChainCommit (Amount: amount)
  | SponsorshipSet (FeeAmountDelta: "amount option")
  | OtherTx

record Common =
  SrcAccount :: string
  FeeField :: string
  Sequence :: "u32 option"
  TicketSequence :: "u32 option"
  LastLedgerSequence :: "u32 option"
  TxFlags :: "u32 option"
  HasPreviousTxnID :: bool
  AccountTxnID :: string
  Delegate :: string
  Sponsor :: string
  SponsorFlags :: "u32 option"

record txn =
  TxType :: txType
  GetCommon :: Common
  body :: tx_body
  GetRawBytes :: bytes

text \<open>\<open>ParseUint\<close> of \<^verbatim>\<open>strconv\<close> in base 10: the value and whether there was no error; the value is the maximum on a range error and 0 on a syntax error.\<close>

fun parse_digits :: "nat \<Rightarrow> string \<Rightarrow> u64 \<times> bool" where
  "parse_digits n [] = (of_nat n, True)"
| "parse_digits n (c # s) =
     (if of_char c < (48 :: nat) \<or> of_char c > (57 :: nat) then (0, False)
      else
        let n' = n * 10 + (of_char c - 48) in
        if n' \<ge> 2 ^ 64 then (NOT 0, False) else parse_digits n' s)"

definition ParseUint :: "string \<Rightarrow> u64 \<times> bool" where
  "ParseUint s = (if s = [] then (0, False) else parse_digits 0 s)"

section \<open>Candidates\<close>

definition RetriesAllowed :: int where "RetriesAllowed = 10"

record txConsequences =
  Fee :: u64
  PotentialSpend :: u64
  IsBlocker :: bool
  FollowingSeq :: SeqProxy

type_synonym ref = nat
type_synonym ApplyFlags = u32
type_synonym rules = nat

record candidate =
  Txn :: "txn option"
  blob :: bytes
  TxID :: hash256
  Account :: account_id
  FeeLevel :: FeeLevel
  SeqProxy :: SeqProxy
  LastValid :: u32
  RetriesRemaining :: int
  LastResult :: Result
  PreflightResult :: Result
  Flags :: ApplyFlags
  PreflightFlags :: ApplyFlags
  PreflightRules :: rules
  Consequences :: txConsequences

definition newCandidate ::
  "hash256 \<Rightarrow> account_id \<Rightarrow> FeeLevel \<Rightarrow> SeqProxy \<Rightarrow> u32 \<Rightarrow> Result \<Rightarrow> txConsequences \<Rightarrow> candidate" where
  "newCandidate txID account feeLevel seqProxy lastValid preflightResult consequences =
     \<lparr>Txn = None, blob = [], TxID = txID, Account = account, FeeLevel = feeLevel, SeqProxy = seqProxy,
      LastValid = lastValid, RetriesRemaining = RetriesAllowed, LastResult = 0,
      PreflightResult = preflightResult, Flags = 0, PreflightFlags = 0, PreflightRules = 0,
      Consequences = consequences\<rparr>"

definition rawBlob :: "candidate \<Rightarrow> bytes" where
  "rawBlob c =
     (if length (blob c) > 0 then blob c
      else case Txn c of Some t \<Rightarrow> GetRawBytes t | None \<Rightarrow> [])"

definition rawBlobSize :: "candidate \<Rightarrow> u64" where
  "rawBlobSize c =
     (if length (blob c) > 0 then of_nat (length (blob c))
      else case Txn c of Some t \<Rightarrow> of_nat (length (GetRawBytes t)) | None \<Rightarrow> 0)"

text \<open>\<open>candidateTransaction\<close> parses the retained blob; \<open>parse\<close> stands for \<^verbatim>\<open>tx.ParseFromBinary\<close>.\<close>

definition candidateTransaction :: "(bytes \<Rightarrow> txn option) \<Rightarrow> candidate \<Rightarrow> txn option" where
  "candidateTransaction parse c =
     (if length (blob c) \<ge> 32 then
        case parse (blob c) of Some t \<Rightarrow> Some t | None \<Rightarrow> Txn c
      else Txn c)"

section \<open>The queue of one account\<close>

record accountQueue =
  aqAccount :: account_id
  Transactions :: "(SeqProxy \<times> ref) list"
  RetryPenalty :: bool
  DropPenalty :: bool

definition newAccountQueue :: "account_id \<Rightarrow> accountQueue" where
  "newAccountQueue account =
     \<lparr>aqAccount = account, Transactions = [], RetryPenalty = False, DropPenalty = False\<rparr>"

type_synonym heap = "ref \<Rightarrow> candidate"

definition Add :: "heap \<Rightarrow> accountQueue \<Rightarrow> ref \<Rightarrow> accountQueue" where
  "Add h aq c = aq\<lparr>Transactions := AList.update (SeqProxy (h c)) c (Transactions aq)\<rparr>"

definition Remove :: "accountQueue \<Rightarrow> SeqProxy \<Rightarrow> bool \<times> accountQueue" where
  "Remove aq seqProxy =
     (case map_of (Transactions aq) seqProxy of
        Some _ \<Rightarrow> (True, aq\<lparr>Transactions := AList.delete seqProxy (Transactions aq)\<rparr>)
      | None \<Rightarrow> (False, aq))"

definition removeCandidate :: "heap \<Rightarrow> accountQueue \<Rightarrow> ref \<Rightarrow> bool \<times> accountQueue" where
  "removeCandidate h aq c =
     (if map_of (Transactions aq) (SeqProxy (h c)) = Some c
      then (True, aq\<lparr>Transactions := AList.delete (SeqProxy (h c)) (Transactions aq)\<rparr>)
      else (False, aq))"

definition Count :: "accountQueue \<Rightarrow> nat" where
  "Count aq = length (Transactions aq)"

definition Empty :: "accountQueue \<Rightarrow> bool" where
  "Empty aq \<longleftrightarrow> length (Transactions aq) = 0"

definition PrevTx :: "heap \<Rightarrow> accountQueue \<Rightarrow> SeqProxy \<Rightarrow> ref option" where
  "PrevTx h aq seqProxy =
     fold (\<lambda>(sp, c) prev.
         if Less sp seqProxy then
           (case prev of
              None \<Rightarrow> Some c
            | Some p \<Rightarrow> if Less (SeqProxy (h p)) sp then Some c else prev)
         else prev) (Transactions aq) None"

definition GetNextTx :: "heap \<Rightarrow> accountQueue \<Rightarrow> SeqProxy \<Rightarrow> ref option" where
  "GetNextTx h aq seqProxy =
     fold (\<lambda>(sp, c) next'.
         if Less seqProxy sp then
           (case next' of
              None \<Rightarrow> Some c
            | Some n \<Rightarrow> if Less sp (SeqProxy (h n)) then Some c else next')
         else next') (Transactions aq) None"

definition FirstSeqTx :: "heap \<Rightarrow> accountQueue \<Rightarrow> ref option" where
  "FirstSeqTx h aq =
     fold (\<lambda>(_, c) first.
         if \<not> IsTicket (SeqProxy (h c)) then
           (case first of
              None \<Rightarrow> Some c
            | Some f \<Rightarrow> if Value (SeqProxy (h c)) < Value (SeqProxy (h f)) then Some c else first)
         else first) (Transactions aq) None"

definition RelevantCount :: "accountQueue \<Rightarrow> SeqProxy \<Rightarrow> nat" where
  "RelevantCount aq acctSeqProx =
     fold (\<lambda>(sp, _) count. if \<not> Less sp acctSeqProx then count + 1 else count) (Transactions aq) 0"

definition FirstRelevant :: "heap \<Rightarrow> accountQueue \<Rightarrow> SeqProxy \<Rightarrow> ref option" where
  "FirstRelevant h aq acctSeqProx =
     fold (\<lambda>(sp, c) first.
         if \<not> Less sp acctSeqProx then
           (case first of
              None \<Rightarrow> Some c
            | Some f \<Rightarrow> if Less sp (SeqProxy (h f)) then Some c else first)
         else first) (Transactions aq) None"

definition SortedCandidates :: "heap \<Rightarrow> accountQueue \<Rightarrow> ref list" where
  "SortedCandidates h aq = sort_key (\<lambda>c. SeqProxy (h c)) (map snd (Transactions aq))"

definition RelevantSortedCandidates :: "heap \<Rightarrow> accountQueue \<Rightarrow> SeqProxy \<Rightarrow> ref list" where
  "RelevantSortedCandidates h aq acctSeqProx =
     filter (\<lambda>c. \<not> Less (SeqProxy (h c)) acctSeqProx) (SortedCandidates h aq)"

definition upperBoundSeqProxy :: "accountQueue \<Rightarrow> SeqProxy \<Rightarrow> SeqProxy option" where
  "upperBoundSeqProxy aq sp =
     fold (\<lambda>(candidate, _) best.
         if \<not> Less sp candidate then best
         else
           (case best of
              None \<Rightarrow> Some candidate
            | Some b \<Rightarrow> if Less candidate b then Some candidate else best)) (Transactions aq) None"

text \<open>\<open>getNextQueuableSeq\<close>: the start of the chain, then the walk over the candidates after it.\<close>

fun chain_start :: "heap \<Rightarrow> SeqProxy \<Rightarrow> ref list \<Rightarrow> ref list" where
  "chain_start h acctSeqProx [] = []"
| "chain_start h acctSeqProx (c # cs) =
     (if \<not> IsTicket (SeqProxy (h c)) \<and> \<not> Less (SeqProxy (h c)) acctSeqProx then
        (if SeqProxy (h c) = acctSeqProx then c # cs else [])
      else chain_start h acctSeqProx cs)"

fun chain_walk :: "heap \<Rightarrow> SeqProxy \<Rightarrow> u32 \<Rightarrow> ref list \<Rightarrow> u32" where
  "chain_walk h acctSeqProx attempt [] = attempt"
| "chain_walk h acctSeqProx attempt (c # cs) =
     (if IsTicket (SeqProxy (h c)) then chain_walk h acctSeqProx attempt cs
      else if Less (SeqProxy (h c)) acctSeqProx then chain_walk h acctSeqProx attempt cs
      else if attempt < Value (SeqProxy (h c)) then attempt
      else chain_walk h acctSeqProx (Value (FollowingSeq (Consequences (h c)))) cs)"

definition getNextQueuableSeq :: "heap \<Rightarrow> accountQueue \<Rightarrow> u32 \<Rightarrow> u32" where
  "getNextQueuableSeq h aq acctSeq =
     (if Empty aq then acctSeq
      else
        let acctSeqProx = NewSeqProxySequence acctSeq in
        case chain_start h acctSeqProx (SortedCandidates h aq) of
          [] \<Rightarrow> acctSeq
        | c # cs \<Rightarrow> chain_walk h acctSeqProx (Value (FollowingSeq (Consequences (h c)))) cs)"

section \<open>The queue\<close>

text \<open>\<open>next_ref\<close> is the next unused pointer: \<open>alloc\<close> is the allocation of a candidate.\<close>

record TxQ =
  config :: Config
  metrics :: feeMetrics
  heap :: heap
  next_ref :: ref
  byFee :: "ref list"
  byID :: "(hash256 \<times> ref) list"
  byAccount :: "(account_id \<times> accountQueue) list"
  maxSize :: "u64 option"
  parentHash :: hash256
  txqFull :: u64

definition NewTxQ :: "Config \<Rightarrow> config_error + TxQ" where
  "NewTxQ cfg =
     bindE (normalize cfg) (\<lambda>effective.
       Inr \<lparr>config = effective, metrics = newFeeMetrics effective,
            heap = (\<lambda>_. newCandidate 0 0 0 (seq_proxy 0 False) 0 0
              \<lparr>Fee = 0, PotentialSpend = 0, IsBlocker = False, FollowingSeq = seq_proxy 0 False\<rparr>),
            next_ref = 0, byFee = [], byID = [], byAccount = [], maxSize = None, parentHash = 0,
            txqFull = 0\<rparr>)"

definition alloc :: "TxQ \<Rightarrow> candidate \<Rightarrow> ref \<times> TxQ" where
  "alloc q c = (next_ref q, q\<lparr>heap := (heap q)(next_ref q := c), next_ref := Suc (next_ref q)\<rparr>)"

definition incTxQFull :: "TxQ \<Rightarrow> TxQ" where
  "incTxQFull q = q\<lparr>txqFull := txqFull q + 1\<rparr>"

definition isFull :: "TxQ \<Rightarrow> bool" where
  "isFull q = (case maxSize q of None \<Rightarrow> False | Some m \<Rightarrow> of_nat (length (byFee q)) \<ge> m)"

definition isFullPct :: "TxQ \<Rightarrow> u32 \<Rightarrow> bool" where
  "isFullPct q fillPct =
     (case maxSize q of
        None \<Rightarrow> False
      | Some m \<Rightarrow>
        if fillPct = 0 then True
        else if fillPct \<ge> 100 then of_nat (length (byFee q)) \<ge> m
        else
          let threshold = m div 100 * ucast fillPct;
              threshold = threshold + (m mod 100) * ucast fillPct div 100
          in of_nat (length (byFee q)) \<ge> threshold)"

definition Size :: "TxQ \<Rightarrow> nat" where
  "Size q = length (byFee q)"

record Metrics =
  TxCount :: u64
  TxQMaxSize :: "u64 option"
  TxInLedger :: u64
  TxPerLedger :: u64
  ReferenceFeeLevel :: u64
  MinProcessingFeeLevel :: u64
  MedFeeLevel :: u64
  OpenLedgerFeeLevel :: u64
  TxQFull :: u64

definition QueueMetrics :: "TxQ \<Rightarrow> u32 \<Rightarrow> Metrics" where
  "QueueMetrics q txInLedger =
     (let s = snapshot (metrics q);
          openLedgerFeeLevel = scaleFeeLevel s txInLedger;
          minProcessingFeeLevel =
            (if isFull q \<and> length (byFee q) > 0
             then FeeLevel (heap q (byFee q ! (length (byFee q) - 1))) + 1 else BaseLevel)
      in \<lparr>TxCount = of_nat (length (byFee q)), TxQMaxSize = maxSize q, TxInLedger = ucast txInLedger,
          TxPerLedger = TxnsExpected s, ReferenceFeeLevel = BaseLevel,
          MinProcessingFeeLevel = minProcessingFeeLevel, MedFeeLevel = EscalationMultiplier s,
          OpenLedgerFeeLevel = openLedgerFeeLevel, TxQFull = txqFull q\<rparr>)"

definition saturatingSnapshotAdd :: "u64 \<Rightarrow> u64 \<Rightarrow> u64" where
  "saturatingSnapshotAdd t a = (if NOT 0 - t < a then NOT 0 else t + a)"

definition SnapshotStats :: "TxQ \<Rightarrow> u64 \<times> u64" where
  "SnapshotStats q =
     fold (\<lambda>c (count, bytes).
         (saturatingSnapshotAdd count 1, saturatingSnapshotAdd bytes (rawBlobSize (heap q c))))
       (byFee q) (0, 0)"

definition GetTxBlob :: "TxQ \<Rightarrow> hash256 \<Rightarrow> bytes option" where
  "GetTxBlob q txID =
     (case map_of (byID q) txID of
        None \<Rightarrow> None
      | Some c \<Rightarrow> let raw = rawBlob (heap q c) in if length raw = 0 then None else Some raw)"

definition RequiredFeeLevel :: "TxQ \<Rightarrow> u32 \<Rightarrow> FeeLevel" where
  "RequiredFeeLevel q txInLedger = scaleFeeLevel (snapshot (metrics q)) txInLedger"

text \<open>A 32-byte array is one word, so \<open>xorHash\<close> is one exclusive or and \<^verbatim>\<open>bytes.Compare\<close> the order of words.\<close>

definition xorHash :: "hash256 \<Rightarrow> hash256 \<Rightarrow> hash256" where
  "xorHash a b = a XOR b"

definition candidateLess :: "TxQ \<Rightarrow> candidate \<Rightarrow> candidate \<Rightarrow> bool" where
  "candidateLess q a b =
     (if FeeLevel a \<noteq> FeeLevel b then FeeLevel a > FeeLevel b
      else xorHash (TxID a) (parentHash q) < xorHash (TxID b) (parentHash q))"

function insert_search :: "('a \<Rightarrow> bool) \<Rightarrow> 'a list \<Rightarrow> nat \<Rightarrow> nat \<Rightarrow> nat" where
  "insert_search before xs lo hi =
     (if lo < hi then
        let mid = (lo + hi) div 2 in
        if before (xs ! mid) then insert_search before xs lo mid
        else insert_search before xs (mid + 1) hi
      else lo)"
  by pat_completeness auto
termination
  by (relation "measure (\<lambda>(before, xs, lo, hi). hi - lo)") auto

declare insert_search.simps [simp del]

definition findInsertPosition :: "TxQ \<Rightarrow> candidate \<Rightarrow> nat" where
  "findInsertPosition q c = insert_search (\<lambda>r. candidateLess q c (heap q r)) (byFee q) 0 (length (byFee q))"

definition insertByFee :: "TxQ \<Rightarrow> ref \<Rightarrow> TxQ" where
  "insertByFee q c =
     (let pos = findInsertPosition q (heap q c)
      in q\<lparr>byFee := take pos (byFee q) @ c # drop pos (byFee q),
           byID := AList.update (TxID (heap q c)) c (byID q)\<rparr>)"

definition removeByFee :: "TxQ \<Rightarrow> ref \<Rightarrow> TxQ" where
  "removeByFee q c =
     (if c \<in> set (byFee q) then
        let q = q\<lparr>byFee := remove1 c (byFee q)\<rparr> in
        if map_of (byID q) (TxID (heap q c)) = Some c
        then q\<lparr>byID := AList.delete (TxID (heap q c)) (byID q)\<rparr> else q
      else q)"

definition erase :: "TxQ \<Rightarrow> ref \<Rightarrow> TxQ" where
  "erase q c =
     (let q = removeByFee q c;
          q = (case map_of (byAccount q) (Account (heap q c)) of
                 Some aq \<Rightarrow>
                   q\<lparr>byAccount := AList.update (Account (heap q c)) (snd (removeCandidate (heap q) aq c)) (byAccount q)\<rparr>
               | None \<Rightarrow> q)
      in if map_of (byID q) (TxID (heap q c)) = Some c
         then q\<lparr>byID := AList.delete (TxID (heap q c)) (byID q)\<rparr> else q)"

definition rebuildByFee :: "TxQ \<Rightarrow> TxQ" where
  "rebuildByFee q =
     (let accounts = sort (map fst (byAccount q));
          candidates = concat (map (\<lambda>a. case map_of (byAccount q) a of
             Some aq \<Rightarrow> SortedCandidates (heap q) aq | None \<Rightarrow> []) accounts)
      in fold (\<lambda>c q. insertByFee q c) candidates (q\<lparr>byFee := [], byID := []\<rparr>))"

record CandidateDetails =
  cdTxID :: hash256
  cdAccount :: account_id
  cdFeeLevel :: FeeLevel
  cdSeqProxy :: SeqProxy
  cdLastValid :: u32
  cdRetriesRemaining :: int
  cdLastResult :: Result
  HasLastResult :: bool
  cdPreflightResult :: Result
  cdFee :: u64
  cdPotentialSpend :: u64
  AuthChange :: bool
  TxBlob :: bytes

definition candidateDetails :: "candidate \<Rightarrow> CandidateDetails" where
  "candidateDetails c =
     \<lparr>cdTxID = TxID c, cdAccount = Account c, cdFeeLevel = FeeLevel c, cdSeqProxy = SeqProxy c,
      cdLastValid = LastValid c, cdRetriesRemaining = RetriesRemaining c, cdLastResult = LastResult c,
      HasLastResult = (RetriesRemaining c < RetriesAllowed), cdPreflightResult = PreflightResult c,
      cdFee = Fee (Consequences c), cdPotentialSpend = PotentialSpend (Consequences c),
      AuthChange = IsBlocker (Consequences c), TxBlob = rawBlob c\<rparr>"

definition AccountTxs :: "TxQ \<Rightarrow> account_id \<Rightarrow> CandidateDetails list" where
  "AccountTxs q account =
     (case map_of (byAccount q) account of
        None \<Rightarrow> []
      | Some aq \<Rightarrow>
        if Empty aq then []
        else map (\<lambda>c. candidateDetails (heap q c)) (SortedCandidates (heap q) aq))"

definition AllTxs :: "TxQ \<Rightarrow> CandidateDetails list" where
  "AllTxs q = map (\<lambda>c. candidateDetails (heap q c)) (byFee q)"

section \<open>Closed ledgers\<close>

text \<open>
  \<open>ProcessClosedLedger\<close>: the arguments are the closed ledger's sequence, its transaction count and the
  fee levels of its transactions.  The new maximum size, then the expired candidates with the penalty of
  their accounts, then the empty account queues.
\<close>

definition newMaxSize :: "TxQ \<Rightarrow> u64" where
  "newMaxSize q =
     (let product = TxnsExpected (snapshot (metrics q));
          product = (if product > NOT 0 div ucast (LedgersInQueue (config q)) then NOT 0
                     else product * ucast (LedgersInQueue (config q)))
      in max product (ucast (QueueSizeMin (config q))))"

definition expired :: "u32 \<Rightarrow> candidate \<Rightarrow> bool" where
  "expired ledgerSeq c \<longleftrightarrow> LastValid c \<noteq> 0 \<and> LastValid c \<le> ledgerSeq"

definition penalize :: "TxQ \<Rightarrow> ref \<Rightarrow> TxQ" where
  "penalize q c =
     (case map_of (byAccount q) (Account (heap q c)) of
        Some aq \<Rightarrow> q\<lparr>byAccount := AList.update (Account (heap q c)) (aq\<lparr>DropPenalty := True\<rparr>) (byAccount q)\<rparr>
      | None \<Rightarrow> q)"

definition ProcessClosedLedger :: "TxQ \<Rightarrow> u32 \<Rightarrow> FeeLevel list \<Rightarrow> u32 \<Rightarrow> bool \<Rightarrow> u64 \<times> TxQ" where
  "ProcessClosedLedger q ledgerSeq feeLevels transactionCount timeLeap =
     (let (txCount, fm) = update (metrics q) feeLevels (ucast transactionCount) timeLeap (config q);
          q = q\<lparr>metrics := fm\<rparr>;
          q = (if timeLeap then q else q\<lparr>maxSize := Some (newMaxSize q)\<rparr>);
          toRemove = filter (\<lambda>c. expired ledgerSeq (heap q c)) (byFee q);
          q = fold (\<lambda>c q. penalize q c) toRemove q;
          q = fold (\<lambda>c q. erase q c) toRemove q;
          q = q\<lparr>byAccount := filter (\<lambda>(account, aq). \<not> Empty aq) (byAccount q)\<rparr>
      in (txCount, q))"

definition clear :: "TxQ \<Rightarrow> TxQ" where
  "clear q = q\<lparr>byFee := [], byID := [], byAccount := []\<rparr>"

definition setMaxSize :: "TxQ \<Rightarrow> u64 \<Rightarrow> TxQ" where
  "setMaxSize q m = q\<lparr>maxSize := Some m\<rparr>"

definition NextQueuableSeq :: "TxQ \<Rightarrow> account_id \<Rightarrow> u32 \<Rightarrow> u32" where
  "NextQueuableSeq q account acctSeq =
     (case map_of (byAccount q) account of
        None \<Rightarrow> acctSeq
      | Some aq \<Rightarrow> if Empty aq then acctSeq else getNextQueuableSeq (heap q) aq acctSeq)"

record FeeAndSeq =
  RequiredFee :: u64
  AccountSeq :: u32
  AvailableSeq :: u32

definition TxRequiredFeeAndSeq :: "TxQ \<Rightarrow> account_id \<Rightarrow> u32 \<Rightarrow> u64 \<Rightarrow> u32 \<Rightarrow> FeeAndSeq" where
  "TxRequiredFeeAndSeq q account acctSeq baseFee txInLedger =
     (let feeLevel = scaleFeeLevel (snapshot (metrics q)) txInLedger;
          requiredFee = ToDrops feeLevel baseFee;
          requiredFee = (if requiredFee > 9223372036854775807 then 9223372036854775807 else requiredFee);
          availableSeq = (case map_of (byAccount q) account of
             Some aq \<Rightarrow> getNextQueuableSeq (heap q) aq acctSeq | None \<Rightarrow> acctSeq)
      in \<lparr>RequiredFee = requiredFee, AccountSeq = acctSeq, AvailableSeq = availableSeq\<rparr>)"

end
