(* ===== verification/Txq_Accept.thy ===== *)
theory Txq_Accept
  imports Txq_State
begin

text \<open>
  Moving candidates into the open ledger, \<^verbatim>\<open>src/internal/txq/accept.go\<close>.  The open ledger is a state of a
  type \<open>'l\<close> of its own; the \<open>AcceptContext\<close> interface is a record of functions on it, of which only
  the application of a transaction changes it.  The model is the uncancelled pass of \<open>Accept\<close>: the
  cancellation checks of \<open>AcceptContext\<close> and the timing of slow transactions, which do not touch the
  queue, are left out.
\<close>

section \<open>The open ledger\<close>

record 'l AcceptContext =
  acGetTxInLedger :: "'l \<Rightarrow> u32"
  acApplyTransactionWithFlags :: "'l \<Rightarrow> txn option \<Rightarrow> ApplyFlags \<Rightarrow> (Result \<times> bool) \<times> 'l"
  acPreflightTransactionWithFlags :: "'l \<Rightarrow> txn option \<Rightarrow> ApplyFlags \<Rightarrow> Result"
  acRulesIdentity :: "'l \<Rightarrow> rules"
  acGetParentHash :: "'l \<Rightarrow> hash256"

section \<open>Removing and dropping\<close>

text \<open>An assignment through a pointer to a candidate, and through a pointer to an account's queue.\<close>

definition modify :: "TxQ \<Rightarrow> ref \<Rightarrow> (candidate \<Rightarrow> candidate) \<Rightarrow> TxQ" where
  "modify q c f = q\<lparr>heap := (heap q)(c := f (heap q c))\<rparr>"

definition setAccountQueue :: "TxQ \<Rightarrow> account_id \<Rightarrow> accountQueue \<Rightarrow> TxQ" where
  "setAccountQueue q a aq = q\<lparr>byAccount := AList.update a aq (byAccount q)\<rparr>"

fun index_of :: "ref \<Rightarrow> ref list \<Rightarrow> nat option" where
  "index_of c [] = None"
| "index_of c (x # xs) = (if x = c then Some 0 else map_option Suc (index_of c xs))"

definition indexInByFee :: "TxQ \<Rightarrow> ref \<Rightarrow> nat option" where
  "indexInByFee q c = index_of c (byFee q)"

definition eraseAndAdvance :: "TxQ \<Rightarrow> nat \<Rightarrow> ref \<Rightarrow> TxQ \<times> nat" where
  "eraseAndAdvance q idx c =
     (case map_of (byAccount q) (Account (heap q c)) of
        None \<Rightarrow> (removeByFee q c, idx)
      | Some aq \<Rightarrow>
        let nextCandidate = GetNextTx (heap q) aq (SeqProxy (heap q c));
            feeNext = (if idx + 1 < length (byFee q) then Some (byFee q ! (idx + 1)) else None);
            useAccountNext = (case nextCandidate of
               None \<Rightarrow> False
             | Some n \<Rightarrow> (case feeNext of
                 None \<Rightarrow> True
               | Some f \<Rightarrow> candidateLess q (heap q n) (heap q f)));
            q = erase q c
        in if useAccountNext then
             (case indexInByFee q (the nextCandidate) of
                Some j \<Rightarrow> (q, j)
              | None \<Rightarrow> (q, idx))
           else (q, idx))"

definition dropLastForAccount :: "TxQ \<Rightarrow> accountQueue \<Rightarrow> ref \<Rightarrow> nat \<Rightarrow> TxQ \<times> nat" where
  "dropLastForAccount q aq current idx =
     (let sorted' = SortedCandidates (heap q) aq in
      if length sorted' = 0 then (q, idx)
      else
        let dropTarget = sorted' ! (length sorted' - 1) in
        if dropTarget = current then (q, idx)
        else
          let dropIdx = indexInByFee q dropTarget;
              q = erase q dropTarget
          in (q, case dropIdx of Some j \<Rightarrow> if j < idx then idx - 1 else idx | None \<Rightarrow> idx))"

section \<open>One candidate\<close>

text \<open>
  The cached preflight verdict of a candidate is used again only for the same flags and rules;
  otherwise preflight runs again and its verdict is stored.  The result is the queue and the failing
  verdict, if any.
\<close>

definition recheckPreflight ::
  "(bytes \<Rightarrow> txn option) \<Rightarrow> 'l AcceptContext \<Rightarrow> TxQ \<Rightarrow> 'l \<Rightarrow> ref \<Rightarrow> TxQ \<times> Result option" where
  "recheckPreflight parse ctx q l c =
     (let cand = heap q c; currentRules = acRulesIdentity ctx l in
      if PreflightResult cand \<noteq> TesSUCCESS \<or> PreflightFlags cand \<noteq> Flags cand \<or> PreflightRules cand \<noteq> currentRules then
        let preflight = acPreflightTransactionWithFlags ctx l (candidateTransaction parse cand) (Flags cand);
            q = modify q c (\<lambda>d. d\<lparr>PreflightResult := preflight, PreflightFlags := Flags d, PreflightRules := currentRules\<rparr>)
        in (q, if preflight \<noteq> TesSUCCESS then Some preflight else None)
      else (q, None))"

text \<open>What happens to a candidate that was not applied.\<close>

definition acceptFailed :: "TxQ \<Rightarrow> accountQueue \<Rightarrow> ref \<Rightarrow> nat \<Rightarrow> Result \<Rightarrow> TxQ \<times> nat" where
  "acceptFailed q aq c i result =
     (let q = modify q c (\<lambda>d. d\<lparr>LastResult := result\<rparr>);
          cand = heap q c
      in if IsTef result \<or> IsTem result \<or> RetriesRemaining cand \<le> 0 then
           let aq = (if RetriesRemaining cand \<le> 0 then aq\<lparr>RetryPenalty := True\<rparr> else aq\<lparr>DropPenalty := True\<rparr>)
           in eraseAndAdvance (setAccountQueue q (Account cand) aq) i c
         else
           let q = modify q c (\<lambda>d. d\<lparr>RetriesRemaining :=
                 if RetryPenalty aq \<and> RetriesRemaining d > 2 then 1 else RetriesRemaining d - 1\<rparr>)
           in if DropPenalty aq \<and> Count aq > 1 \<and> isFullPct q 95 then
                if IsTicket (SeqProxy cand) then eraseAndAdvance q i c
                else (case dropLastForAccount q aq c i of (q, i) \<Rightarrow> (q, i + 1))
              else (q, i + 1))"

text \<open>
  One iteration of the loop at index \<open>i\<close>: \<open>None\<close> when it breaks, else the queue, the ledger, the next
  index, and whether a transaction was applied.
\<close>

definition acceptStep ::
  "(bytes \<Rightarrow> txn option) \<Rightarrow> 'l AcceptContext \<Rightarrow> feeMetricsSnapshot \<Rightarrow> TxQ \<Rightarrow> 'l \<Rightarrow> nat \<Rightarrow>
     (TxQ \<times> 'l \<times> nat \<times> bool) option" where
  "acceptStep parse ctx s q l i =
     (let c = byFee q ! i; cand = heap q c in
      case map_of (byAccount q) (Account cand) of
        None \<Rightarrow> Some (erase q c, l, i, False)
      | Some aq \<Rightarrow>
        if \<not> IsTicket (SeqProxy cand) \<and>
           (case FirstSeqTx (heap q) aq of
              None \<Rightarrow> False
            | Some f \<Rightarrow> Value (SeqProxy cand) > Value (SeqProxy (heap q f)))
        then Some (q, l, i + 1, False)
        else if FeeLevel cand < scaleFeeLevel s (acGetTxInLedger ctx l) then None
        else
          case recheckPreflight parse ctx q l c of
            (q, Some failure) \<Rightarrow>
              (case acceptFailed q aq c i failure of (q, i) \<Rightarrow> Some (q, l, i, False))
          | (q, None) \<Rightarrow>
              (case acApplyTransactionWithFlags ctx l (candidateTransaction parse (heap q c)) (Flags (heap q c)) of
                 ((result, applied), l) \<Rightarrow>
                   if applied then (case eraseAndAdvance q i c of (q, i) \<Rightarrow> Some (q, l, i, True))
                   else (case acceptFailed q aq c i result of (q, i) \<Rightarrow> Some (q, l, i, False))))"

section \<open>Termination\<close>

text \<open>Every iteration removes a candidate from the fee order or advances the index.\<close>

lemma byFee_erase [simp]: "byFee (erase q c) = remove1 c (byFee q)"
  by (auto simp: erase_def removeByFee_def Let_def remove1_idem split: option.splits)

lemma byFee_removeByFee [simp]: "byFee (removeByFee q c) = remove1 c (byFee q)"
  by (simp add: removeByFee_def Let_def remove1_idem)

lemma byFee_modify [simp]: "byFee (modify q c f) = byFee q" "byFee (setAccountQueue q a aq) = byFee q"
  by (simp_all add: modify_def setAccountQueue_def)

lemma byFee_eraseAndAdvance: "eraseAndAdvance q i c = (q', i') \<Longrightarrow> byFee q' = remove1 c (byFee q)"
  by (auto simp: eraseAndAdvance_def Let_def split: option.splits if_splits)

lemma length_remove1_less: "c \<in> set xs \<Longrightarrow> length (remove1 c xs) < length xs"
  using length_pos_if_in_set[of c xs] by (simp add: length_remove1)

lemma index_of_None [simp]: "index_of c xs = None \<longleftrightarrow> c \<notin> set xs"
  by (induction xs) auto

lemma index_of_Some: "index_of c xs = Some j \<Longrightarrow> j < length xs \<and> xs ! j = c"
  by (induction xs arbitrary: j) (auto split: if_splits)

lemma index_of_in: "index_of c xs = Some j \<Longrightarrow> c \<in> set xs"
  using index_of_Some[of c xs j] nth_mem by fastforce

lemma dropLast_progress:
  assumes "dropLastForAccount q aq c i = (q', i')"
  shows "length (byFee q') < length (byFee q) \<or> byFee q' = byFee q \<and> i' = i"
proof -
  let ?s = "SortedCandidates (heap q) aq"
  let ?t = "?s ! (length ?s - 1)"
  consider "q' = q" "i' = i" | "?t \<in> set (byFee q)" "q' = erase q ?t" | "?t \<notin> set (byFee q)" "q' = erase q ?t" "i' = i"
    using assms by (cases "?t \<in> set (byFee q)")
      (auto simp: dropLastForAccount_def Let_def indexInByFee_def dest: index_of_in split: if_splits option.splits)
  then show ?thesis by cases (simp_all add: length_remove1_less remove1_idem)
qed

lemma acceptFailed_progress:
  assumes "acceptFailed q aq c i r = (q', i')" "c \<in> set (byFee q)"
  shows "length (byFee q') < length (byFee q) \<or> byFee q' = byFee q \<and> i' = i + 1"
proof -
  have e: "length (byFee q') < length (byFee q)" if "eraseAndAdvance p i c = (q', i')" "byFee p = byFee q" for p
    using byFee_eraseAndAdvance[OF that(1)] that(2) length_remove1_less[OF assms(2)] by simp
  have d: "length (byFee q') < length (byFee q) \<or> byFee q' = byFee q \<and> j = i"
    if "dropLastForAccount p aq c i = (q', j)" "byFee p = byFee q" for p j
    using dropLast_progress[OF that(1)] that(2) by simp
  show ?thesis using assms(1) unfolding acceptFailed_def Let_def
    by (auto split: if_splits prod.splits dest: e d)
qed

lemma acceptStep_cases:
  assumes "acceptStep parse ctx s q l i = Some (q', l', i', a)"
  obtains
    (orphan) "map_of (byAccount q) (Account (heap q (byFee q ! i))) = None" "q' = erase q (byFee q ! i)" "i' = i"
  | (skip) "q' = q" "i' = i + 1"
  | (failed) aq p f r where "map_of (byAccount q) (Account (heap q (byFee q ! i))) = Some aq"
      "recheckPreflight parse ctx q l (byFee q ! i) = (p, f)" "acceptFailed p aq (byFee q ! i) i r = (q', i')"
  | (applied) aq p where "map_of (byAccount q) (Account (heap q (byFee q ! i))) = Some aq"
      "recheckPreflight parse ctx q l (byFee q ! i) = (p, None)" "eraseAndAdvance p i (byFee q ! i) = (q', i')"
proof (cases "map_of (byAccount q) (Account (heap q (byFee q ! i)))")
  case None
  have "q' = erase q (byFee q ! i)" "i' = i" using assms unfolding acceptStep_def Let_def None by auto
  then show thesis by (rule orphan[OF None])
next
  case (Some aq)
  let ?c = "byFee q ! i"
  obtain p f where p: "recheckPreflight parse ctx q l ?c = (p, f)" by fastforce
  obtain r b k where ap: "acApplyTransactionWithFlags ctx l (candidateTransaction parse (heap p ?c)) (Flags (heap p ?c)) = ((r, b), k)"
    by (metis prod.exhaust)
  have "(q' = q \<and> i' = i + 1) \<or> (\<exists>r. acceptFailed p aq ?c i r = (q', i')) \<or> (f = None \<and> eraseAndAdvance p i ?c = (q', i'))"
    using assms Some p ap unfolding acceptStep_def Let_def
    by (cases f) (simp_all split: if_splits prod.splits, blast+)
  then consider "q' = q" "i' = i + 1" | r where "acceptFailed p aq ?c i r = (q', i')" | "f = None" "eraseAndAdvance p i ?c = (q', i')"
    by blast
  then show thesis
  proof cases
    case 1
    then show thesis by (rule skip)
  next
    case (2 r)
    then show thesis by (rule failed[OF Some p])
  next
    case 3
    then show thesis using p by (intro applied[OF Some]) simp_all
  qed
qed

lemma acceptStep_progress:
  assumes "acceptStep parse ctx s q l i = Some (q', l', i', a)" "i < length (byFee q)"
  shows "length (byFee q') < length (byFee q) \<or> byFee q' = byFee q \<and> i' = i + 1"
proof -
  let ?c = "byFee q ! i"
  have c: "?c \<in> set (byFee q)" using assms(2) by simp
  have r: "byFee p = byFee q" if "recheckPreflight parse ctx q l ?c = (p, f)" for p f
    using that by (auto simp: recheckPreflight_def Let_def split: if_splits)
  show ?thesis using assms(1)
  proof (cases rule: acceptStep_cases)
    case (failed aq p f x)
    then show ?thesis using acceptFailed_progress[OF failed(3)] r[OF failed(2)] c by simp
  next
    case (applied aq p)
    then show ?thesis using byFee_eraseAndAdvance[OF applied(3)] r[OF applied(2)] length_remove1_less[OF c] by simp
  qed (use length_remove1_less[OF c] in simp_all)
qed

section \<open>The pass\<close>

function acceptLoop ::
  "(bytes \<Rightarrow> txn option) \<Rightarrow> 'l AcceptContext \<Rightarrow> feeMetricsSnapshot \<Rightarrow> TxQ \<Rightarrow> 'l \<Rightarrow> nat \<Rightarrow> bool \<Rightarrow> TxQ \<times> 'l \<times> bool" where
  "acceptLoop parse ctx s q l i ledgerChanged =
     (if i < length (byFee q) then
        case acceptStep parse ctx s q l i of
          None \<Rightarrow> (q, l, ledgerChanged)
        | Some (q', l', i', applied) \<Rightarrow> acceptLoop parse ctx s q' l' i' (ledgerChanged \<or> applied)
      else (q, l, ledgerChanged))"
  by pat_completeness auto
termination
proof (relation "measures [\<lambda>(parse, ctx, s, q, l, i, b). length (byFee q), \<lambda>(parse, ctx, s, q, l, i, b). length (byFee q) - i]")
  fix parse and ctx :: "'l AcceptContext" and s q l i and b :: bool and x a q' y l' z i' applied
  assume i: "i < length (byFee q)" and x: "acceptStep parse ctx s q l i = Some x"
    "(q', y) = x" "(l', z) = y" "(i', applied) = z"
  then have "acceptStep parse ctx s q l i = Some (q', l', i', applied)" by auto
  from acceptStep_progress[OF this i] i
  show "((parse, ctx, s, q', l', i', b \<or> applied), parse, ctx, s, q, l, i, b)
    \<in> measures [\<lambda>(parse, ctx, s, q, l, i, b). length (byFee q), \<lambda>(parse, ctx, s, q, l, i, b). length (byFee q) - i]"
    by auto
qed simp

declare acceptLoop.simps [simp del]

definition Accept ::
  "(bytes \<Rightarrow> txn option) \<Rightarrow> 'l AcceptContext \<Rightarrow> TxQ \<Rightarrow> 'l \<Rightarrow> TxQ \<times> 'l \<times> bool" where
  "Accept parse ctx q l =
     (let hash = acGetParentHash ctx l;
          s = snapshot (metrics q);
          (q, l, ledgerChanged) = acceptLoop parse ctx s q l 0 False
      in if hash \<noteq> parentHash q then (rebuildByFee (q\<lparr>parentHash := hash\<rparr>), l, ledgerChanged)
         else (q, l, ledgerChanged))"

end
