(* ===== verification/Txq_Apply.thy ===== *)
theory Txq_Apply
  imports Txq_Accept
begin

text \<open>
  Submission of a transaction, \<^verbatim>\<open>src/internal/txq/{apply,submission}.go\<close>: application to the open ledger when
  the fee allows it, else admission to the queue.  \<open>Apply\<close> is one Go function; the model has one
  definition per stage of it, in its order, and composes them with early returns as left values.  The
  open ledger is a state \<open>'l\<close>; the \<open>ApplyContext\<close> interface is a record of functions on it, in which
  \<open>None\<close> is an error result.  The binary codec of transactions, their hashes and the address codec are
  the parameters of \<open>txcodec\<close>.
\<close>

section \<open>The interfaces\<close>

record ApplyResult =
  ResultCode :: Result
  Applied :: bool
  Queued :: bool

definition reject :: "Result \<Rightarrow> ApplyResult" where
  "reject r = \<lparr>ResultCode = r, Applied = False, Queued = False\<rparr>"

record 'l ApplyContext =
  GetAccountSequence :: "'l \<Rightarrow> account_id \<Rightarrow> u32 option"
  AccountExists :: "'l \<Rightarrow> account_id \<Rightarrow> bool option"
  TicketExists :: "'l \<Rightarrow> account_id \<Rightarrow> u32 \<Rightarrow> bool option"
  GetAccountBalance :: "'l \<Rightarrow> account_id \<Rightarrow> u64 option"
  GetAccountReserve :: "'l \<Rightarrow> u32 \<Rightarrow> u64"
  GetBaseFees :: "'l \<Rightarrow> txn \<Rightarrow> Result option + u64 \<times> u64"
  GetReferenceFee :: "'l \<Rightarrow> u64"
  GetTxInLedger :: "'l \<Rightarrow> u32"
  GetLedgerSequence :: "'l \<Rightarrow> u32"
  ApplyTransactionWithFlags :: "'l \<Rightarrow> txn option \<Rightarrow> ApplyFlags \<Rightarrow> (Result \<times> bool) \<times> 'l"
  PreflightTransactionWithFlags :: "'l \<Rightarrow> txn \<Rightarrow> ApplyFlags \<Rightarrow> Result"
  PreclaimTransactionWithFlags :: "'l \<Rightarrow> txn \<Rightarrow> account_id \<Rightarrow> u64 \<Rightarrow> u32 \<Rightarrow> ApplyFlags \<Rightarrow> Result"
  GetApplyFlags :: ApplyFlags
  RulesIdentity :: "'l \<Rightarrow> rules"
  NewSandbox :: "'l \<Rightarrow> 'l option"
  Commit :: "'l \<Rightarrow> 'l \<Rightarrow> 'l option"

text \<open>\<open>Commit\<close> takes the parent view and the sandbox; \<open>GetBaseFees\<close> reports the code of a \<open>ResultError\<close>.\<close>

record txcodec =
  SerializeTransaction :: "txn \<Rightarrow> bytes option"
  ParseFromBinary :: "bytes \<Rightarrow> txn option"
  ComputeTransactionHash :: "txn \<Rightarrow> hash256 option"
  DecodeAccountID :: "string \<Rightarrow> account_id option"

definition TapFAIL_HARD :: ApplyFlags where "TapFAIL_HARD = 0x10"
definition TapRETRY :: ApplyFlags where "TapRETRY = 0x20"
definition TapDRY_RUN :: ApplyFlags where "TapDRY_RUN = 0x1000"
definition SpfSponsorFee :: u32 where "SpfSponsorFee = 1"

definition has_flag :: "u32 \<Rightarrow> u32 \<Rightarrow> bool" where
  "has_flag flags f \<longleftrightarrow> flags AND f \<noteq> 0"

section \<open>Consequences\<close>

definition SeqProxyKey :: "Common \<Rightarrow> u64" where
  "SeqProxyKey c =
     (case Sequence c of
        Some s \<Rightarrow> if s \<noteq> 0 then ucast s
          else (case TicketSequence c of Some t \<Rightarrow> ucast t OR push_bit 32 1 | None \<Rightarrow> 0)
      | None \<Rightarrow> (case TicketSequence c of Some t \<Rightarrow> ucast t OR push_bit 32 1 | None \<Rightarrow> 0))"

definition seqProxyFor :: "Common \<Rightarrow> SeqProxy option" where
  "seqProxyFor c =
     (if Sequence c = None \<and> TicketSequence c = None then None
      else
        let key = SeqProxyKey c in
        if key AND push_bit 32 1 \<noteq> 0 then Some (NewSeqProxyTicket (ucast key))
        else Some (NewSeqProxySequence (ucast key)))"

definition AccountSetTxFlagRequireAuth :: u32 where "AccountSetTxFlagRequireAuth = 0x00040000"
definition AccountSetTxFlagOptionalAuth :: u32 where "AccountSetTxFlagOptionalAuth = 0x00080000"
definition AccountSetFlagRequireAuth :: u32 where "AccountSetFlagRequireAuth = 2"
definition AccountSetFlagDisableMaster :: u32 where "AccountSetFlagDisableMaster = 4"
definition AccountSetFlagAccountTxnID :: u32 where "AccountSetFlagAccountTxnID = 5"

definition isAccountSetBlocker :: "txn \<Rightarrow> bool" where
  "isAccountSetBlocker t =
     (case body t of
        AccountSet setFlag clearFlag \<Rightarrow>
          (case TxFlags (GetCommon t) of
             Some flags \<Rightarrow> has_flag flags (AccountSetTxFlagRequireAuth OR AccountSetTxFlagOptionalAuth)
           | None \<Rightarrow> False) \<or>
          (case setFlag of
             Some f \<Rightarrow> f \<in> {AccountSetFlagRequireAuth, AccountSetFlagDisableMaster, AccountSetFlagAccountTxnID}
           | None \<Rightarrow> False) \<or>
          (case clearFlag of
             Some f \<Rightarrow> f \<in> {AccountSetFlagRequireAuth, AccountSetFlagDisableMaster, AccountSetFlagAccountTxnID}
           | None \<Rightarrow> False)
      | _ \<Rightarrow> False)"

definition nativeDrops :: "amount \<Rightarrow> u64" where
  "nativeDrops a = (if IsNative a then Drops a else 0)"

definition computeConsequences :: "txn \<Rightarrow> SeqProxy \<Rightarrow> txConsequences" where
  "computeConsequences t seqProxy =
     (let following =
        (if IsTicket seqProxy then seqProxy
         else
           let nextSeq = Value seqProxy + 1;
               nextSeq = (case body t of
                  TicketCreate n \<Rightarrow> if n > 0 then Value seqProxy + n else nextSeq
                | _ \<Rightarrow> nextSeq)
           in NewSeqProxySequence nextSeq);
          blocker = (case TxType t of
             TypeRegularKeySet \<Rightarrow> True | TypeSignerListSet \<Rightarrow> True | TypeAccountDelete \<Rightarrow> True
           | TypeXChainClaim \<Rightarrow> True | TypeXChainAddClaimAttestation \<Rightarrow> True
           | TypeXChainAddAccountCreateAttest \<Rightarrow> True
           | TypeAccountSet \<Rightarrow> isAccountSetBlocker t
           | _ \<Rightarrow> False);
          spend = (case body t of
             Payment amt sendMax \<Rightarrow> nativeDrops (case sendMax of Some m \<Rightarrow> m | None \<Rightarrow> amt)
           | OfferCreate takerGets \<Rightarrow> nativeDrops takerGets
           | EscrowCreate amt \<Rightarrow> nativeDrops amt
           | PaymentChannelCreate amt \<Rightarrow> nativeDrops amt
           | PaymentChannelFund amt \<Rightarrow> nativeDrops amt
           | XChainCommit amt \<Rightarrow> if IsNative amt \<and> Drops amt > 0 then Drops amt else 0
           | SponsorshipSet delta \<Rightarrow> (case delta of
                Some d \<Rightarrow> if IsNative d \<and> 0 <s xrp d then Drops d else 0
              | None \<Rightarrow> 0)
           | _ \<Rightarrow> 0)
      in \<lparr>Fee = fst (ParseUint (FeeField (GetCommon t))), PotentialSpend = spend, IsBlocker = blocker,
          FollowingSeq = following\<rparr>)"

section \<open>Submissions\<close>

definition canonicalSubmission ::
  "txcodec \<Rightarrow> txn \<Rightarrow> hash256 \<Rightarrow> account_id \<Rightarrow> (txn \<times> bytes \<times> hash256 \<times> account_id) option" where
  "canonicalSubmission codec t suppliedID suppliedAccount =
     Option.bind (if GetRawBytes t = [] then SerializeTransaction codec t else Some (GetRawBytes t)) (\<lambda>raw.
     Option.bind (ParseFromBinary codec raw) (\<lambda>parsed.
     Option.bind (ComputeTransactionHash codec parsed) (\<lambda>txid.
     Option.bind (DecodeAccountID codec (SrcAccount (GetCommon parsed))) (\<lambda>account.
       if suppliedAccount \<noteq> 0 \<and> suppliedAccount \<noteq> account then None
       else if suppliedID \<noteq> 0 \<and> suppliedID \<noteq> txid then None
       else Some (parsed, raw, txid, account)))))"

text \<open>What \<open>Apply\<close> knows of a submission once the account and the sequence are read.\<close>

record submission =
  sTxn :: txn
  sBlob :: bytes
  sTxID :: hash256
  sAccount :: account_id
  sAcctSeq :: u32
  sTxInLedger :: u32
  sLedgerSeq :: u32
  sSeqProxy :: SeqProxy
  sLastValid :: u32
  sFlags :: ApplyFlags

definition prepareSubmission ::
  "txcodec \<Rightarrow> 'l ApplyContext \<Rightarrow> 'l \<Rightarrow> txn \<Rightarrow> hash256 \<Rightarrow> account_id \<Rightarrow> Result + submission" where
  "prepareSubmission codec ctx l t txID account =
     (let originalFlags = GetApplyFlags ctx; isDryRun = has_flag originalFlags TapDRY_RUN in
      bindE (if isDryRun then Inr (t, [], txID, account)
             else case canonicalSubmission codec t txID account of
               None \<Rightarrow> Inl TemMALFORMED
             | Some (t', raw, canonicalID, canonicalAccount) \<Rightarrow>
                 Inr (t', raw, if canonicalID \<noteq> 0 then canonicalID else txID,
                      if canonicalAccount \<noteq> 0 then canonicalAccount else account))
        (\<lambda>(t, raw, txID, account).
      let preflightResult = PreflightTransactionWithFlags ctx l t originalFlags in
      if preflightResult \<noteq> TesSUCCESS then Inl preflightResult
      else
        bindE (if isDryRun then
                 (case DecodeAccountID codec (SrcAccount (GetCommon t)) of
                    None \<Rightarrow> Inl TemBAD_SRC_ACCOUNT | Some a \<Rightarrow> Inr a)
               else Inr account) (\<lambda>account.
        case AccountExists ctx l account of
          None \<Rightarrow> Inl TefINTERNAL
        | Some accountExists \<Rightarrow>
          if \<not> accountExists then Inl (if isDryRun then TelCAN_NOT_QUEUE else TerNO_ACCOUNT)
          else
            case GetAccountSequence ctx l account of
              None \<Rightarrow> Inl TefINTERNAL
            | Some acctSeq \<Rightarrow>
              case seqProxyFor (GetCommon t) of
                None \<Rightarrow> Inl TefINTERNAL
              | Some seqProxy \<Rightarrow>
                Inr \<lparr>sTxn = t, sBlob = raw, sTxID = txID, sAccount = account, sAcctSeq = acctSeq,
                     sTxInLedger = GetTxInLedger ctx l, sLedgerSeq = GetLedgerSequence ctx l,
                     sSeqProxy = seqProxy,
                     sLastValid = (case LastLedgerSequence (GetCommon t) of Some x \<Rightarrow> x | None \<Rightarrow> 0),
                     sFlags = originalFlags\<rparr>)))"

definition computeFeeLevel :: "'l ApplyContext \<Rightarrow> 'l \<Rightarrow> txn \<Rightarrow> Result + FeeLevel" where
  "computeFeeLevel ctx l t =
     (case GetBaseFees ctx l t of
        Inl (Some code) \<Rightarrow> Inl code
      | Inl None \<Rightarrow> Inl TefEXCEPTION
      | Inr (baseFee, defaultBaseFee) \<Rightarrow>
        (case ParseUint (FeeField (GetCommon t)) of
           (feePaid, ok) \<Rightarrow>
             if \<not> ok then Inl TemBAD_FEE
             else Inr (ToFeeLevelWithDefaultBaseFee feePaid baseFee defaultBaseFee)))"

text \<open>The direct application: a final result with the queue and the ledger, or nothing.\<close>

definition eraseEntry :: "TxQ \<Rightarrow> account_id \<Rightarrow> SeqProxy \<Rightarrow> TxQ" where
  "eraseEntry q account seqProxy =
     (case map_of (byAccount q) account of
        None \<Rightarrow> q
      | Some aq \<Rightarrow> (case map_of (Transactions aq) seqProxy of None \<Rightarrow> q | Some c \<Rightarrow> erase q c))"

definition tryDirectApply ::
  "'l ApplyContext \<Rightarrow> TxQ \<Rightarrow> 'l \<Rightarrow> submission \<Rightarrow> (ApplyResult \<times> TxQ \<times> 'l) option" where
  "tryDirectApply ctx q l s =
     (let requiredFeeLevel = scaleFeeLevel (snapshot (metrics q)) (sTxInLedger s);
          canDirectApply = (IsTicket (sSeqProxy s) \<or> Value (sSeqProxy s) = sAcctSeq s);
          dry = (if has_flag (sFlags s) TapDRY_RUN then Some (reject TelCAN_NOT_QUEUE, q, l) else None)
      in if canDirectApply then
           (case computeFeeLevel ctx l (sTxn s) of
              Inl r \<Rightarrow> Some (reject r, q, l)
            | Inr feeLevel \<Rightarrow>
              if feeLevel \<ge> requiredFeeLevel then
                (case ApplyTransactionWithFlags ctx l (Some (sTxn s)) (sFlags s) of
                   ((result, applied), l) \<Rightarrow>
                     if applied then
                       Some (\<lparr>ResultCode = result, Applied = True, Queued = False\<rparr>,
                             eraseEntry q (sAccount s) (sSeqProxy s), l)
                     else Some (reject result, q, l))
              else dry)
         else dry)"

definition checkTicket :: "'l ApplyContext \<Rightarrow> 'l \<Rightarrow> submission \<Rightarrow> Result option" where
  "checkTicket ctx l s =
     (if IsTicket (sSeqProxy s) then
        (case TicketExists ctx l (sAccount s) (Value (sSeqProxy s)) of
           None \<Rightarrow> Some TefINTERNAL
         | Some ticketExists \<Rightarrow>
           if \<not> ticketExists then
             Some (if Value (sSeqProxy s) < sAcctSeq s then TefNO_TICKET else TerPRE_TICKET)
           else None)
      else None)"

section \<open>Admission to the queue\<close>

text \<open>
  The gates before a transaction is queued.  \<open>aq\<close> is the account's queue if there is one and \<open>n\<close> the
  number of its relevant entries, those not below the account's sequence.  A blocker must be alone in
  the account's queue, an existing blocker admits nothing else, and a replacement must pay more.
\<close>

definition checkIncomingBlocker ::
  "heap \<Rightarrow> accountQueue option \<Rightarrow> nat \<Rightarrow> submission \<Rightarrow> txConsequences \<Rightarrow> Result option" where
  "checkIncomingBlocker h aq n s consequences =
     (if IsBlocker consequences then
        if n > 1 then Some TelCAN_NOT_QUEUE_BLOCKS
        else if n = 1 then
          (case Option.bind aq (\<lambda>aq. FirstRelevant h aq (NewSeqProxySequence (sAcctSeq s))) of
             None \<Rightarrow> Some TelCAN_NOT_QUEUE_BLOCKS
           | Some f \<Rightarrow> if SeqProxy (h f) \<noteq> sSeqProxy s then Some TelCAN_NOT_QUEUE_BLOCKS else None)
        else None
      else None)"

definition checkReplacement ::
  "Config \<Rightarrow> heap \<Rightarrow> accountQueue option \<Rightarrow> nat \<Rightarrow> submission \<Rightarrow> ref option \<Rightarrow> FeeLevel \<Rightarrow> Result option" where
  "checkReplacement cfg h aq n s replacing feeLevel =
     (case aq of
        None \<Rightarrow> None
      | Some aq \<Rightarrow>
        if n > 0 then
          let blocked = (n = 1 \<and>
                (case FirstRelevant h aq (NewSeqProxySequence (sAcctSeq s)) of
                   None \<Rightarrow> False
                 | Some f \<Rightarrow> IsBlocker (Consequences (h f)) \<and> SeqProxy (h f) \<noteq> sSeqProxy s))
          in if blocked then Some TelCAN_NOT_QUEUE_BLOCKED
             else
               case replacing of
                 None \<Rightarrow> None
               | Some r \<Rightarrow>
                 let requiredRetryLevel = mulDiv (FeeLevel (h r)) (100 + ucast (RetrySequencePercent cfg)) 100
                 in if feeLevel \<le> requiredRetryLevel then Some TelCAN_NOT_QUEUE_FEE else None
        else None)"

text \<open>\<open>canBeHeld\<close>: the queue (whose counter of refusals may have grown) and the refusal, if any.\<close>

definition canBeHeld ::
  "TxQ \<Rightarrow> submission \<Rightarrow> accountQueue option \<Rightarrow> ref option \<Rightarrow> TxQ \<times> Result option" where
  "canBeHeld q s aq replacing =
     (let common = GetCommon (sTxn s) in
      if HasPreviousTxnID common \<or> AccountTxnID common \<noteq> [] \<or> has_flag (sFlags s) TapFAIL_HARD then
        (q, Some TelCAN_NOT_QUEUE)
      else if TxType (sTxn s) = TypeBatch then (q, Some TelCAN_NOT_QUEUE)
      else if Delegate common \<noteq> [] then (q, Some TelCAN_NOT_QUEUE)
      else if Sponsor common \<noteq> [] \<and>
              (case SponsorFlags common of Some f \<Rightarrow> has_flag f SpfSponsorFee | None \<Rightarrow> False) then
        (q, Some TelCAN_NOT_QUEUE)
      else if (case LastLedgerSequence common of
                 Some x \<Rightarrow> x < sLedgerSeq s + MinimumLastLedgerBuffer (config q) | None \<Rightarrow> False) then
        (q, Some TelCAN_NOT_QUEUE)
      else
        case aq of
          None \<Rightarrow> (q, None)
        | Some aq \<Rightarrow>
          if replacing \<noteq> None \<or> of_nat (Count aq) < MaximumTxnPerAccount (config q) then (q, None)
          else if \<not> IsTicket (sSeqProxy s) \<and> Value (sSeqProxy s) = getNextQueuableSeq (heap q) aq (sAcctSeq s) then
            (case upperBoundSeqProxy aq (sSeqProxy s) of
               None \<Rightarrow> (incTxQFull q, Some TelCAN_NOT_QUEUE_FULL)
             | Some nextSP \<Rightarrow>
               if IsTicket nextSP then (incTxQFull q, Some TelCAN_NOT_QUEUE_FULL) else (q, None))
          else (incTxQFull q, Some TelCAN_NOT_QUEUE_FULL))"

definition checkQueuedSequence ::
  "heap \<Rightarrow> accountQueue \<Rightarrow> submission \<Rightarrow> ref option \<Rightarrow> Result option" where
  "checkQueuedSequence h aq s replacing =
     (if IsTicket (sSeqProxy s) then None
      else
        let prevTx = PrevTx h aq (sSeqProxy s);
            goesAtFront = (case prevTx of None \<Rightarrow> True | Some p \<Rightarrow> Less (sSeqProxy s) (SeqProxy (h p)))
        in if goesAtFront then
             if Value (sSeqProxy s) < sAcctSeq s then Some TefPAST_SEQ
             else if Value (sSeqProxy s) > sAcctSeq s then Some TerPRE_SEQ
             else None
           else if replacing = None then
             if getNextQueuableSeq h aq (sAcctSeq s) \<noteq> Value (sSeqProxy s) then Some TelCAN_NOT_QUEUE else None
           else None)"

text \<open>
  The balance in flight: the fees and spends of the account's relevant entries (of the new transaction
  in place of one it replaces in the middle), and from them the balance and sequence for preclaim.
\<close>

fun inFlightTotals :: "heap \<Rightarrow> SeqProxy \<Rightarrow> txConsequences \<Rightarrow> ref list \<Rightarrow> u64 \<times> u64 \<Rightarrow> u64 \<times> u64" where
  "inFlightTotals h seqProxy consequences [] totals = totals"
| "inFlightTotals h seqProxy consequences (c # cs) (totalFee, potentialSpend) =
     inFlightTotals h seqProxy consequences cs
       (if SeqProxy (h c) \<noteq> seqProxy then
          (totalFee + Fee (Consequences (h c)), potentialSpend + PotentialSpend (Consequences (h c)))
        else if cs \<noteq> [] then
          (totalFee + Fee consequences, potentialSpend + PotentialSpend consequences)
        else (totalFee, potentialSpend))"

definition checkInFlight ::
  "'l ApplyContext \<Rightarrow> 'l \<Rightarrow> heap \<Rightarrow> accountQueue \<Rightarrow> submission \<Rightarrow> txConsequences \<Rightarrow> u64 \<Rightarrow> Result + u64 \<times> u32" where
  "checkInFlight ctx l h aq s consequences balance =
     (case inFlightTotals h (sSeqProxy s) consequences
         (RelevantSortedCandidates h aq (NewSeqProxySequence (sAcctSeq s))) (0, 0) of
        (totalFee, potentialSpend) \<Rightarrow>
          let reserve = GetAccountReserve ctx l 0; referenceFee = GetReferenceFee ctx l in
          if totalFee \<ge> balance \<or> (reserve > 10 * referenceFee \<and> totalFee \<ge> reserve) then
            Inl TelCAN_NOT_QUEUE_BALANCE
          else
            let minBalReserve = min reserve balance;
                spendableAboveReserve = min potentialSpend (balance - minBalReserve);
                potentialTotalSpend = totalFee + spendableAboveReserve
            in Inr (if potentialTotalSpend \<le> balance then balance - potentialTotalSpend else 0,
                    if IsTicket (sSeqProxy s) then getNextQueuableSeq h aq (sAcctSeq s) else Value (sSeqProxy s)))"

section \<open>Clearing the account's queue\<close>

text \<open>The preceding entries in the sandbox: the sandbox, the results so far, and whether all went through.\<close>

fun clearLoop ::
  "(bytes \<Rightarrow> txn option) \<Rightarrow> 'l ApplyContext \<Rightarrow> heap \<Rightarrow> 'l \<Rightarrow> ref list \<Rightarrow> (ref \<times> Result) list \<Rightarrow>
     'l \<times> (ref \<times> Result) list \<times> bool" where
  "clearLoop parse ctx h sandbox [] updates = (sandbox, updates, True)"
| "clearLoop parse ctx h sandbox (c # cs) updates =
     (case ApplyTransactionWithFlags ctx sandbox (candidateTransaction parse (h c)) (Flags (h c)) of
        ((result, ok), sandbox) \<Rightarrow>
          let updates = updates @ [(c, result)] in
          if result = TefNO_TICKET then clearLoop parse ctx h sandbox cs updates
          else if \<not> ok then (sandbox, updates, False)
          else clearLoop parse ctx h sandbox cs updates)"

definition retryUpdates :: "TxQ \<Rightarrow> (ref \<times> Result) list \<Rightarrow> TxQ" where
  "retryUpdates q updates =
     fold (\<lambda>(c, result) q. modify q c (\<lambda>d. d\<lparr>
         RetriesRemaining := (if RetriesRemaining d > 0 then RetriesRemaining d - 1 else RetriesRemaining d),
         LastResult := result\<rparr>)) updates q"

definition tryClearAccountQueue ::
  "(bytes \<Rightarrow> txn option) \<Rightarrow> 'l ApplyContext \<Rightarrow> TxQ \<Rightarrow> 'l \<Rightarrow> accountQueue \<Rightarrow> submission \<Rightarrow> FeeLevel \<Rightarrow>
     TxQ \<times> 'l \<times> ApplyResult option" where
  "tryClearAccountQueue parse ctx q l aq s feeLevelPaid =
     (let preceding = takeWhile (\<lambda>c. Less (SeqProxy (heap q c)) (sSeqProxy s))
            (RelevantSortedCandidates (heap q) aq (NewSeqProxySequence (sAcctSeq s)))
      in if length preceding = 0 then (q, l, None)
         else
           case escalatedSeriesFeeLevel (snapshot (metrics q)) (sTxInLedger s) 0 (of_nat (length preceding) + 1) of
             (requiredTotalFeeLevel, ok) \<Rightarrow>
               if \<not> ok then (q, l, None)
               else
                 let totalFeeLevelPaid = fold (\<lambda>c t. t + FeeLevel (heap q c)) preceding feeLevelPaid in
                 if totalFeeLevelPaid < requiredTotalFeeLevel then (q, l, None)
                 else
                   case NewSandbox ctx l of
                     None \<Rightarrow> (q, l, None)
                   | Some sandbox \<Rightarrow>
                     case clearLoop parse ctx (heap q) sandbox preceding [] of
                       (sandbox, updates, allApplied) \<Rightarrow>
                         if \<not> allApplied then (retryUpdates q updates, l, None)
                         else
                           case ApplyTransactionWithFlags ctx sandbox (Some (sTxn s)) (sFlags s) of
                             ((result, ok), sandbox) \<Rightarrow>
                               if \<not> ok then (retryUpdates q updates, l, None)
                               else
                                 case Commit ctx l sandbox of
                                   None \<Rightarrow> (q, l, Some (reject TefINTERNAL))
                                 | Some l \<Rightarrow>
                                   (eraseEntry (fold (\<lambda>c q. erase q c) preceding q) (sAccount s) (sSeqProxy s), l,
                                    Some \<lparr>ResultCode = result, Applied = True, Queued = False\<rparr>))"

section \<open>A full queue\<close>

text \<open>
  The effective fee level of the account that owns the lowest candidate of another account: that
  candidate's level, or the average over the account's queue, with the code's overflow guard.  \<open>evict\<close>
  drops the account's last entry when the new transaction pays more; it returns the queue and whether
  there is room.  The looked-up account queue exists in every queue that keeps the invariant (the code
  would dereference nil otherwise).
\<close>

fun averageLoop :: "heap \<Rightarrow> u64 \<Rightarrow> ref list \<Rightarrow> u64 \<Rightarrow> u64 \<Rightarrow> FeeLevel" where
  "averageLoop h count [] sumDiv sumMod = sumDiv + sumMod div count"
| "averageLoop h count (c # cs) sumDiv sumMod =
     (let next' = FeeLevel (h c) div count; mod' = FeeLevel (h c) mod count in
      if sumDiv \<ge> NOT 0 - next' \<or> sumMod \<ge> NOT 0 - mod' then NOT 0
      else averageLoop h count cs (sumDiv + next') (sumMod + mod'))"

definition endEffectiveFeeLevel :: "heap \<Rightarrow> accountQueue \<Rightarrow> ref \<Rightarrow> FeeLevel \<Rightarrow> FeeLevel" where
  "endEffectiveFeeLevel h endAccount lowestOther feeLevel =
     (if FeeLevel (h lowestOther) \<le> feeLevel \<and> Count endAccount > 1
      then averageLoop h (of_nat (Count endAccount)) (map snd (Transactions endAccount)) 0 0
      else FeeLevel (h lowestOther))"

definition evict :: "TxQ \<Rightarrow> account_id \<Rightarrow> FeeLevel \<Rightarrow> TxQ \<times> bool" where
  "evict q account feeLevel =
     (case find (\<lambda>c. Account (heap q c) \<noteq> account) (rev (byFee q)) of
        None \<Rightarrow> (incTxQFull q, False)
      | Some lowestOther \<Rightarrow>
        case map_of (byAccount q) (Account (heap q lowestOther)) of
          None \<Rightarrow> (incTxQFull q, False)
        | Some endAccount \<Rightarrow>
          if feeLevel > endEffectiveFeeLevel (heap q) endAccount lowestOther feeLevel then
            let sorted' = SortedCandidates (heap q) endAccount; n = length sorted' in
            (if n > 0 then erase q (sorted' ! (n - 1)) else q, True)
          else (incTxQFull q, False))"

section \<open>Apply\<close>

definition enqueue ::
  "'l ApplyContext \<Rightarrow> TxQ \<Rightarrow> 'l \<Rightarrow> submission \<Rightarrow> txConsequences \<Rightarrow> FeeLevel \<Rightarrow> TxQ" where
  "enqueue ctx q l s consequences feeLevel =
     (let aq = (case map_of (byAccount q) (sAccount s) of Some aq \<Rightarrow> aq | None \<Rightarrow> newAccountQueue (sAccount s));
          cand = (newCandidate (sTxID s) (sAccount s) feeLevel (sSeqProxy s) (sLastValid s) TesSUCCESS consequences)
            \<lparr>blob := sBlob s, Flags := sFlags s AND NOT TapRETRY, PreflightFlags := sFlags s,
             PreflightRules := RulesIdentity ctx l\<rparr>;
          (c, q) = alloc q cand;
          q = setAccountQueue q (sAccount s) (Add (heap q) aq c)
      in insertByFee q c)"

text \<open>The last part: preclaim, the clearing of the queue, room, and the new entry.\<close>

definition queueOrClear ::
  "(bytes \<Rightarrow> txn option) \<Rightarrow> 'l ApplyContext \<Rightarrow> TxQ \<Rightarrow> 'l \<Rightarrow> submission \<Rightarrow> accountQueue option \<Rightarrow> nat \<Rightarrow>
     ref option \<Rightarrow> txConsequences \<Rightarrow> FeeLevel \<Rightarrow> bool \<Rightarrow> u64 \<Rightarrow> u32 \<Rightarrow> ApplyResult \<times> TxQ \<times> 'l" where
  "queueOrClear parse ctx q l s aq n replacing consequences feeLevel requiresMultiTxn preclaimBalance preclaimSeq =
     (let result = PreclaimTransactionWithFlags ctx l (sTxn s) (sAccount s) preclaimBalance preclaimSeq (sFlags s) in
      if result \<noteq> TesSUCCESS \<and> (\<not> IsTec result \<or> has_flag (sFlags s) TapRETRY) then (reject result, q, l)
      else
        let requiredFeeLevel = scaleFeeLevel (snapshot (metrics q)) (sTxInLedger s);
            (q, l, clearResult) =
              (case aq of
                 Some a \<Rightarrow>
                   if \<not> IsTicket (sSeqProxy s) \<and> n > 0 \<and> requiresMultiTxn \<and>
                      feeLevel > requiredFeeLevel \<and> requiredFeeLevel > BaseLevel \<and>
                      (case FirstRelevant (heap q) a (NewSeqProxySequence (sAcctSeq s)) of
                         Some f \<Rightarrow> RetriesRemaining (heap q f) = RetriesAllowed | None \<Rightarrow> False)
                   then tryClearAccountQueue parse ctx q l a s feeLevel
                   else (q, l, None)
               | None \<Rightarrow> (q, l, None))
        in case clearResult of
             Some r \<Rightarrow> (r, q, l)
           | None \<Rightarrow>
             (case (if requiresMultiTxn then (q, None) else canBeHeld q s aq replacing) of
                (q, Some r) \<Rightarrow> (reject r, q, l)
              | (q, None) \<Rightarrow>
                (case (if replacing = None \<and> isFull q then evict q (sAccount s) feeLevel else (q, True)) of
                   (q, False) \<Rightarrow> (reject TelCAN_NOT_QUEUE_FULL, q, l)
                 | (q, True) \<Rightarrow>
                   let q = (case replacing of Some r \<Rightarrow> erase q r | None \<Rightarrow> q)
                   in (\<lparr>ResultCode = TerQUEUED, Applied = False, Queued = True\<rparr>,
                       enqueue ctx q l s consequences feeLevel, l))))"

definition admit ::
  "(bytes \<Rightarrow> txn option) \<Rightarrow> 'l ApplyContext \<Rightarrow> TxQ \<Rightarrow> 'l \<Rightarrow> submission \<Rightarrow> ApplyResult \<times> TxQ \<times> 'l" where
  "admit parse ctx q l s =
     (let consequences = computeConsequences (sTxn s) (sSeqProxy s);
          aq = map_of (byAccount q) (sAccount s);
          n = (case aq of None \<Rightarrow> 0 | Some aq \<Rightarrow> RelevantCount aq (NewSeqProxySequence (sAcctSeq s)))
      in case checkIncomingBlocker (heap q) aq n s consequences of
           Some r \<Rightarrow> (reject r, q, l)
         | None \<Rightarrow>
           let replacing = Option.bind aq (\<lambda>aq. map_of (Transactions aq) (sSeqProxy s)) in
           case computeFeeLevel ctx l (sTxn s) of
             Inl r \<Rightarrow> (reject r, q, l)
           | Inr feeLevel \<Rightarrow>
             case checkReplacement (config q) (heap q) aq n s replacing feeLevel of
               Some r \<Rightarrow> (reject r, q, l)
             | None \<Rightarrow>
               case GetAccountBalance ctx l (sAccount s) of
                 None \<Rightarrow> (reject TefINTERNAL, q, l)
               | Some balance \<Rightarrow>
                 if n = 0 then
                   if \<not> IsTicket (sSeqProxy s) \<and> Value (sSeqProxy s) \<noteq> sAcctSeq s then
                     (reject (if Value (sSeqProxy s) < sAcctSeq s then TefPAST_SEQ else TerPRE_SEQ), q, l)
                   else queueOrClear parse ctx q l s aq n replacing consequences feeLevel False balance (sAcctSeq s)
                 else if \<not> IsTicket (sSeqProxy s) \<and> sAcctSeq s > Value (sSeqProxy s) then (reject TefPAST_SEQ, q, l)
                 else if n > 1 \<or> replacing = None then
                   (case canBeHeld q s aq replacing of
                      (q, Some r) \<Rightarrow> (reject r, q, l)
                    | (q, None) \<Rightarrow>
                      (case aq of
                         None \<Rightarrow> (reject TefINTERNAL, q, l)
                       | Some a \<Rightarrow>
                         case checkQueuedSequence (heap q) a s replacing of
                           Some r \<Rightarrow> (reject r, q, l)
                         | None \<Rightarrow>
                           case checkInFlight ctx l (heap q) a s consequences balance of
                             Inl r \<Rightarrow> (reject r, q, l)
                           | Inr (preclaimBalance, preclaimSeq) \<Rightarrow>
                             queueOrClear parse ctx q l s aq n replacing consequences feeLevel True
                               preclaimBalance preclaimSeq))
                 else queueOrClear parse ctx q l s aq n replacing consequences feeLevel False balance (sAcctSeq s))"

definition Apply ::
  "txcodec \<Rightarrow> 'l ApplyContext \<Rightarrow> TxQ \<Rightarrow> 'l \<Rightarrow> txn \<Rightarrow> hash256 \<Rightarrow> account_id \<Rightarrow> ApplyResult \<times> TxQ \<times> 'l" where
  "Apply codec ctx q l t txID account =
     (case prepareSubmission codec ctx l t txID account of
        Inl r \<Rightarrow> (reject r, q, l)
      | Inr s \<Rightarrow>
        case tryDirectApply ctx q l s of
          Some r \<Rightarrow> r
        | None \<Rightarrow>
          case checkTicket ctx l s of
            Some r \<Rightarrow> (reject r, q, l)
          | None \<Rightarrow> admit (ParseFromBinary codec) ctx q l s)"

end
