(* ===== verification/Txq_Inv.thy ===== *)
theory Txq_Inv
  imports Txq_Apply
begin

text \<open>
  The invariant of the transaction queue and its preservation.  The three indices of the queue, the
  fee order, the map by transaction id and the maps by account and sequence, name the same candidates,
  each once, and the fee order is sorted.  Erasing, inserting and updating candidates keep this, so
  every pass of \<open>Accept\<close>, every \<open>Apply\<close> and every closed ledger does.
\<close>

section \<open>Insertion into a sorted list by binary search\<close>

text \<open>A strict weak order, as \<open>candidateLess\<close> is one; \<open>ordered\<close> is the order of the list it keeps.\<close>

locale fee_order =
  fixes less :: "'a \<Rightarrow> 'a \<Rightarrow> bool"
  assumes asym: "less a b \<Longrightarrow> \<not> less b a"
    and neg_trans: "\<not> less a b \<Longrightarrow> \<not> less b c \<Longrightarrow> \<not> less a c"
begin

abbreviation ordered :: "'a list \<Rightarrow> bool" where
  "ordered \<equiv> sorted_wrt (\<lambda>a b. \<not> less b a)"

lemma before_trans: "less c a \<Longrightarrow> \<not> less b a \<Longrightarrow> less c b"
  using neg_trans[of c b a] by blast

lemma search_bounds:
  assumes "ordered (map f xs)" "lo \<le> hi" "hi \<le> length xs"
    "\<forall>i < lo. \<not> less c (f (xs ! i))" "\<forall>i. hi \<le> i \<and> i < length xs \<longrightarrow> less c (f (xs ! i))"
  shows "(let p = insert_search (\<lambda>x. less c (f x)) xs lo hi
     in p \<le> length xs \<and> (\<forall>i < p. \<not> less c (f (xs ! i))) \<and> (\<forall>i. p \<le> i \<and> i < length xs \<longrightarrow> less c (f (xs ! i))))"
  using assms
proof (induction "\<lambda>x. less c (f x)" xs lo hi rule: insert_search.induct)
  case (1 xs lo hi)
  let ?m = "(lo + hi) div 2"
  show ?case
  proof (cases "lo < hi")
    case True
    then have m: "lo \<le> ?m" "?m < hi" by auto
    have le: "\<not> less (f (xs ! j)) (f (xs ! i))" if "i < j" "j < length xs" for i j
      using "1.prems"(1) that by (auto simp: sorted_wrt_iff_nth_less)
    show ?thesis
    proof (cases "less c (f (xs ! ?m))")
      case less: True
      have "less c (f (xs ! i))" if "?m \<le> i" "i < length xs" for i
        using less before_trans[OF less] le[of ?m i] that by (cases "i = ?m") auto
      then show ?thesis using "1.hyps"(1)[OF True refl less] "1.prems" m less True
        by (subst insert_search.simps) (simp add: Let_def)
    next
      case nless: False
      have "\<not> less c (f (xs ! i))" if "i \<le> ?m" for i
        using nless neg_trans[OF nless] before_trans[of c "f (xs ! i)" "f (xs ! ?m)"] le[of i ?m] that m "1.prems"(3)
        by (cases "i = ?m") auto
      then show ?thesis using "1.hyps"(2)[OF True refl nless] "1.prems" m nless True
        by (subst insert_search.simps) (simp add: Let_def less_Suc_eq_le)
    qed
  next
    case False
    then show ?thesis using "1.prems" by (subst insert_search.simps) (auto simp: Let_def)
  qed
qed

lemma insert_ordered:
  assumes "ordered (map f xs)" "p = insert_search (\<lambda>x. less (f c) (f x)) xs 0 (length xs)"
  shows "ordered (map f (take p xs @ c # drop p xs))" "p \<le> length xs"
proof -
  have "p \<le> length xs \<and> (\<forall>i < p. \<not> less (f c) (f (xs ! i))) \<and>
    (\<forall>i. p \<le> i \<and> i < length xs \<longrightarrow> less (f c) (f (xs ! i)))"
    unfolding assms(2) by (rule search_bounds[OF assms(1), unfolded Let_def]) auto
  then have p: "p \<le> length xs" "\<forall>i < p. \<not> less (f c) (f (xs ! i))"
    "\<forall>i. p \<le> i \<and> i < length xs \<longrightarrow> less (f c) (f (xs ! i))" by blast+
  show "p \<le> length xs" by (rule p(1))
  have "\<not> less (f c) (f x)" if "x \<in> set (take p xs)" for x
    using that p(1,2) by (auto simp: in_set_conv_nth)
  moreover have "less (f c) (f x)" if "x \<in> set (drop p xs)" for x
    using that p(1,3) by (auto simp: in_set_conv_nth)
  moreover have "ordered (map f (take p xs) @ map f (drop p xs))" using assms(1) by (simp flip: map_append)
  ultimately show "ordered (map f (take p xs @ c # drop p xs))"
    using asym by (auto simp: sorted_wrt_append)
qed

lemma remove_ordered: "ordered (map f xs) \<Longrightarrow> ordered (map f (remove1 c xs))"
proof (induction xs)
  case (Cons x xs)
  then show ?case using set_remove1_subset[of c xs] by auto
qed simp

end

lemma xorHash_inject [simp]: "xorHash a p = xorHash b p \<longleftrightarrow> a = b"
  by (metis xorHash_def xor.assoc xor_self_eq xor.right_neutral)

interpretation fee: fee_order "candidateLess q" for q
proof
  fix a b c
  show "candidateLess q a b \<Longrightarrow> \<not> candidateLess q b a"
    by (auto simp: candidateLess_def split: if_splits)
  show "\<not> candidateLess q a b \<Longrightarrow> \<not> candidateLess q b c \<Longrightarrow> \<not> candidateLess q a c"
    by (auto simp: candidateLess_def not_less split: if_splits)
qed

lemma candidateLess_total: "TxID a \<noteq> TxID b \<Longrightarrow> candidateLess q a b \<or> candidateLess q b a"
  using linorder_less_linear[of "xorHash (TxID a) (parentHash q)" "xorHash (TxID b) (parentHash q)"]
    linorder_less_linear[of "FeeLevel a" "FeeLevel b"]
  by (auto simp: candidateLess_def)

section \<open>The invariant\<close>

declare map_of_eq_Some_iff [simp del] Some_eq_map_of_iff [simp del]

definition entry :: "TxQ \<Rightarrow> account_id \<Rightarrow> SeqProxy \<Rightarrow> ref option" where
  "entry q a sp = (case map_of (byAccount q) a of None \<Rightarrow> None | Some aq \<Rightarrow> map_of (Transactions aq) sp)"

definition accounts_ok :: "TxQ \<Rightarrow> bool" where
  "accounts_ok q \<longleftrightarrow> distinct (map fst (byAccount q)) \<and>
     (\<forall>a aq. map_of (byAccount q) a = Some aq \<longrightarrow> aqAccount aq = a \<and> distinct (map fst (Transactions aq)))"

definition queue_inv :: "TxQ \<Rightarrow> bool" where
  "queue_inv q \<longleftrightarrow>
     distinct (byFee q) \<and> (\<forall>r \<in> set (byFee q). r < next_ref q) \<and>
     fee.ordered q (map (heap q) (byFee q)) \<and>
     (\<forall>t r. map_of (byID q) t = Some r \<longleftrightarrow> r \<in> set (byFee q) \<and> TxID (heap q r) = t) \<and>
     accounts_ok q \<and>
     (\<forall>a sp r. entry q a sp = Some r \<longleftrightarrow> r \<in> set (byFee q) \<and> Account (heap q r) = a \<and> SeqProxy (heap q r) = sp)"

lemmas alist_simps = update_conv' delete_conv' distinct_update distinct_delete

lemma inv_byID: "queue_inv q \<Longrightarrow> map_of (byID q) t = Some r \<longleftrightarrow> r \<in> set (byFee q) \<and> TxID (heap q r) = t"
  by (simp add: queue_inv_def)

lemma inv_entry: "queue_inv q \<Longrightarrow> entry q a sp = Some r \<longleftrightarrow> r \<in> set (byFee q) \<and> Account (heap q r) = a \<and> SeqProxy (heap q r) = sp"
  by (simp add: queue_inv_def)

lemma inv_unique_ID: "queue_inv q \<Longrightarrow> r \<in> set (byFee q) \<Longrightarrow> r' \<in> set (byFee q) \<Longrightarrow> TxID (heap q r) = TxID (heap q r') \<Longrightarrow> r = r'"
  using inv_byID[of q] by (metis option.inject)

lemma inv_unique_entry:
  "queue_inv q \<Longrightarrow> r \<in> set (byFee q) \<Longrightarrow> r' \<in> set (byFee q) \<Longrightarrow> Account (heap q r) = Account (heap q r') \<Longrightarrow>
    SeqProxy (heap q r) = SeqProxy (heap q r') \<Longrightarrow> r = r'"
  using inv_entry[of q] by (metis option.inject)

lemma inv_account: "queue_inv q \<Longrightarrow> r \<in> set (byFee q) \<Longrightarrow>
    \<exists>aq. map_of (byAccount q) (Account (heap q r)) = Some aq \<and> map_of (Transactions aq) (SeqProxy (heap q r)) = Some r"
  using inv_entry[of q "Account (heap q r)" "SeqProxy (heap q r)" r] by (auto simp: entry_def split: option.splits)

section \<open>Erasing a candidate\<close>

lemma removeByFee_fields [simp]:
  "heap (removeByFee q c) = heap q" "next_ref (removeByFee q c) = next_ref q" "parentHash (removeByFee q c) = parentHash q"
  "config (removeByFee q c) = config q" "metrics (removeByFee q c) = metrics q" "maxSize (removeByFee q c) = maxSize q"
  "byAccount (removeByFee q c) = byAccount q"
  by (simp_all add: removeByFee_def Let_def)

lemma byID_removeByFee: "map_of (byID (removeByFee q c)) =
    (if c \<in> set (byFee q) \<and> map_of (byID q) (TxID (heap q c)) = Some c
     then (map_of (byID q))(TxID (heap q c) := None) else map_of (byID q))"
  by (simp add: removeByFee_def Let_def alist_simps)

lemma erase_eq: "\<exists>ids. erase q c = (removeByFee q c)\<lparr>byID := ids, byAccount :=
    (case map_of (byAccount q) (Account (heap q c)) of
       Some aq \<Rightarrow> AList.update (Account (heap q c)) (snd (removeCandidate (heap q) aq c)) (byAccount q)
     | None \<Rightarrow> byAccount q)\<rparr> \<and>
    map_of ids = (if map_of (byID q) (TxID (heap q c)) = Some c
      then (map_of (byID q))(TxID (heap q c) := None) else map_of (byID q))"
proof -
  let ?p = "removeByFee q c" and ?t = "TxID (heap q c)"
  let ?ids = "if map_of (byID ?p) ?t = Some c then AList.delete ?t (byID ?p) else byID ?p"
  have "map_of ?ids = (if map_of (byID q) ?t = Some c then (map_of (byID q))(?t := None) else map_of (byID q))"
    by (simp add: byID_removeByFee alist_simps)
  moreover have "erase q c = ?p\<lparr>byID := ?ids, byAccount :=
      (case map_of (byAccount q) (Account (heap q c)) of
         Some aq \<Rightarrow> AList.update (Account (heap q c)) (snd (removeCandidate (heap q) aq c)) (byAccount q)
       | None \<Rightarrow> byAccount q)\<rparr>"
    by (cases "map_of (byAccount q) (Account (heap q c))") (simp_all add: erase_def Let_def)
  ultimately show ?thesis by blast
qed

lemma erase_fields [simp]:
  "heap (erase q c) = heap q" "next_ref (erase q c) = next_ref q" "parentHash (erase q c) = parentHash q"
  "config (erase q c) = config q" "metrics (erase q c) = metrics q" "maxSize (erase q c) = maxSize q"
  using erase_eq[of q c] by auto

lemma byID_erase: "map_of (byID (erase q c)) =
    (if map_of (byID q) (TxID (heap q c)) = Some c then (map_of (byID q))(TxID (heap q c) := None) else map_of (byID q))"
  using erase_eq[of q c] by auto

lemma byAccount_erase: "byAccount (erase q c) =
    (case map_of (byAccount q) (Account (heap q c)) of
       Some aq \<Rightarrow> AList.update (Account (heap q c)) (snd (removeCandidate (heap q) aq c)) (byAccount q)
     | None \<Rightarrow> byAccount q)"
  using erase_eq[of q c] by auto

lemma accounts_ok_update:
  assumes "accounts_ok q" "aqAccount aq = a" "distinct (map fst (Transactions aq))"
    "byAccount q' = AList.update a aq (byAccount q)"
  shows "accounts_ok q'"
  using assms by (auto simp: accounts_ok_def alist_simps)

lemma accounts_ok_same: "byAccount q' = byAccount q \<Longrightarrow> accounts_ok q' = accounts_ok q"
  by (simp add: accounts_ok_def)

lemma accounts_ok_erase:
  assumes "accounts_ok q"
  shows "accounts_ok (erase q c)"
proof (cases "map_of (byAccount q) (Account (heap q c))")
  case None
  then show ?thesis using assms accounts_ok_same[of "erase q c" q] by (simp add: byAccount_erase)
next
  case (Some aq)
  then have aq: "aqAccount aq = Account (heap q c)" "distinct (map fst (Transactions aq))"
    using assms by (simp_all add: accounts_ok_def)
  show ?thesis
  proof (rule accounts_ok_update[OF assms])
    show "aqAccount (snd (removeCandidate (heap q) aq c)) = Account (heap q c)"
      by (simp add: removeCandidate_def aq(1))
    show "distinct (map fst (Transactions (snd (removeCandidate (heap q) aq c))))"
      using aq(2) distinct_delete[OF aq(2)] by (simp add: removeCandidate_def)
    show "byAccount (erase q c) = AList.update (Account (heap q c)) (snd (removeCandidate (heap q) aq c)) (byAccount q)"
      by (simp add: byAccount_erase Some)
  qed
qed

lemma entry_erase: "entry (erase q c) a sp =
    (if a = Account (heap q c) \<and> sp = SeqProxy (heap q c) \<and> entry q a sp = Some c then None else entry q a sp)"
  by (auto simp: entry_def byAccount_erase alist_simps removeCandidate_def split: option.splits)

lemma ordered_parent:
  "parentHash q' = parentHash q \<Longrightarrow> fee.ordered q' xs = fee.ordered q xs"
  by (simp add: candidateLess_def)

lemma erase_inv:
  assumes "queue_inv q"
  shows "queue_inv (erase q c)" "set (byFee (erase q c)) = set (byFee q) - {c}"
proof -
  have d: "distinct (byFee q)" using assms by (simp add: queue_inv_def)
  show s: "set (byFee (erase q c)) = set (byFee q) - {c}" using d by (simp add: set_remove1_eq)
  have "map_of (byID (erase q c)) t = Some r \<longleftrightarrow> r \<in> set (byFee (erase q c)) \<and> TxID (heap q r) = t" for t r
    unfolding s byID_erase using inv_byID[OF assms] inv_unique_ID[OF assms] by auto
  moreover have "entry (erase q c) a sp = Some r \<longleftrightarrow>
      r \<in> set (byFee (erase q c)) \<and> Account (heap q r) = a \<and> SeqProxy (heap q r) = sp" for a sp r
  proof (cases "a = Account (heap q c) \<and> sp = SeqProxy (heap q c) \<and> entry q a sp = Some c")
    case True
    then have "\<not> (r \<in> set (byFee q) \<and> r \<noteq> c \<and> Account (heap q r) = a \<and> SeqProxy (heap q r) = sp)"
      using inv_entry[OF assms, of a sp r] by auto
    then show ?thesis unfolding s entry_erase if_P[OF True] by auto
  next
    case False
    then show ?thesis unfolding s entry_erase using inv_entry[OF assms, of a sp r] by auto
  qed
  moreover have "fee.ordered (erase q c) (map (heap q) (remove1 c (byFee q)))"
    using assms fee.remove_ordered[of q "heap q" "byFee q" c] ordered_parent[of "erase q c" q]
    by (simp add: queue_inv_def)
  moreover have "accounts_ok (erase q c)" using assms by (simp add: queue_inv_def accounts_ok_erase)
  ultimately show "queue_inv (erase q c)" using assms s d by (simp add: queue_inv_def)
qed

text \<open>The interface by which the passes remove candidates, and its law for a batch of removals.\<close>

locale removal =
  fixes inv :: "'q \<Rightarrow> bool" and members :: "'q \<Rightarrow> 'r set" and remove :: "'q \<Rightarrow> 'r \<Rightarrow> 'q"
  assumes remove_inv: "inv q \<Longrightarrow> inv (remove q r)"
    and remove_members: "inv q \<Longrightarrow> members (remove q r) = members q - {r}"
begin

lemma remove_all:
  "inv q \<Longrightarrow> inv (fold (\<lambda>r q. remove q r) rs q) \<and> members (fold (\<lambda>r q. remove q r) rs q) = members q - set rs"
proof (induction rs arbitrary: q)
  case (Cons r rs)
  then show ?case using remove_inv remove_members Cons.IH[of "remove q r"] by auto
qed simp

end

interpretation queue: removal queue_inv "\<lambda>q. set (byFee q)" erase
  by unfold_locales (rule erase_inv, assumption)+

section \<open>Updating candidates and account queues in place\<close>

text \<open>What never changes in a queued candidate: all but its last result, its retries and its cached preflight verdict.\<close>

definition same_key :: "candidate \<Rightarrow> candidate \<Rightarrow> bool" where
  "same_key c d \<longleftrightarrow> TxID c = TxID d \<and> Account c = Account d \<and> FeeLevel c = FeeLevel d \<and> SeqProxy c = SeqProxy d \<and>
     blob c = blob d \<and> LastValid c = LastValid d \<and> Flags c = Flags d \<and> Consequences c = Consequences d"

lemma heap_update_inv:
  assumes "queue_inv q" "\<forall>r. same_key (h r) (heap q r)"
  shows "queue_inv (q\<lparr>heap := h\<rparr>)"
proof -
  have k: "TxID (h r) = TxID (heap q r)" "Account (h r) = Account (heap q r)"
    "FeeLevel (h r) = FeeLevel (heap q r)" "SeqProxy (h r) = SeqProxy (heap q r)" for r
    using assms(2) by (simp_all add: same_key_def)
  have "fee.ordered (q\<lparr>heap := h\<rparr>) (map h (byFee q))"
  proof -
    have "candidateLess (q\<lparr>heap := h\<rparr>) (h a) (h b) = candidateLess q (heap q a) (heap q b)" for a b
      by (simp add: candidateLess_def k)
    then show ?thesis using assms(1) by (simp add: queue_inv_def sorted_wrt_map)
  qed
  then show ?thesis using assms(1) accounts_ok_same[of "q\<lparr>heap := h\<rparr>" q] by (simp add: queue_inv_def k entry_def)
qed

lemma modify_inv:
  "queue_inv q \<Longrightarrow> same_key (f (heap q c)) (heap q c) \<Longrightarrow> queue_inv (modify q c f)"
  unfolding modify_def by (rule heap_update_inv) (simp_all add: same_key_def)

lemma modify_fields [simp]:
  "byAccount (modify q c f) = byAccount q" "parentHash (modify q c f) = parentHash q" "metrics (modify q c f) = metrics q"
  "config (modify q c f) = config q" "maxSize (modify q c f) = maxSize q" "next_ref (modify q c f) = next_ref q"
  by (simp_all add: modify_def)

lemma setAccountQueue_inv:
  assumes "queue_inv q" "map_of (byAccount q) a = Some aq" "aqAccount aq' = aqAccount aq" "Transactions aq' = Transactions aq"
  shows "queue_inv (setAccountQueue q a aq')"
proof -
  have aq: "aqAccount aq = a" "distinct (map fst (Transactions aq))"
    using assms(1,2) by (simp_all add: queue_inv_def accounts_ok_def)
  have "accounts_ok (setAccountQueue q a aq')"
    using assms(1) aq assms(3,4)
    by - (rule accounts_ok_update[of q aq' a], simp_all add: queue_inv_def setAccountQueue_def)
  moreover have "entry (setAccountQueue q a aq') b sp = entry q b sp" for b sp
    using assms(2,4) by (simp add: entry_def setAccountQueue_def alist_simps)
  moreover have "fee.ordered (setAccountQueue q a aq') xs = fee.ordered q xs" for xs
    by (rule ordered_parent) (simp add: setAccountQueue_def)
  ultimately show ?thesis using assms(1) by (simp add: queue_inv_def setAccountQueue_def)
qed

section \<open>Inserting candidates\<close>

definition index_inv :: "TxQ \<Rightarrow> bool" where
  "index_inv q \<longleftrightarrow>
     distinct (byFee q) \<and> (\<forall>r \<in> set (byFee q). r < next_ref q) \<and> fee.ordered q (map (heap q) (byFee q)) \<and>
     (\<forall>t r. map_of (byID q) t = Some r \<longleftrightarrow> r \<in> set (byFee q) \<and> TxID (heap q r) = t)"

lemma queue_inv_index: "queue_inv q \<longleftrightarrow> index_inv q \<and> accounts_ok q \<and>
    (\<forall>a sp r. entry q a sp = Some r \<longleftrightarrow> r \<in> set (byFee q) \<and> Account (heap q r) = a \<and> SeqProxy (heap q r) = sp)"
  by (auto simp: queue_inv_def index_inv_def)

lemma insertByFee_fields [simp]:
  "heap (insertByFee q c) = heap q" "next_ref (insertByFee q c) = next_ref q" "parentHash (insertByFee q c) = parentHash q"
  "byAccount (insertByFee q c) = byAccount q" "metrics (insertByFee q c) = metrics q" "config (insertByFee q c) = config q"
  "maxSize (insertByFee q c) = maxSize q"
  by (simp_all add: insertByFee_def Let_def)

lemma insertByFee_index:
  assumes inv: "index_inv q" and c: "c \<notin> set (byFee q)" "c < next_ref q"
    and id: "\<forall>r \<in> set (byFee q). TxID (heap q r) \<noteq> TxID (heap q c)"
  shows "index_inv (insertByFee q c)" "set (byFee (insertByFee q c)) = insert c (set (byFee q))"
proof -
  let ?p = "insert_search (\<lambda>r. candidateLess q (heap q c) (heap q r)) (byFee q) 0 (length (byFee q))"
  have f: "byFee (insertByFee q c) = take ?p (byFee q) @ c # drop ?p (byFee q)"
    by (simp add: insertByFee_def findInsertPosition_def Let_def)
  have o: "fee.ordered q (map (heap q) (byFee q))" using inv by (simp add: index_inv_def)
  note ins = fee.insert_ordered[OF o refl, of c]
  have tp: "set (take ?p (byFee q)) \<union> set (drop ?p (byFee q)) = set (byFee q)"
    by (metis append_take_drop_id set_append)
  show s: "set (byFee (insertByFee q c)) = insert c (set (byFee q))" unfolding f using tp by auto
  have "distinct (byFee (insertByFee q c))"
  proof -
    have d: "distinct (byFee q)" using inv by (simp add: index_inv_def)
    have "set (take ?p (byFee q)) \<inter> set (drop ?p (byFee q)) = {}"
      by (rule set_take_disj_set_drop_if_distinct[OF d order_refl])
    moreover have "c \<notin> set (take ?p (byFee q)) \<union> set (drop ?p (byFee q))" unfolding tp by (rule c(1))
    ultimately show ?thesis unfolding f using d by simp
  qed
  moreover have "fee.ordered (insertByFee q c) (map (heap q) (byFee (insertByFee q c)))"
    using ins(1) ordered_parent[of "insertByFee q c" q] unfolding f by simp
  moreover have "map_of (byID (insertByFee q c)) t = Some r \<longleftrightarrow> r \<in> insert c (set (byFee q)) \<and> TxID (heap q r) = t" for t r
  proof -
    have "map_of (byID (insertByFee q c)) = (map_of (byID q))(TxID (heap q c) \<mapsto> c)"
      by (simp add: insertByFee_def Let_def alist_simps)
    moreover have "map_of (byID q) t = Some r \<longleftrightarrow> r \<in> set (byFee q) \<and> TxID (heap q r) = t"
      using inv by (simp add: index_inv_def)
    ultimately show ?thesis using id by auto
  qed
  ultimately show "index_inv (insertByFee q c)" using inv c(2) s by (simp add: index_inv_def)
qed

section \<open>Rebuilding the fee order\<close>

lemma set_SortedCandidates [simp]: "set (SortedCandidates h aq) = snd ` set (Transactions aq)"
  by (simp add: SortedCandidates_def)

lemma in_Transactions:
  assumes "queue_inv q" "map_of (byAccount q) a = Some aq"
  shows "(sp, r) \<in> set (Transactions aq) \<longleftrightarrow> r \<in> set (byFee q) \<and> Account (heap q r) = a \<and> SeqProxy (heap q r) = sp"
proof -
  have "distinct (map fst (Transactions aq))" using assms by (simp add: queue_inv_def accounts_ok_def)
  then have "(sp, r) \<in> set (Transactions aq) \<longleftrightarrow> map_of (Transactions aq) sp = Some r"
    by (simp add: map_of_eq_Some_iff)
  also have "\<dots> \<longleftrightarrow> entry q a sp = Some r" using assms(2) by (simp add: entry_def)
  finally show ?thesis using inv_entry[OF assms(1)] by simp
qed

lemma in_SortedCandidates:
  assumes "queue_inv q" "map_of (byAccount q) a = Some aq"
  shows "r \<in> set (SortedCandidates (heap q) aq) \<longleftrightarrow> r \<in> set (byFee q) \<and> Account (heap q r) = a"
  using in_Transactions[OF assms] by force

lemma distinct_SortedCandidates:
  assumes "queue_inv q" "map_of (byAccount q) a = Some aq"
  shows "distinct (SortedCandidates (heap q) aq)"
proof -
  have d: "distinct (map fst (Transactions aq))" using assms by (simp add: queue_inv_def accounts_ok_def)
  have "inj_on snd (set (Transactions aq))"
    using in_Transactions[OF assms] by (auto intro!: inj_onI)
  then have "distinct (map snd (Transactions aq))" using d by (simp add: distinct_map)
  then show ?thesis by (simp add: SortedCandidates_def)
qed

definition queued :: "TxQ \<Rightarrow> account_id \<Rightarrow> ref list" where
  "queued q a = (case map_of (byAccount q) a of Some aq \<Rightarrow> SortedCandidates (heap q) aq | None \<Rightarrow> [])"

lemma in_queued: "queue_inv q \<Longrightarrow> r \<in> set (queued q a) \<longleftrightarrow> r \<in> set (byFee q) \<and> Account (heap q r) = a"
proof (cases "map_of (byAccount q) a")
  case None
  assume q: "queue_inv q"
  have "\<not> (r \<in> set (byFee q) \<and> Account (heap q r) = a)" using inv_account[OF q, of r] None by auto
  then show ?thesis using None by (simp add: queued_def)
next
  case (Some aq)
  assume "queue_inv q"
  then show ?thesis using in_SortedCandidates[OF _ Some] Some by (simp add: queued_def)
qed

lemma distinct_queued: "queue_inv q \<Longrightarrow> distinct (queued q a)"
  using distinct_SortedCandidates by (auto simp: queued_def split: option.splits)

lemma all_queued:
  assumes q: "queue_inv q"
  shows "distinct (concat (map (queued q) (sort (map fst (byAccount q)))))"
    "set (concat (map (queued q) (sort (map fst (byAccount q))))) = set (byFee q)"
proof -
  have d: "distinct (sort (map fst (byAccount q)))" using q by (simp add: queue_inv_def accounts_ok_def)
  have "distinct (concat (map (queued q) as))" if "distinct as" for as using that
  proof (induction as)
    case (Cons a as)
    then show ?case using distinct_queued[OF q] in_queued[OF q] by auto
  qed simp
  then show "distinct (concat (map (queued q) (sort (map fst (byAccount q)))))" using d by blast
  have "Account (heap q r) \<in> fst ` set (byAccount q)" if "r \<in> set (byFee q)" for r
    using inv_account[OF q that] by (metis domI dom_map_of_conv_image_fst)
  then show "set (concat (map (queued q) (sort (map fst (byAccount q))))) = set (byFee q)"
    using in_queued[OF q] by (fastforce simp: image_iff)
qed

lemma insert_all:
  assumes "index_inv q" "distinct cs" "\<forall>c\<in>set cs. c \<notin> set (byFee q) \<and> c < next_ref q"
    "\<forall>a\<in>set cs \<union> set (byFee q). \<forall>b\<in>set cs \<union> set (byFee q). TxID (heap q a) = TxID (heap q b) \<longrightarrow> a = b"
  shows "index_inv (fold (\<lambda>c q. insertByFee q c) cs q) \<and>
    set (byFee (fold (\<lambda>c q. insertByFee q c) cs q)) = set cs \<union> set (byFee q) \<and>
    heap (fold (\<lambda>c q. insertByFee q c) cs q) = heap q \<and> byAccount (fold (\<lambda>c q. insertByFee q c) cs q) = byAccount q \<and>
    parentHash (fold (\<lambda>c q. insertByFee q c) cs q) = parentHash q"
  using assms
proof (induction cs arbitrary: q)
  case (Cons c cs)
  have c: "c \<notin> set (byFee q)" "c < next_ref q" using Cons.prems(3) by simp_all
  have id: "\<forall>r\<in>set (byFee q). TxID (heap q r) \<noteq> TxID (heap q c)"
    using Cons.prems(4) c(1) by (metis UnCI list.set_intros(1))
  note i = insertByFee_index[OF Cons.prems(1) c id]
  have "index_inv (fold (\<lambda>c q. insertByFee q c) cs (insertByFee q c)) \<and>
    set (byFee (fold (\<lambda>c q. insertByFee q c) cs (insertByFee q c))) = set cs \<union> set (byFee (insertByFee q c)) \<and>
    heap (fold (\<lambda>c q. insertByFee q c) cs (insertByFee q c)) = heap (insertByFee q c) \<and>
    byAccount (fold (\<lambda>c q. insertByFee q c) cs (insertByFee q c)) = byAccount (insertByFee q c) \<and>
    parentHash (fold (\<lambda>c q. insertByFee q c) cs (insertByFee q c)) = parentHash (insertByFee q c)"
  proof (rule Cons.IH[OF i(1)])
    show "distinct cs" using Cons.prems(2) by simp
    show "\<forall>d\<in>set cs. d \<notin> set (byFee (insertByFee q c)) \<and> d < next_ref (insertByFee q c)"
      using Cons.prems(2,3) i(2) by auto
    have s: "set cs \<union> set (byFee (insertByFee q c)) = set (c # cs) \<union> set (byFee q)" using i(2) by auto
    show "\<forall>a\<in>set cs \<union> set (byFee (insertByFee q c)). \<forall>b\<in>set cs \<union> set (byFee (insertByFee q c)).
        TxID (heap (insertByFee q c) a) = TxID (heap (insertByFee q c) b) \<longrightarrow> a = b"
      unfolding s insertByFee_fields by (rule Cons.prems(4))
  qed
  then show ?case using i(2) by auto
qed simp

lemma rebuild_inv:
  assumes q: "queue_inv q"
  shows "queue_inv (rebuildByFee (q\<lparr>parentHash := h\<rparr>))" "set (byFee (rebuildByFee (q\<lparr>parentHash := h\<rparr>))) = set (byFee q)"
    "parentHash (rebuildByFee (q\<lparr>parentHash := h\<rparr>)) = h" "heap (rebuildByFee (q\<lparr>parentHash := h\<rparr>)) = heap q"
proof -
  let ?cs = "concat (map (queued q) (sort (map fst (byAccount q))))"
  let ?q0 = "q\<lparr>parentHash := h, byFee := [], byID := []\<rparr>"
  have r: "rebuildByFee (q\<lparr>parentHash := h\<rparr>) = fold (\<lambda>c q. insertByFee q c) ?cs ?q0"
    by (simp add: rebuildByFee_def queued_def[abs_def] Let_def cong: option.case_cong)
  have i0: "index_inv ?q0" by (simp add: index_inv_def)
  have c1: "\<forall>c\<in>set ?cs. c \<notin> set (byFee ?q0) \<and> c < next_ref ?q0"
    using all_queued(2)[OF q] q by (auto simp: queue_inv_def)
  have c2: "\<forall>a\<in>set ?cs \<union> set (byFee ?q0). \<forall>b\<in>set ?cs \<union> set (byFee ?q0). TxID (heap ?q0 a) = TxID (heap ?q0 b) \<longrightarrow> a = b"
    unfolding all_queued(2)[OF q] using inv_unique_ID[OF q] by simp
  note f = insert_all[OF i0 all_queued(1)[OF q] c1 c2]
  show s: "set (byFee (rebuildByFee (q\<lparr>parentHash := h\<rparr>))) = set (byFee q)"
    unfolding r using f all_queued(2)[OF q] by simp
  show "parentHash (rebuildByFee (q\<lparr>parentHash := h\<rparr>)) = h" "heap (rebuildByFee (q\<lparr>parentHash := h\<rparr>)) = heap q"
    unfolding r using f by simp_all
  have b: "byAccount (rebuildByFee (q\<lparr>parentHash := h\<rparr>)) = byAccount q" unfolding r using f by simp
  have "entry (rebuildByFee (q\<lparr>parentHash := h\<rparr>)) a sp = entry q a sp" for a sp by (simp add: entry_def b)
  then show "queue_inv (rebuildByFee (q\<lparr>parentHash := h\<rparr>))"
    using q s b f accounts_ok_same[OF b] \<open>heap _ = heap q\<close> unfolding queue_inv_index r[symmetric] by simp
qed

end
