(* ===== verification/Txq_Select.thy ===== *)
theory Txq_Select
  imports Txq_Inv
begin

text \<open>
  The selections over the queue of one account: each walks a Go map, whose iteration order is random,
  and each returns an extreme entry that does not depend on the order.
\<close>

section \<open>The best element of a walk\<close>

context fee_order
begin

abbreviation best :: "('b \<Rightarrow> 'a) \<Rightarrow> ('b \<Rightarrow> bool) \<Rightarrow> 'b list \<Rightarrow> 'b option \<Rightarrow> 'b option" where
  "best f P \<equiv> fold (\<lambda>x b. if P x then (case b of None \<Rightarrow> Some x | Some y \<Rightarrow> if less (f x) (f y) then Some x else b) else b)"

lemma best_from:
  "best f P xs (Some y) = Some z \<Longrightarrow> \<not> less (f y) (f z) \<and> (z = y \<or> z \<in> set xs \<and> P z) \<and> (\<forall>x\<in>set xs. P x \<longrightarrow> \<not> less (f x) (f z))"
proof (induction xs arbitrary: y)
  case Nil
  then show ?case using asym by auto
next
  case (Cons x xs)
  show ?case
  proof (cases "P x \<and> less (f x) (f y)")
    case True
    then have "best f P xs (Some x) = Some z" using Cons.prems by simp
    from Cons.IH[OF this] have z: "\<not> less (f x) (f z)" "z = x \<or> z \<in> set xs \<and> P z" "\<forall>x\<in>set xs. P x \<longrightarrow> \<not> less (f x) (f z)" by auto
    have "\<not> less (f y) (f z)" using neg_trans[of "f y" "f x" "f z"] asym[of "f x" "f y"] True z(1) by blast
    then show ?thesis using z True by auto
  next
    case False
    then have "best f P xs (Some y) = Some z" using Cons.prems by (auto split: if_splits)
    from Cons.IH[OF this] have z: "\<not> less (f y) (f z)" "z = y \<or> z \<in> set xs \<and> P z" "\<forall>x\<in>set xs. P x \<longrightarrow> \<not> less (f x) (f z)" by auto
    have "\<not> less (f x) (f z)" if "P x" using neg_trans[of "f x" "f y" "f z"] False z(1) that by blast
    then show ?thesis using z by auto
  qed
qed

lemma best_stays: "\<exists>z. best f P xs (Some y) = Some z"
  by (induction xs arbitrary: y) auto

lemma best_none: "best f P xs None = None \<longleftrightarrow> (\<forall>x\<in>set xs. \<not> P x)"
proof (induction xs)
  case (Cons x xs)
  show ?case
  proof (cases "P x")
    case True
    then show ?thesis using best_stays[of P f xs x] by auto
  next
    case False
    then show ?thesis using Cons.IH by simp
  qed
qed simp

lemma best_some:
  "best f P xs None = Some z \<Longrightarrow> z \<in> set xs \<and> P z \<and> (\<forall>x\<in>set xs. P x \<longrightarrow> \<not> less (f x) (f z))"
proof (induction xs)
  case (Cons x xs)
  show ?case
  proof (cases "P x")
    case True
    then have "best f P xs (Some x) = Some z" using Cons.prems by simp
    from best_from[OF this] show ?thesis using True by auto
  next
    case False
    then show ?thesis using Cons by auto
  qed
qed simp

lemma best_eqI:
  assumes "\<And>x y. x \<in> set xs \<Longrightarrow> y \<in> set xs \<Longrightarrow> P x \<Longrightarrow> P y \<Longrightarrow> \<not> less (f x) (f y) \<Longrightarrow> \<not> less (f y) (f x) \<Longrightarrow> x = y"
    and "set xs = set ys"
  shows "best f P xs None = best f P ys None"
proof (cases "best f P xs None")
  case None
  then have "best f P ys None = None" unfolding best_none using assms(2) by simp
  then show ?thesis using None by simp
next
  case (Some z)
  then have "best f P ys None \<noteq> None" using best_none[of P f xs] best_none[of P f ys] assms(2) by simp
  then obtain w where w: "best f P ys None = Some w" by blast
  have "z = w" using best_some[OF Some] best_some[OF w] assms by simp
  then show ?thesis using Some w by simp
qed

end

lemma Less_less: "Less a b \<longleftrightarrow> a < b"
  by (simp add: less_SeqProxy_def)

interpretation lowest: fee_order Less
  unfolding Less_less[abs_def] by unfold_locales auto

interpretation highest: fee_order "\<lambda>a b. Less b a"
  unfolding Less_less by unfold_locales auto

interpretation lowest_value: fee_order "\<lambda>a b. Value a < Value b"
  by unfold_locales auto

section \<open>The selections\<close>

text \<open>The entries of an account's queue are filed under their own sequence proxies, each once.\<close>

definition filed :: "heap \<Rightarrow> accountQueue \<Rightarrow> bool" where
  "filed h aq \<longleftrightarrow> distinct (map fst (Transactions aq)) \<and> (\<forall>(sp, c)\<in>set (Transactions aq). SeqProxy (h c) = sp)"

lemma inv_filed: "queue_inv q \<Longrightarrow> map_of (byAccount q) a = Some aq \<Longrightarrow> filed (heap q) aq"
  using in_Transactions[of q a aq] by (auto simp: filed_def queue_inv_def accounts_ok_def)

abbreviation entries :: "accountQueue \<Rightarrow> ref list" where
  "entries aq \<equiv> map snd (Transactions aq)"

lemma filed_inj:
  assumes "filed h aq" "c \<in> set (entries aq)" "d \<in> set (entries aq)" "SeqProxy (h c) = SeqProxy (h d)"
  shows "c = d"
proof -
  have "(SeqProxy (h c), c) \<in> set (Transactions aq)" "(SeqProxy (h d), d) \<in> set (Transactions aq)"
    using assms(1-3) by (auto simp: filed_def)
  moreover have "distinct (map fst (Transactions aq))" using assms(1) by (simp add: filed_def)
  ultimately show ?thesis using assms(4) map_of_is_SomeI[of "Transactions aq"] by (metis option.inject)
qed

lemma fold_entries:
  assumes "filed h aq" "\<And>c b. g (SeqProxy (h c)) c b = f c b"
  shows "fold (\<lambda>(sp, c). g sp c) (Transactions aq) b = fold f (entries aq) b"
  unfolding fold_map comp_def using assms by (intro fold_cong) (auto simp: filed_def fun_eq_iff)

lemma PrevTx_best: "filed h aq \<Longrightarrow>
    PrevTx h aq sp = highest.best (\<lambda>c. SeqProxy (h c)) (\<lambda>c. Less (SeqProxy (h c)) sp) (entries aq) None"
  unfolding PrevTx_def by (rule fold_entries) (auto split: option.split)

lemma GetNextTx_best: "filed h aq \<Longrightarrow>
    GetNextTx h aq sp = lowest.best (\<lambda>c. SeqProxy (h c)) (\<lambda>c. Less sp (SeqProxy (h c))) (entries aq) None"
  unfolding GetNextTx_def by (rule fold_entries) (auto split: option.split)

lemma FirstSeqTx_best: "filed h aq \<Longrightarrow>
    FirstSeqTx h aq = lowest_value.best (\<lambda>c. SeqProxy (h c)) (\<lambda>c. \<not> IsTicket (SeqProxy (h c))) (entries aq) None"
  unfolding FirstSeqTx_def by (rule fold_entries) (auto split: option.split)

lemma FirstRelevant_best: "filed h aq \<Longrightarrow>
    FirstRelevant h aq sp = lowest.best (\<lambda>c. SeqProxy (h c)) (\<lambda>c. \<not> Less (SeqProxy (h c)) sp) (entries aq) None"
  unfolding FirstRelevant_def by (rule fold_entries) (auto split: option.split)

lemma upperBound_best: "upperBoundSeqProxy aq sp = lowest.best id (Less sp) (map fst (Transactions aq)) None"
  unfolding upperBoundSeqProxy_def fold_map comp_def by (intro fold_cong) (auto simp: fun_eq_iff split: option.split)

lemma FirstSeqTx_lowest:
  assumes "filed h aq" "FirstSeqTx h aq = Some f" "c \<in> set (entries aq)" "\<not> IsTicket (SeqProxy (h c))"
  shows "Value (SeqProxy (h f)) \<le> Value (SeqProxy (h c))"
  using lowest_value.best_some[OF assms(2)[unfolded FirstSeqTx_best[OF assms(1)]]] assms(3,4) by auto

lemma FirstSeqTx_exists:
  assumes "filed h aq" "c \<in> set (entries aq)" "\<not> IsTicket (SeqProxy (h c))"
  shows "FirstSeqTx h aq \<noteq> None"
  unfolding FirstSeqTx_best[OF assms(1)] lowest_value.best_none using assms(2,3) by blast

section \<open>Independence of the order\<close>

lemma sort_key_unique:
  assumes "distinct xs" "distinct ys" "set xs = set ys" "inj_on f (set xs)"
  shows "sort_key f xs = sort_key f ys"
proof -
  have "map f (sort_key f xs) = map f (sort_key f ys)"
    using assms by (intro sorted_distinct_set_unique) (simp_all add: distinct_map)
  then show ?thesis using assms(3,4) by (subst (asm) inj_on_map_eq_map) (auto simp: inj_on_def)
qed

lemma fold_count: "fold (\<lambda>x n. if P x then n + 1 else n) xs (k :: nat) = k + length (filter P xs)"
  by (induction xs arbitrary: k) auto

lemma RelevantCount_eq: "RelevantCount aq sp = length (filter (\<lambda>s. \<not> Less s sp) (map fst (Transactions aq)))"
  using fold_count[of "\<lambda>s. \<not> Less s sp" "map fst (Transactions aq)" 0]
  by (simp add: RelevantCount_def fold_map comp_def case_prod_unfold)

lemma RelevantCount_card:
  "filed h aq \<Longrightarrow> RelevantCount aq sp = card {s \<in> fst ` set (Transactions aq). \<not> Less s sp}"
proof -
  assume "filed h aq"
  then have "distinct (filter (\<lambda>s. \<not> Less s sp) (map fst (Transactions aq)))" by (simp add: filed_def)
  from distinct_card[OF this] show ?thesis unfolding RelevantCount_eq by simp
qed

lemma distinct_entries: "filed h aq \<Longrightarrow> distinct (entries aq)"
proof -
  assume f: "filed h aq"
  then have "distinct (Transactions aq)" by (simp add: filed_def distinct_map)
  moreover have "inj_on snd (set (Transactions aq))"
  proof (rule inj_onI)
    fix x y assume "x \<in> set (Transactions aq)" "y \<in> set (Transactions aq)" "snd x = snd y"
    moreover have "fst z = SeqProxy (h (snd z))" if "z \<in> set (Transactions aq)" for z
      using f that by (auto simp: filed_def)
    ultimately show "x = y" by (simp add: prod_eq_iff)
  qed
  ultimately show ?thesis by (simp add: distinct_map)
qed

lemma SortedCandidates_order:
  assumes "filed h aq" "filed h aq'" "set (Transactions aq) = set (Transactions aq')"
  shows "SortedCandidates h aq = SortedCandidates h aq'"
  unfolding SortedCandidates_def using assms filed_inj[OF assms(1)]
  by (intro sort_key_unique) (simp_all add: distinct_entries[OF assms(1)] distinct_entries[OF assms(2)] inj_on_def)

lemma selections_order:
  assumes "filed h aq" "filed h aq'" "set (Transactions aq) = set (Transactions aq')"
  shows "PrevTx h aq sp = PrevTx h aq' sp" "GetNextTx h aq sp = GetNextTx h aq' sp" "FirstSeqTx h aq = FirstSeqTx h aq'"
    "FirstRelevant h aq sp = FirstRelevant h aq' sp" "upperBoundSeqProxy aq sp = upperBoundSeqProxy aq' sp"
    "RelevantCount aq sp = RelevantCount aq' sp" "getNextQueuableSeq h aq n = getNextQueuableSeq h aq' n"
proof -
  have e: "set (entries aq) = set (entries aq')" using assms(3) by simp
  have inj: "x = y" if "x \<in> set (entries aq)" "y \<in> set (entries aq)" "\<not> Less (SeqProxy (h x)) (SeqProxy (h y))"
    "\<not> Less (SeqProxy (h y)) (SeqProxy (h x))" for x y
    by (rule filed_inj[OF assms(1) that(1,2)]) (use that(3,4) in \<open>auto simp: Less_less\<close>)
  show "PrevTx h aq sp = PrevTx h aq' sp"
    unfolding PrevTx_best[OF assms(1)] PrevTx_best[OF assms(2)] by (rule highest.best_eqI[OF inj e])
  show "GetNextTx h aq sp = GetNextTx h aq' sp"
    unfolding GetNextTx_best[OF assms(1)] GetNextTx_best[OF assms(2)] by (rule lowest.best_eqI[OF inj e])
  show "FirstRelevant h aq sp = FirstRelevant h aq' sp"
    unfolding FirstRelevant_best[OF assms(1)] FirstRelevant_best[OF assms(2)] by (rule lowest.best_eqI[OF inj e])
  have inj': "x = y" if "x \<in> set (entries aq)" "y \<in> set (entries aq)" "\<not> IsTicket (SeqProxy (h x))" "\<not> IsTicket (SeqProxy (h y))"
    "\<not> Value (SeqProxy (h x)) < Value (SeqProxy (h y))" "\<not> Value (SeqProxy (h y)) < Value (SeqProxy (h x))" for x y
    by (rule filed_inj[OF assms(1) that(1,2)]) (use that(3-6) in \<open>auto intro: SeqProxy.expand\<close>)
  show "FirstSeqTx h aq = FirstSeqTx h aq'"
    unfolding FirstSeqTx_best[OF assms(1)] FirstSeqTx_best[OF assms(2)] by (rule lowest_value.best_eqI[OF inj' e])
  show "upperBoundSeqProxy aq sp = upperBoundSeqProxy aq' sp"
    unfolding upperBound_best using assms(3) by (intro lowest.best_eqI) (auto simp: Less_less)
  show "RelevantCount aq sp = RelevantCount aq' sp"
    unfolding RelevantCount_card[OF assms(1)] RelevantCount_card[OF assms(2)] assms(3) ..
  show "getNextQueuableSeq h aq n = getNextQueuableSeq h aq' n"
    unfolding getNextQueuableSeq_def Empty_def SortedCandidates_order[OF assms] using assms(3)
    by (metis length_0_conv set_empty)
qed

section \<open>The average fee level\<close>

text \<open>
  The loop sums quotients and remainders apart so that the sum cannot overflow.  Its overflow guard
  fires only when every level is the largest one, and then the largest level is the average.
\<close>

lemma unat_not_zero_minus: "unat (NOT 0 - x :: u64) = 2 ^ 64 - 1 - unat x"
proof -
  have "x \<le> NOT 0" by simp
  from unat_sub[OF this] show ?thesis by (simp add: unsigned_minus_1_eq_mask mask_eq_exp_minus_1)
qed

lemma guard_iff: "(a :: u64) \<ge> NOT 0 - b \<longleftrightarrow> unat a + unat b \<ge> 2 ^ 64 - 1"
  unfolding word_le_nat_alt unat_not_zero_minus using unsigned_less[of b, where 'a = nat] by auto

lemma averageLoop_sums:
  assumes "unat d < 2 ^ 64 - 1" "unat m + (\<Sum>c\<leftarrow>cs. unat (FeeLevel (h c)) mod unat n) < 2 ^ 64 - 1" "n \<noteq> 0"
  shows "averageLoop h n cs d m =
    (if unat d + (\<Sum>c\<leftarrow>cs. unat (FeeLevel (h c)) div unat n) \<ge> 2 ^ 64 - 1 then NOT 0
     else of_nat (unat d + (\<Sum>c\<leftarrow>cs. unat (FeeLevel (h c)) div unat n) +
       (unat m + (\<Sum>c\<leftarrow>cs. unat (FeeLevel (h c)) mod unat n)) div unat n))"
  using assms(1,2)
proof (induction cs arbitrary: d m)
  case Nil
  then show ?case by (simp add: word_arith_nat_div)
next
  case (Cons c cs)
  let ?x = "FeeLevel (h c)"
  have x: "unat (?x div n) = unat ?x div unat n" "unat (?x mod n) = unat ?x mod unat n"
    by (simp_all add: unat_div_distrib unat_mod_distrib)
  have m: "\<not> m \<ge> NOT 0 - ?x mod n" unfolding guard_iff x using Cons.prems(2) by simp
  show ?case
  proof (cases "d \<ge> NOT 0 - ?x div n")
    case True
    then have "unat d + unat ?x div unat n \<ge> 2 ^ 64 - 1" unfolding guard_iff x .
    then show ?thesis using True by (simp add: Let_def)
  next
    case False
    have d: "unat d + unat ?x div unat n < 2 ^ 64 - 1" using False unfolding guard_iff x by simp
    then have ud: "unat (d + ?x div n) = unat d + unat ?x div unat n"
      by (subst unat_add_lem[THEN iffD1]) (simp_all add: x)
    have um: "unat (m + ?x mod n) = unat m + unat ?x mod unat n"
      using Cons.prems(2) by (subst unat_add_lem[THEN iffD1]) (simp_all add: x)
    have "averageLoop h n (c # cs) d m = averageLoop h n cs (d + ?x div n) (m + ?x mod n)"
      using False m by (simp add: Let_def)
    also have "\<dots> = (if unat (d + ?x div n) + (\<Sum>c\<leftarrow>cs. unat (FeeLevel (h c)) div unat n) \<ge> 2 ^ 64 - 1 then NOT 0
     else of_nat (unat (d + ?x div n) + (\<Sum>c\<leftarrow>cs. unat (FeeLevel (h c)) div unat n) +
       (unat (m + ?x mod n) + (\<Sum>c\<leftarrow>cs. unat (FeeLevel (h c)) mod unat n)) div unat n))"
      by (rule Cons.IH) (use d Cons.prems(2) in \<open>simp_all add: ud um\<close>)
    finally show ?thesis unfolding ud um by (simp add: add.assoc)
  qed
qed

lemma sum_div_mod: "(\<Sum>c\<leftarrow>cs. f c :: nat) = n * (\<Sum>c\<leftarrow>cs. f c div n) + (\<Sum>c\<leftarrow>cs. f c mod n)"
  by (induction cs) (simp_all add: algebra_simps)

lemma average_le:
  assumes "length cs = n" "0 < n"
  shows "(\<Sum>c\<leftarrow>cs. unat (FeeLevel (h c))) div n \<le> 2 ^ 64 - 1"
proof -
  have f: "unat (FeeLevel (h c)) \<le> 2 ^ 64 - 1" for c using unsigned_less[of "FeeLevel (h c)", where 'a = nat] by simp
  have "(\<Sum>c\<leftarrow>cs. unat (FeeLevel (h c))) \<le> (2 ^ 64 - 1) * n"
    using sum_list_mono[of cs "\<lambda>c. unat (FeeLevel (h c))" "\<lambda>_. 2 ^ 64 - 1"] f assms(1) by (simp add: sum_list_triv)
  then have "(\<Sum>c\<leftarrow>cs. unat (FeeLevel (h c))) div n \<le> (2 ^ 64 - 1) * n div n" by (rule div_le_mono)
  then show ?thesis using assms(2) by simp
qed

lemma averageLoop_average:
  assumes "length cs = unat n" "0 < unat n" "unat n < 2 ^ 32"
  shows "averageLoop h n cs 0 0 = of_nat ((\<Sum>c\<leftarrow>cs. unat (FeeLevel (h c))) div unat n)"
proof -
  let ?f = "\<lambda>c. unat (FeeLevel (h c))" and ?n = "unat n"
  let ?D = "\<Sum>c\<leftarrow>cs. ?f c div ?n" and ?R = "\<Sum>c\<leftarrow>cs. ?f c mod ?n"
  have n0: "n \<noteq> 0" using assms(2) by auto
  have R: "?R \<le> ?n * (?n - 1)"
    using sum_list_mono[of cs "\<lambda>c. ?f c mod ?n" "\<lambda>_. ?n - 1"] assms(1,2) by (simp add: sum_list_triv less_Suc_eq_le[symmetric])
  have "?n * (?n - 1) \<le> 2 ^ 32 * (2 ^ 32 - 2)" using assms(3) by (intro mult_le_mono) auto
  then have R': "?R < 2 ^ 64 - 1" using R by simp
  have S: "(\<Sum>c\<leftarrow>cs. ?f c) div ?n \<le> 2 ^ 64 - 1" by (rule average_le[OF assms(1,2)])
  have e: "(\<Sum>c\<leftarrow>cs. ?f c) div ?n = ?D + ?R div ?n"
    using assms(2) by (subst sum_div_mod[of ?f cs ?n]) simp
  have "averageLoop h n cs 0 0 = (if ?D \<ge> 2 ^ 64 - 1 then NOT 0 else of_nat (?D + ?R div ?n))"
    using averageLoop_sums[of 0 0 h n cs] R' n0 by auto
  moreover have "of_nat (?D + ?R div ?n) = (NOT 0 :: u64)" if "?D \<ge> 2 ^ 64 - 1"
  proof -
    have "?D + ?R div ?n = 2 ^ 64 - 1" using that S unfolding e by linarith
    then show ?thesis by simp
  qed
  ultimately show ?thesis unfolding e by simp
qed

section \<open>The first gap in the sequence chain\<close>

text \<open>
  A queued sequence transaction takes the sequences from its own up to its following one: one of them, or as
  many as a \<open>TicketCreate\<close> creates tickets.  \<open>advances\<close> says that computing the following sequence did not wrap
  around, \<open>no_overlap\<close> that no two queued transactions of the account take the same sequence.
\<close>

definition takes :: "candidate \<Rightarrow> u32 \<Rightarrow> bool" where
  "takes c s \<longleftrightarrow> \<not> IsTicket (SeqProxy c) \<and> Value (SeqProxy c) \<le> s \<and> s < Value (FollowingSeq (Consequences c))"

definition advances :: "candidate \<Rightarrow> bool" where
  "advances c \<longleftrightarrow> (\<not> IsTicket (SeqProxy c) \<longrightarrow> Value (SeqProxy c) < Value (FollowingSeq (Consequences c)))"

definition no_overlap :: "heap \<Rightarrow> ref list \<Rightarrow> bool" where
  "no_overlap h cs \<longleftrightarrow> (\<forall>c\<in>set cs. \<forall>d\<in>set cs. \<not> IsTicket (SeqProxy (h c)) \<longrightarrow> \<not> IsTicket (SeqProxy (h d)) \<longrightarrow>
     Value (SeqProxy (h c)) < Value (SeqProxy (h d)) \<longrightarrow> Value (FollowingSeq (Consequences (h c))) \<le> Value (SeqProxy (h d)))"

lemma later_value:
  "sorted_wrt (\<lambda>a b. Less (SeqProxy (h a)) (SeqProxy (h b))) (c # cs) \<Longrightarrow> \<not> IsTicket (SeqProxy (h c)) \<Longrightarrow>
     d \<in> set cs \<Longrightarrow> \<not> IsTicket (SeqProxy (h d)) \<Longrightarrow> Value (SeqProxy (h c)) < Value (SeqProxy (h d))"
  by (auto simp: Less_def split: if_splits)

lemma not_stale: "a \<le> Value (SeqProxy c) \<Longrightarrow> \<not> IsTicket (SeqProxy c) \<Longrightarrow> \<not> Less (SeqProxy c) (NewSeqProxySequence a)"
  by (simp add: Less_def NewSeqProxySequence_def not_less)

lemma chain_walk_gap:
  assumes "sorted_wrt (\<lambda>a b. Less (SeqProxy (h a)) (SeqProxy (h b))) cs" "\<forall>c\<in>set cs. advances (h c)"
    "\<forall>c\<in>set cs. \<not> IsTicket (SeqProxy (h c)) \<longrightarrow> lo < Value (SeqProxy (h c))" "a \<le> lo" "lo < attempt"
  shows "(let n = chain_walk h (NewSeqProxySequence a) attempt cs in lo < n \<and>
     (\<forall>s<n. s < attempt \<or> (\<exists>c\<in>set cs. takes (h c) s)) \<and>
     (\<forall>c\<in>set cs. SeqProxy (h c) \<noteq> NewSeqProxySequence n))"
  using assms
proof (induction cs arbitrary: lo attempt)
  case Nil
  then show ?case by simp
next
  case (Cons c cs)
  let ?v = "Value (SeqProxy (h c))" and ?f = "Value (FollowingSeq (Consequences (h c)))"
  show ?case
  proof (cases "IsTicket (SeqProxy (h c))")
    case True
    then show ?thesis using Cons.IH[of lo attempt] Cons.prems by (auto simp: Let_def NewSeqProxySequence_def)
  next
    case False
    note later = later_value[OF Cons.prems(1) False]
    have v: "lo < ?v" "?v < ?f" using Cons.prems(2,3) False by (simp_all add: advances_def)
    have nl: "\<not> Less (SeqProxy (h c)) (NewSeqProxySequence a)" using not_stale[of a "h c"] v(1) Cons.prems(4) False by simp
    show ?thesis
    proof (cases "attempt < ?v")
      case True
      have "attempt < Value (SeqProxy (h d))" if "d \<in> set cs" "\<not> IsTicket (SeqProxy (h d))" for d
        using later[OF that] True by (rule less_trans[rotated])
      then have "SeqProxy (h d) \<noteq> NewSeqProxySequence attempt" if "d \<in> set (c # cs)" for d
        using that True by (cases "d = c") (fastforce simp: NewSeqProxySequence_def)+
      then show ?thesis using False nl True Cons.prems(5) by (simp add: Let_def)
    next
      case le: False
      let ?n = "chain_walk h (NewSeqProxySequence a) ?f cs"
      have ih: "?v < ?n \<and> (\<forall>s<?n. s < ?f \<or> (\<exists>c\<in>set cs. takes (h c) s)) \<and>
          (\<forall>c\<in>set cs. SeqProxy (h c) \<noteq> NewSeqProxySequence ?n)"
        using Cons.IH[of ?v ?f] Cons.prems(1,2,4) v later unfolding Let_def by simp
      have "s < attempt \<or> (\<exists>d\<in>set (c # cs). takes (h d) s)" if "s < ?n" for s
        using ih that le False by (cases "s < ?v") (auto simp: takes_def)
      moreover have "SeqProxy (h c) \<noteq> NewSeqProxySequence ?n" using ih by (auto simp: NewSeqProxySequence_def)
      moreover have "lo < ?n" using v(1) ih by (blast intro: less_trans)
      ultimately show ?thesis using False nl le ih by (simp add: Let_def)
    qed
  qed
qed

lemma chain_walk_free:
  assumes "sorted_wrt (\<lambda>a b. Less (SeqProxy (h a)) (SeqProxy (h b))) cs" "\<forall>c\<in>set cs. advances (h c)" "no_overlap h cs"
    "\<forall>c\<in>set cs. \<not> IsTicket (SeqProxy (h c)) \<longrightarrow> attempt \<le> Value (SeqProxy (h c))" "a \<le> attempt"
  shows "(let n = chain_walk h (NewSeqProxySequence a) attempt cs in attempt \<le> n \<and> (\<forall>c\<in>set cs. \<not> takes (h c) n))"
  using assms
proof (induction cs arbitrary: attempt)
  case Nil
  then show ?case by simp
next
  case (Cons c cs)
  let ?v = "Value (SeqProxy (h c))" and ?f = "Value (FollowingSeq (Consequences (h c)))"
  have no: "no_overlap h cs" using Cons.prems(3) by (simp add: no_overlap_def)
  show ?case
  proof (cases "IsTicket (SeqProxy (h c))")
    case True
    then show ?thesis using Cons.IH[of attempt] Cons.prems no by (auto simp: Let_def takes_def)
  next
    case False
    note later = later_value[OF Cons.prems(1) False]
    have v: "attempt \<le> ?v" "?v < ?f" using Cons.prems(2,4) False by (simp_all add: advances_def)
    have nl: "\<not> Less (SeqProxy (h c)) (NewSeqProxySequence a)"
      using not_stale[of a "h c"] order_trans[OF Cons.prems(5) v(1)] False by simp
    show ?thesis
    proof (cases "attempt < ?v")
      case True
      have "attempt < Value (SeqProxy (h d))" if "d \<in> set cs" "\<not> IsTicket (SeqProxy (h d))" for d
        using later[OF that] True by (rule less_trans[rotated])
      then have "\<not> takes (h d) attempt" if "d \<in> set (c # cs)" for d
        using that True by (cases "d = c") (fastforce simp: takes_def not_le)+
      then show ?thesis using False nl True by (simp add: Let_def)
    next
      case eq: False
      let ?n = "chain_walk h (NewSeqProxySequence a) ?f cs"
      have "?f \<le> Value (SeqProxy (h d))" if "d \<in> set cs" "\<not> IsTicket (SeqProxy (h d))" for d
        using Cons.prems(3) later[OF that] that False by (simp add: no_overlap_def)
      moreover have af: "attempt \<le> ?f" using v by simp
      moreover have "a \<le> ?f" using Cons.prems(5) af by (rule order_trans)
      ultimately have ih: "?f \<le> ?n \<and> (\<forall>c\<in>set cs. \<not> takes (h c) ?n)"
        using Cons.IH[of ?f] Cons.prems(1,2) no unfolding Let_def by simp
      then have "\<not> takes (h c) ?n" by (simp add: takes_def not_less)
      moreover have "attempt \<le> ?n" using ih af by (blast intro: order_trans)
      ultimately show ?thesis using ih False nl eq by (simp add: Let_def)
    qed
  qed
qed

lemma chain_start_Cons:
  assumes "chain_start h a xs = c # cs"
  shows "SeqProxy (h c) = a \<and> (\<exists>ys. xs = ys @ c # cs)"
  using assms
proof (induction xs)
  case (Cons x xs)
  then show ?case
    by (cases "\<not> IsTicket (SeqProxy (h x)) \<and> \<not> Less (SeqProxy (h x)) a")
      (auto split: if_splits intro: exI[of _ "x # ys" for ys])
qed simp

lemma chain_start_Nil:
  assumes "sorted_wrt (\<lambda>a b. Less (SeqProxy (h a)) (SeqProxy (h b))) xs" "chain_start h (NewSeqProxySequence a) xs = []" "x \<in> set xs"
  shows "SeqProxy (h x) \<noteq> NewSeqProxySequence a"
  using assms
proof (induction xs)
  case (Cons y ys)
  show ?case
  proof (cases "\<not> IsTicket (SeqProxy (h y)) \<and> \<not> Less (SeqProxy (h y)) (NewSeqProxySequence a)")
    case True
    then have "SeqProxy (h y) \<noteq> NewSeqProxySequence a" using Cons.prems(2) by (auto split: if_splits)
    moreover have "NewSeqProxySequence a < SeqProxy (h z)" if "z \<in> set ys" for z
      using True Cons.prems(1) that unfolding Less_less by (auto simp: not_less)
    ultimately show ?thesis using Cons.prems(3) less_irrefl by fastforce
  next
    case False
    then have "SeqProxy (h y) \<noteq> NewSeqProxySequence a" by (auto simp: NewSeqProxySequence_def Less_def)
    then show ?thesis using Cons False by auto
  qed
qed simp

lemma SortedCandidates_strict: "filed h aq \<Longrightarrow> sorted_wrt (\<lambda>a b. Less (SeqProxy (h a)) (SeqProxy (h b))) (SortedCandidates h aq)"
proof -
  assume f: "filed h aq"
  have "sorted (map (\<lambda>c. SeqProxy (h c)) (SortedCandidates h aq))" by (simp add: SortedCandidates_def)
  moreover have "distinct (map (\<lambda>c. SeqProxy (h c)) (SortedCandidates h aq))"
    using filed_inj[OF f] distinct_entries[OF f] by (auto simp: SortedCandidates_def distinct_map inj_on_def)
  ultimately have "sorted_wrt (<) (map (\<lambda>c. SeqProxy (h c)) (SortedCandidates h aq))" by (simp add: strict_sorted_iff)
  then show ?thesis by (simp add: sorted_wrt_map Less_less)
qed

lemma next_queuable_cases:
  assumes "filed h aq"
  obtains "getNextQueuableSeq h aq a = a" "\<forall>c\<in>set (entries aq). SeqProxy (h c) \<noteq> NewSeqProxySequence a"
  | ys c cs where "SortedCandidates h aq = ys @ c # cs" "SeqProxy (h c) = NewSeqProxySequence a"
      "getNextQueuableSeq h aq a = chain_walk h (NewSeqProxySequence a) (Value (FollowingSeq (Consequences (h c)))) cs"
      "\<forall>d\<in>set ys. \<not> IsTicket (SeqProxy (h d)) \<longrightarrow> Value (SeqProxy (h d)) < a"
proof (cases "chain_start h (NewSeqProxySequence a) (SortedCandidates h aq)")
  case Nil
  then have "getNextQueuableSeq h aq a = a" by (simp add: getNextQueuableSeq_def)
  then show thesis using that(1) chain_start_Nil[OF SortedCandidates_strict[OF assms] Nil] by (simp add: SortedCandidates_def)
next
  case (Cons c cs)
  from chain_start_Cons[OF this] obtain ys where c: "SeqProxy (h c) = NewSeqProxySequence a"
    and xs: "SortedCandidates h aq = ys @ c # cs" by blast
  have "\<not> Empty aq" using Cons by (auto simp: Empty_def SortedCandidates_def)
  moreover have "\<forall>d\<in>set ys. \<not> IsTicket (SeqProxy (h d)) \<longrightarrow> Value (SeqProxy (h d)) < a"
    using SortedCandidates_strict[OF assms] c unfolding xs
    by (auto simp: sorted_wrt_append Less_def NewSeqProxySequence_def split: if_splits)
  ultimately show thesis using that(2)[OF xs c] Cons by (simp add: getNextQueuableSeq_def)
qed

lemma entries_sorted: "set (SortedCandidates h aq) = set (entries aq)"
  by (simp add: SortedCandidates_def)

lemma getNextQueuableSeq_gap:
  assumes f: "filed h aq" and adv: "\<forall>c\<in>set (entries aq). advances (h c)"
  shows "a \<le> getNextQueuableSeq h aq a \<and>
    (\<forall>s. a \<le> s \<and> s < getNextQueuableSeq h aq a \<longrightarrow> (\<exists>c\<in>set (entries aq). takes (h c) s)) \<and>
    (\<forall>c\<in>set (entries aq). SeqProxy (h c) \<noteq> NewSeqProxySequence (getNextQueuableSeq h aq a))"
proof (cases rule: next_queuable_cases[OF f, of a])
  case 1
  then show ?thesis by auto
next
  case (2 ys c cs)
  let ?n = "getNextQueuableSeq h aq a" and ?f = "Value (FollowingSeq (Consequences (h c)))"
  have set: "set (entries aq) = set ys \<union> insert c (set cs)" using entries_sorted[of h aq] unfolding 2(1) by simp
  note adv = adv[unfolded set]
  have srt: "sorted_wrt (\<lambda>a b. Less (SeqProxy (h a)) (SeqProxy (h b))) (c # cs)"
    using SortedCandidates_strict[OF f] unfolding 2(1) by (simp add: sorted_wrt_append)
  have c: "\<not> IsTicket (SeqProxy (h c))" "Value (SeqProxy (h c)) = a" using 2(2) by (simp_all add: NewSeqProxySequence_def)
  have "a < ?f" using adv c by (simp add: advances_def)
  then have w: "a < ?n \<and> (\<forall>s<?n. s < ?f \<or> (\<exists>c\<in>set cs. takes (h c) s)) \<and> (\<forall>c\<in>set cs. SeqProxy (h c) \<noteq> NewSeqProxySequence ?n)"
    using chain_walk_gap[of h cs a a ?f] later_value[OF srt c(1)] c(2) srt adv unfolding 2(3) Let_def by simp
  have "\<exists>d\<in>set (entries aq). takes (h d) s" if "a \<le> s" "s < ?n" for s
    unfolding set using w that c by (cases "s < ?f") (auto simp: takes_def)
  moreover have "SeqProxy (h d) \<noteq> NewSeqProxySequence ?n" if "d \<in> set ys" for d
    using 2(4) that w by (auto simp: NewSeqProxySequence_def)
  moreover have "SeqProxy (h c) \<noteq> NewSeqProxySequence ?n" using w 2(2) by (auto simp: NewSeqProxySequence_def)
  ultimately show ?thesis unfolding set using w by auto
qed

lemma getNextQueuableSeq_free:
  assumes f: "filed h aq" and adv: "\<forall>c\<in>set (entries aq). advances (h c)" and no: "no_overlap h (entries aq)"
    and d: "d \<in> set (entries aq)" "a \<le> Value (SeqProxy (h d))"
  shows "\<not> takes (h d) (getNextQueuableSeq h aq a)"
proof (cases rule: next_queuable_cases[OF f, of a])
  case 1
  then show ?thesis using d SeqProxy.expand[of "SeqProxy (h d)" "NewSeqProxySequence a"]
    by (fastforce simp: takes_def NewSeqProxySequence_def)
next
  case (2 ys c cs)
  let ?n = "getNextQueuableSeq h aq a" and ?f = "Value (FollowingSeq (Consequences (h c)))"
  have set: "set (entries aq) = set ys \<union> insert c (set cs)" using entries_sorted[of h aq] unfolding 2(1) by simp
  note adv = adv[unfolded set] and no = no[unfolded no_overlap_def set]
  have srt: "sorted_wrt (\<lambda>a b. Less (SeqProxy (h a)) (SeqProxy (h b))) (c # cs)"
    using SortedCandidates_strict[OF f] unfolding 2(1) by (simp add: sorted_wrt_append)
  have c: "\<not> IsTicket (SeqProxy (h c))" "Value (SeqProxy (h c)) = a" using 2(2) by (simp_all add: NewSeqProxySequence_def)
  have "a < ?f" using adv c by (simp add: advances_def)
  moreover have "?f \<le> Value (SeqProxy (h e))" if "e \<in> set cs" "\<not> IsTicket (SeqProxy (h e))" for e
    using no later_value[OF srt c(1) that] that c by simp
  moreover have "no_overlap h cs" using no by (simp add: no_overlap_def)
  ultimately have w: "?f \<le> ?n \<and> (\<forall>c\<in>set cs. \<not> takes (h c) ?n)"
    using chain_walk_free[of h cs ?f a] srt adv unfolding 2(3) Let_def by simp
  consider "d \<in> set ys" | "d = c" | "d \<in> set cs" using d(1) unfolding set by blast
  then show ?thesis
  proof cases
    case 1
    then show ?thesis using 2(4) d(2) by (auto simp: takes_def)
  qed (use w in \<open>auto simp: takes_def\<close>)
qed

end
