(* ===== verification/Txq_Passes.thy ===== *)
theory Txq_Passes
  imports Txq_Select
begin

text \<open>
  Every pass over the transaction queue keeps its invariant: the closing of a ledger, the move of
  candidates into the open ledger, and the submission of a transaction.
\<close>

section \<open>Closed ledgers\<close>

lemma inv_cong:
  assumes "heap q' = heap q" "next_ref q' = next_ref q" "byFee q' = byFee q" "byID q' = byID q"
    "byAccount q' = byAccount q" "parentHash q' = parentHash q"
  shows "queue_inv q' = queue_inv q"
proof -
  have "entry q' a sp = entry q a sp" for a sp using assms(5) by (simp add: entry_def)
  then show ?thesis
    using accounts_ok_same[OF assms(5)] ordered_parent[OF assms(6)] assms by (simp add: queue_inv_def)
qed

lemma penalize_eq: "penalize q c = (case map_of (byAccount q) (Account (heap q c)) of
    Some aq \<Rightarrow> setAccountQueue q (Account (heap q c)) (aq\<lparr>DropPenalty := True\<rparr>) | None \<Rightarrow> q)"
  by (simp add: penalize_def setAccountQueue_def cong: option.case_cong)

lemma penalize_inv: "queue_inv q \<Longrightarrow> queue_inv (penalize q c)"
  unfolding penalize_eq by (auto split: option.split intro: setAccountQueue_inv)

lemma penalize_fields [simp]:
  "heap (penalize q c) = heap q" "byFee (penalize q c) = byFee q" "parentHash (penalize q c) = parentHash q"
  "config (penalize q c) = config q" "metrics (penalize q c) = metrics q" "maxSize (penalize q c) = maxSize q"
  "byID (penalize q c) = byID q"
  by (simp_all add: penalize_def split: option.split)

lemma penalize_all:
  "queue_inv q \<Longrightarrow> queue_inv (fold (\<lambda>c q. penalize q c) cs q) \<and> heap (fold (\<lambda>c q. penalize q c) cs q) = heap q \<and>
    byFee (fold (\<lambda>c q. penalize q c) cs q) = byFee q \<and> parentHash (fold (\<lambda>c q. penalize q c) cs q) = parentHash q"
  by (induction cs arbitrary: q) (simp_all add: penalize_inv)

lemma penalize_kept:
  "metrics (fold (\<lambda>c q. penalize q c) cs q) = metrics q" "config (fold (\<lambda>c q. penalize q c) cs q) = config q"
  "parentHash (fold (\<lambda>c q. penalize q c) cs q) = parentHash q" "maxSize (fold (\<lambda>c q. penalize q c) cs q) = maxSize q"
  by (induction cs arbitrary: q) simp_all

lemma map_of_filter_values:
  "distinct (map fst xs) \<Longrightarrow> map_of (filter (\<lambda>(k, v). P v) xs) k =
    (case map_of xs k of Some v \<Rightarrow> if P v then Some v else None | None \<Rightarrow> None)"
proof (induction xs)
  case (Cons x xs)
  have "map_of xs (fst x) = None" using Cons.prems by (simp add: map_of_eq_None_iff)
  then show ?case using Cons by (cases x) auto
qed simp

lemma distinct_filter_keys: "distinct (map fst xs) \<Longrightarrow> distinct (map fst (filter P xs))"
  by (induction xs) auto

lemma drop_empty_inv:
  assumes "queue_inv q"
  shows "queue_inv (q\<lparr>byAccount := filter (\<lambda>(account, aq). \<not> Empty aq) (byAccount q)\<rparr>)"
proof -
  let ?q = "q\<lparr>byAccount := filter (\<lambda>(account, aq). \<not> Empty aq) (byAccount q)\<rparr>"
  have ok: "accounts_ok q" using assms by (simp add: queue_inv_def)
  then have d: "distinct (map fst (byAccount q))" by (simp add: accounts_ok_def)
  have m: "map_of (byAccount ?q) a = (case map_of (byAccount q) a of Some aq \<Rightarrow> if \<not> Empty aq then Some aq else None | None \<Rightarrow> None)" for a
    using map_of_filter_values[OF d, of "\<lambda>aq. \<not> Empty aq"] by simp
  have "accounts_ok ?q"
    unfolding accounts_ok_def m using ok distinct_filter_keys[OF d]
    by (auto simp: accounts_ok_def split: option.splits if_splits)
  moreover have "entry ?q a sp = entry q a sp" for a sp
    unfolding entry_def m by (auto simp: Empty_def split: option.split)
  moreover have "fee.ordered ?q xs = fee.ordered q xs" for xs by (rule ordered_parent) simp
  ultimately show ?thesis using assms by (simp add: queue_inv_def)
qed

lemma byFee_erase_all: "byFee (fold (\<lambda>c q. erase q c) cs q) = fold remove1 cs (byFee q)"
  by (induction cs arbitrary: q) simp_all

lemma erase_all_fields [simp]: "heap (fold (\<lambda>c q. erase q c) cs q) = heap q" "parentHash (fold (\<lambda>c q. erase q c) cs q) = parentHash q"
  "config (fold (\<lambda>c q. erase q c) cs q) = config q" "metrics (fold (\<lambda>c q. erase q c) cs q) = metrics q"
  "maxSize (fold (\<lambda>c q. erase q c) cs q) = maxSize q" "next_ref (fold (\<lambda>c q. erase q c) cs q) = next_ref q"
  by (induction cs arbitrary: q) simp_all

lemma fold_remove1: "distinct xs \<Longrightarrow> fold remove1 cs xs = filter (\<lambda>x. x \<notin> set cs) xs"
  by (induction cs arbitrary: xs) (auto simp: distinct_remove1_removeAll removeAll_filter_not_eq intro: filter_cong)

lemma penalties_penalize:
  "map_option DropPenalty (map_of (byAccount (fold (\<lambda>c q. penalize q c) cs q)) a) =
    map_option (\<lambda>aq. DropPenalty aq \<or> (\<exists>c\<in>set cs. Account (heap q c) = a)) (map_of (byAccount q) a)"
proof (induction cs arbitrary: q)
  case (Cons c cs)
  show ?case unfolding fold_Cons comp_apply Cons.IH
    by (cases "map_of (byAccount q) a"; cases "map_of (byAccount q) (Account (heap q c))")
      (auto simp: penalize_def alist_simps)
qed (simp add: option.map_ident)

lemma penalties_erase:
  "map_option DropPenalty (map_of (byAccount (fold (\<lambda>c q. erase q c) cs q)) a) =
    map_option DropPenalty (map_of (byAccount q) a)"
proof (induction cs arbitrary: q)
  case (Cons c cs)
  show ?case unfolding fold_Cons comp_apply Cons.IH
    by (auto simp: byAccount_erase alist_simps removeCandidate_def split: option.splits)
qed simp

lemma ProcessClosedLedger_eq:
  assumes q: "queue_inv q" and u: "update (metrics q) levels (ucast n) leap (config q) = (k, fm)"
    and p: "ProcessClosedLedger q seq levels n leap = (m, q')"
  shows "m = k" "queue_inv q'" "byFee q' = filter (\<lambda>c. \<not> expired seq (heap q c)) (byFee q)" "heap q' = heap q"
    "metrics q' = fm" "config q' = config q" "parentHash q' = parentHash q"
    "maxSize q' = (if leap then maxSize q else Some (newMaxSize (q\<lparr>metrics := fm\<rparr>)))"
    "map_of (byAccount q') a = Some aq \<Longrightarrow> \<not> Empty aq \<and> (\<exists>aq0. map_of (byAccount q) a = Some aq0 \<and>
      (DropPenalty aq \<longleftrightarrow> DropPenalty aq0 \<or> (\<exists>c\<in>set (byFee q). expired seq (heap q c) \<and> Account (heap q c) = a)))"
proof -
  define q1 where "q1 = (if leap then q\<lparr>metrics := fm\<rparr> else q\<lparr>metrics := fm, maxSize := Some (newMaxSize (q\<lparr>metrics := fm\<rparr>))\<rparr>)"
  define cs where "cs = filter (\<lambda>c. expired seq (heap q c)) (byFee q)"
  define q2 where "q2 = fold (\<lambda>c q. penalize q c) cs q1"
  define q3 where "q3 = fold (\<lambda>c q. erase q c) cs q2"
  have f1: "heap q1 = heap q" "byFee q1 = byFee q" "parentHash q1 = parentHash q" "byAccount q1 = byAccount q"
    "config q1 = config q" "metrics q1 = fm" "maxSize q1 = (if leap then maxSize q else Some (newMaxSize (q\<lparr>metrics := fm\<rparr>)))"
    by (simp_all add: q1_def)
  have q': "q' = q3\<lparr>byAccount := filter (\<lambda>(account, aq). \<not> Empty aq) (byAccount q3)\<rparr>" and "m = k"
    using p unfolding ProcessClosedLedger_def u Let_def q3_def q2_def cs_def q1_def by auto
  then show "m = k" by blast
  have i1: "queue_inv q1" using q inv_cong[of q1 q] by (simp add: q1_def)
  have i2: "queue_inv q2" "heap q2 = heap q" "byFee q2 = byFee q" using penalize_all[OF i1, of cs] f1 by (simp_all add: q2_def)
  have i3: "queue_inv q3" using queue.remove_all[OF i2(1), of cs] by (simp add: q3_def)
  then show "queue_inv q'" unfolding q' by (rule drop_empty_inv)
  have d: "distinct (byFee q)" using q by (simp add: queue_inv_def)
  show "byFee q' = filter (\<lambda>c. \<not> expired seq (heap q c)) (byFee q)"
    unfolding q' q3_def using i2(3) by (auto simp: byFee_erase_all fold_remove1[OF d] cs_def intro: filter_cong)
  show "heap q' = heap q" unfolding q' q3_def using i2(2) by simp
  have r2: "metrics q2 = fm" "config q2 = config q" "parentHash q2 = parentHash q" "maxSize q2 = maxSize q1"
    using f1 penalize_kept[of cs q1] by (simp_all add: q2_def)
  then show "metrics q' = fm" "config q' = config q" "parentHash q' = parentHash q"
    "maxSize q' = (if leap then maxSize q else Some (newMaxSize (q\<lparr>metrics := fm\<rparr>)))"
    unfolding q' q3_def using f1(7) by simp_all
  assume "map_of (byAccount q') a = Some aq"
  moreover have d3: "distinct (map fst (byAccount q3))" using i3 by (simp add: queue_inv_def accounts_ok_def)
  ultimately have aq: "\<not> Empty aq" "map_of (byAccount q3) a = Some aq"
    unfolding q' using map_of_filter_values[OF d3, of "\<lambda>aq. \<not> Empty aq" a] by (auto split: option.splits if_splits)
  have "Some (DropPenalty aq) = map_option DropPenalty (map_of (byAccount q3) a)" using aq(2) by simp
  also have "\<dots> = map_option (\<lambda>aq. DropPenalty aq \<or> (\<exists>c\<in>set cs. Account (heap q c) = a)) (map_of (byAccount q) a)"
    unfolding q3_def penalties_erase q2_def penalties_penalize f1 by (rule refl)
  finally show "\<not> Empty aq \<and> (\<exists>aq0. map_of (byAccount q) a = Some aq0 \<and>
      (DropPenalty aq \<longleftrightarrow> DropPenalty aq0 \<or> (\<exists>c\<in>set (byFee q). expired seq (heap q c) \<and> Account (heap q c) = a)))"
    using aq(1) by (cases "map_of (byAccount q) a") (auto simp: cs_def)
qed

lemma insert_all_kept:
  "metrics (fold (\<lambda>c q. insertByFee q c) cs q) = metrics q" "config (fold (\<lambda>c q. insertByFee q c) cs q) = config q"
  "maxSize (fold (\<lambda>c q. insertByFee q c) cs q) = maxSize q"
  by (induction cs arbitrary: q) simp_all

lemma rebuild_kept: "metrics (rebuildByFee q) = metrics q" "config (rebuildByFee q) = config q" "maxSize (rebuildByFee q) = maxSize q"
  by (simp_all add: rebuildByFee_def Let_def insert_all_kept)

section \<open>The pass of Accept\<close>

text \<open>What no step of a pass changes: the fee order's parent hash, metrics and configuration, and of every candidate its key.\<close>

definition kept :: "TxQ \<Rightarrow> TxQ \<Rightarrow> bool" where
  "kept q q' \<longleftrightarrow> queue_inv q' \<and> set (byFee q') \<subseteq> set (byFee q) \<and> (\<forall>r. same_key (heap q' r) (heap q r)) \<and>
     parentHash q' = parentHash q \<and> metrics q' = metrics q \<and> config q' = config q \<and> maxSize q' = maxSize q \<and> next_ref q' = next_ref q"

lemma kept_refl: "queue_inv q \<Longrightarrow> kept q q"
  by (simp add: kept_def same_key_def)

lemma kept_trans: "kept p q \<Longrightarrow> kept q r \<Longrightarrow> kept p r"
  by (auto simp: kept_def same_key_def)

lemma kept_erase: "queue_inv q \<Longrightarrow> kept q (erase q c)"
  using erase_inv[of q c] by (auto simp: kept_def same_key_def)

lemma kept_modify: "queue_inv q \<Longrightarrow> same_key (f (heap q c)) (heap q c) \<Longrightarrow> kept q (modify q c f)"
  using modify_inv[of q f c] by (auto simp: kept_def same_key_def modify_def)

lemma kept_setAccountQueue:
  "queue_inv q \<Longrightarrow> map_of (byAccount q) a = Some aq \<Longrightarrow> aqAccount aq' = aqAccount aq \<Longrightarrow> Transactions aq' = Transactions aq \<Longrightarrow>
    kept q (setAccountQueue q a aq')"
  using setAccountQueue_inv[of q a aq aq'] by (simp add: kept_def same_key_def) (simp add: setAccountQueue_def)

lemma eraseAndAdvance_erases:
  assumes "eraseAndAdvance q i c = (q', i')" "map_of (byAccount q) (Account (heap q c)) = Some aq"
  shows "q' = erase q c"
  using assms by (auto simp: eraseAndAdvance_def Let_def split: if_splits option.splits)

lemma dropLast_erases:
  assumes "dropLastForAccount q aq c i = (q', i')"
  shows "q' = q \<or> (\<exists>t. t \<noteq> c \<and> q' = erase q t)"
  using assms by (auto simp: dropLastForAccount_def Let_def split: if_splits)

lemma kept_recheck:
  assumes "queue_inv q" "recheckPreflight parse ctx q l c = (p, f)"
  shows "kept q p" "byFee p = byFee q" "byAccount p = byAccount q"
proof -
  consider "p = q" | g where "p = modify q c g" "same_key (g (heap q c)) (heap q c)"
    using assms(2) by (auto simp: recheckPreflight_def Let_def same_key_def split: if_splits)
  then show "kept q p" "byFee p = byFee q" "byAccount p = byAccount q"
    by (cases; simp add: kept_refl[OF assms(1)] kept_modify[OF assms(1)])+
qed

lemma kept_acceptFailed:
  assumes q: "queue_inv q" and aq: "map_of (byAccount q) (Account (heap q c)) = Some aq"
    and f: "acceptFailed q aq c i r = (q', i')"
  shows "kept q q'"
proof -
  let ?q1 = "modify q c (\<lambda>d. d\<lparr>LastResult := r\<rparr>)"
  have h1: "heap ?q1 c = (heap q c)\<lparr>LastResult := r\<rparr>" by (simp add: modify_def)
  have k1: "kept q ?q1" by (rule kept_modify[OF q]) (simp add: same_key_def)
  then have i1: "queue_inv ?q1" by (simp add: kept_def)
  have aq1: "map_of (byAccount ?q1) (Account (heap ?q1 c)) = Some aq" using aq by (simp add: h1)
  let ?q2 = "modify ?q1 c (\<lambda>d. d\<lparr>RetriesRemaining := if RetryPenalty aq \<and> RetriesRemaining d > 2 then 1 else RetriesRemaining d - 1\<rparr>)"
  have k2: "kept ?q1 ?q2" by (rule kept_modify[OF i1]) (simp add: same_key_def)
  then have i2: "queue_inv ?q2" by (simp add: kept_def)
  have aq2: "map_of (byAccount ?q2) (Account (heap ?q2 c)) = Some aq" using aq by (simp add: modify_def)
  consider (drop) aq' where "aqAccount aq' = aqAccount aq" "Transactions aq' = Transactions aq"
      "eraseAndAdvance (setAccountQueue ?q1 (Account (heap ?q1 c)) aq') i c = (q', i')"
    | (ticket) "eraseAndAdvance ?q2 i c = (q', i')"
    | (last) j where "dropLastForAccount ?q2 aq c i = (q', j)"
    | (stay) "q' = ?q2"
    using f unfolding acceptFailed_def Let_def h1 by (fastforce split: if_splits prod.splits)
  then show ?thesis
  proof cases
    case drop
    let ?q3 = "setAccountQueue ?q1 (Account (heap ?q1 c)) aq'"
    have k3: "kept ?q1 ?q3" using kept_setAccountQueue[OF i1 aq1 drop(1,2)] .
    have "map_of (byAccount ?q3) (Account (heap ?q3 c)) = Some aq'" by (simp add: setAccountQueue_def alist_simps)
    then have "q' = erase ?q3 c" by (rule eraseAndAdvance_erases[OF drop(3)])
    then show ?thesis using kept_trans[OF kept_trans[OF k1 k3] kept_erase[of ?q3 c]] k3 by (simp add: kept_def)
  next
    case ticket
    then have "q' = erase ?q2 c" by (rule eraseAndAdvance_erases[OF _ aq2])
    then show ?thesis using kept_trans[OF kept_trans[OF k1 k2] kept_erase[OF i2, of c]] by simp
  next
    case last
    then show ?thesis using dropLast_erases[OF last] kept_trans[OF k1 k2] kept_trans[OF kept_trans[OF k1 k2] kept_erase[OF i2]] by auto
  next
    case stay
    then show ?thesis using kept_trans[OF k1 k2] by simp
  qed
qed

lemma kept_acceptStep:
  assumes q: "queue_inv q" and i: "i < length (byFee q)" and st: "acceptStep parse ctx s q l i = Some (q', l', i', a)"
  shows "kept q q'"
  using st
proof (cases rule: acceptStep_cases)
  case orphan
  then show ?thesis using kept_erase[OF q] by simp
next
  case skip
  then show ?thesis using kept_refl[OF q] by simp
next
  case (failed aq p f r)
  note p = kept_recheck[OF q failed(2)]
  have "map_of (byAccount p) (Account (heap p (byFee q ! i))) = Some aq"
    using failed(1) p by (simp add: kept_def same_key_def)
  then show ?thesis using kept_acceptFailed[OF _ _ failed(3)] p(1) kept_trans by (metis kept_def)
next
  case (applied aq p)
  note p = kept_recheck[OF q applied(2)]
  have "map_of (byAccount p) (Account (heap p (byFee q ! i))) = Some aq"
    using applied(1) p by (simp add: kept_def same_key_def)
  then have "q' = erase p (byFee q ! i)" by (rule eraseAndAdvance_erases[OF applied(3)])
  then show ?thesis using p(1) kept_erase[of p] kept_trans by (metis kept_def)
qed

lemma kept_acceptLoop:
  "queue_inv q \<Longrightarrow> acceptLoop parse ctx s q l i b = (q', l', b') \<Longrightarrow> kept q q'"
proof (induction parse ctx s q l i b rule: acceptLoop.induct)
  case (1 parse ctx s q l i b)
  show ?case
  proof (cases "i < length (byFee q)")
    case False
    then show ?thesis using "1.prems" by (simp add: acceptLoop.simps[of parse ctx s q] kept_refl)
  next
    case i: True
    show ?thesis
    proof (cases "acceptStep parse ctx s q l i")
      case None
      then show ?thesis using "1.prems" i by (simp add: acceptLoop.simps[of parse ctx s q] kept_refl)
    next
      case (Some x)
      obtain q1 l1 i1 a where x: "x = (q1, l1, i1, a)" by (cases x)
      have k: "kept q q1" using kept_acceptStep[OF "1.prems"(1) i] Some x by simp
      have "acceptLoop parse ctx s q1 l1 i1 (b \<or> a) = (q', l', b')"
        using "1.prems"(2) i Some x by (simp add: acceptLoop.simps[of parse ctx s q])
      then have "kept q1 q'" using "1.IH"[OF i Some x[symmetric] refl refl] k by (simp add: kept_def)
      then show ?thesis by (rule kept_trans[OF k])
    qed
  qed
qed

lemma Accept_kept:
  assumes "queue_inv q" "Accept parse ctx q l = (q', l', b)"
  shows "queue_inv q'" "set (byFee q') \<subseteq> set (byFee q)" "\<forall>r. same_key (heap q' r) (heap q r)"
    "parentHash q' = acGetParentHash ctx l" "metrics q' = metrics q" "config q' = config q" "maxSize q' = maxSize q"
proof -
  obtain q1 l1 b1 where lp: "acceptLoop parse ctx (snapshot (metrics q)) q l 0 False = (q1, l1, b1)"
    by (metis prod.exhaust)
  have k: "kept q q1" by (rule kept_acceptLoop[OF assms(1) lp])
  then have i1: "queue_inv q1" by (simp add: kept_def)
  note r = rebuild_inv[OF i1, of "acGetParentHash ctx l"]
  have q': "q' = (if acGetParentHash ctx l \<noteq> parentHash q1 then rebuildByFee (q1\<lparr>parentHash := acGetParentHash ctx l\<rparr>) else q1)"
    using assms(2) lp by (auto simp: Accept_def Let_def split: if_splits)
  show "queue_inv q'" "set (byFee q') \<subseteq> set (byFee q)" "\<forall>r. same_key (heap q' r) (heap q r)"
    "parentHash q' = acGetParentHash ctx l"
    using k r unfolding q' by (auto simp: kept_def)
  show "metrics q' = metrics q" "config q' = config q" "maxSize q' = maxSize q"
    using k rebuild_kept[of "q1\<lparr>parentHash := acGetParentHash ctx l\<rparr>"] unfolding q' by (auto simp: kept_def)
qed

end
