(* ===== verification/Txq_Admit.thy ===== *)
theory Txq_Admit
  imports Txq_Passes
begin

text \<open>
  What a submission does to the queue: every outcome of \<open>Apply\<close> is a new entry in a queue that has made
  room for it, an application that clears entries, or a refusal that keeps every candidate.
\<close>

section \<open>A new entry\<close>

lemma alloc_index:
  assumes q: "queue_inv q"
  shows "index_inv (q\<lparr>heap := (heap q)(next_ref q := d), next_ref := Suc (next_ref q), byAccount := as\<rparr>)" (is "index_inv ?q")
proof -
  have lt: "r < next_ref q" if "r \<in> set (byFee q)" for r using q that by (simp add: queue_inv_def)
  then have h: "heap ?q r = heap q r" if "r \<in> set (byFee q)" for r using that lt[OF that] by auto
  then have m: "map (heap ?q) (byFee q) = map (heap q) (byFee q)" by simp
  have p: "parentHash ?q = parentHash q" and b: "byFee ?q = byFee q" by simp_all
  have "fee.ordered ?q (map (heap ?q) (byFee ?q))"
    unfolding b m ordered_parent[OF p] using q by (simp add: queue_inv_def)
  moreover have "map_of (byID ?q) t = Some r \<longleftrightarrow> r \<in> set (byFee ?q) \<and> TxID (heap ?q r) = t" for t r
    using inv_byID[OF q, of t r] h[of r] by auto
  ultimately show ?thesis using q lt unfolding index_inv_def by (auto simp: queue_inv_def less_Suc_eq)
qed

lemma enqueue_inv:
  fixes ctx :: "'l ApplyContext" and l :: 'l and cons :: txConsequences and fee :: FeeLevel
  assumes q: "queue_inv q" and e: "entry q (sAccount s) (sSeqProxy s) = None"
    and id: "\<forall>r\<in>set (byFee q). TxID (heap q r) \<noteq> sTxID s"
  defines "c \<equiv> next_ref q"
  defines "cand \<equiv> (newCandidate (sTxID s) (sAccount s) fee (sSeqProxy s) (sLastValid s) TesSUCCESS cons)
      \<lparr>blob := sBlob s, Flags := sFlags s AND NOT TapRETRY, PreflightFlags := sFlags s, PreflightRules := RulesIdentity ctx l\<rparr>"
  defines "q' \<equiv> enqueue ctx q l s cons fee"
  shows "queue_inv q'" "set (byFee q') = insert c (set (byFee q))" "c \<notin> set (byFee q)" "heap q' = (heap q)(c := cand)"
    "parentHash q' = parentHash q" "config q' = config q" "metrics q' = metrics q" "maxSize q' = maxSize q"
proof -
  define aq where "aq = (case map_of (byAccount q) (sAccount s) of Some aq \<Rightarrow> aq | None \<Rightarrow> newAccountQueue (sAccount s))"
  define h where "h = (heap q)(c := cand)"
  define as where "as = AList.update (sAccount s) (Add h aq c) (byAccount q)"
  let ?q1 = "q\<lparr>heap := h, next_ref := Suc (next_ref q), byAccount := as\<rparr>"
  have q': "q' = insertByFee ?q1 c"
    by (simp add: q'_def enqueue_def alloc_def setAccountQueue_def Let_def as_def aq_def h_def cand_def c_def cong: option.case_cong)
  have k: "TxID cand = sTxID s" "Account cand = sAccount s" "SeqProxy cand = sSeqProxy s"
    by (simp_all add: cand_def newCandidate_def)
  show c: "c \<notin> set (byFee q)" using q by (auto simp: queue_inv_def c_def)
  have i1: "index_inv ?q1" using alloc_index[OF q, where d = cand and as = as] by (simp add: h_def c_def)
  have id1: "\<forall>r\<in>set (byFee ?q1). TxID (heap ?q1 r) \<noteq> TxID (heap ?q1 c)" using id c k(1) by (auto simp: h_def)
  have c1: "c \<notin> set (byFee ?q1)" "c < next_ref ?q1" using c by (simp_all add: c_def)
  note ins = insertByFee_index[OF i1 c1 id1]
  show s: "set (byFee q') = insert c (set (byFee q))" using ins(2) by (simp add: q')
  show f: "heap q' = (heap q)(c := cand)" "parentHash q' = parentHash q" "config q' = config q" "metrics q' = metrics q" "maxSize q' = maxSize q"
    by (simp_all add: q' h_def)
  have hc: "h c = cand" by (simp add: h_def)
  have aq: "aqAccount aq = sAccount s" "distinct (map fst (Transactions aq))"
    using q by (auto simp: aq_def queue_inv_def accounts_ok_def newAccountQueue_def split: option.split)
  have "accounts_ok q'"
  proof (rule accounts_ok_update[of q])
    show "accounts_ok q" using q by (simp add: queue_inv_def)
    show "aqAccount (Add h aq c) = sAccount s" using aq(1) by (simp add: Add_def)
    show "distinct (map fst (Transactions (Add h aq c)))" using distinct_update[OF aq(2)] by (simp add: Add_def)
    show "byAccount q' = AList.update (sAccount s) (Add h aq c) (byAccount q)" by (simp add: q' as_def)
  qed
  moreover have ent: "entry q' a sp = (if a = sAccount s \<and> sp = sSeqProxy s then Some c else entry q a sp)" for a sp
    using e by (auto simp: entry_def q' as_def alist_simps Add_def hc k aq_def newAccountQueue_def split: option.splits)
  moreover have "entry q' a sp = Some r \<longleftrightarrow> r \<in> set (byFee q') \<and> Account (heap q' r) = a \<and> SeqProxy (heap q' r) = sp" for a sp r
    unfolding ent s f using inv_entry[OF q, of a sp r] c e k by auto
  ultimately show "queue_inv q'" unfolding queue_inv_index using ins(1) by (simp add: q')
qed

section \<open>The stages of a submission\<close>

lemma kept_incTxQFull: "queue_inv q \<Longrightarrow> kept q (incTxQFull q)"
  using inv_cong[of "incTxQFull q" q] by (simp add: kept_def incTxQFull_def same_key_def)

lemma incTxQFull_fields [simp]: "byFee (incTxQFull q) = byFee q" "byAccount (incTxQFull q) = byAccount q"
  "heap (incTxQFull q) = heap q" "maxSize (incTxQFull q) = maxSize q"
  by (simp_all add: incTxQFull_def)

lemma canBeHeld_cases: "canBeHeld q s aq rep = (p, r) \<Longrightarrow> p = q \<or> p = incTxQFull q"
  by (auto simp: canBeHeld_def Let_def split: if_splits option.splits)

lemma inv_entry_Some:
  "queue_inv q \<Longrightarrow> map_of (byAccount q) a = Some aq \<Longrightarrow> map_of (Transactions aq) sp = Some c \<Longrightarrow>
    c \<in> set (byFee q) \<and> Account (heap q c) = a \<and> SeqProxy (heap q c) = sp"
  using inv_entry[of q a sp c] by (simp add: entry_def)

lemma evict_cases:
  assumes "queue_inv q" "evict q a fee = (p, ok)"
  obtains "\<not> ok" "p = incTxQFull q"
  | lo aq d where "ok" "lo \<in> set (byFee q)" "Account (heap q lo) \<noteq> a" "map_of (byAccount q) (Account (heap q lo)) = Some aq"
      "endEffectiveFeeLevel (heap q) aq lo fee < fee" "d \<in> set (byFee q)" "Account (heap q d) = Account (heap q lo)" "p = erase q d"
proof (cases "find (\<lambda>c. Account (heap q c) \<noteq> a) (rev (byFee q))")
  case None
  then show thesis using assms(2) that(1) by (simp add: evict_def)
next
  case (Some lo)
  then have lo: "lo \<in> set (byFee q)" "Account (heap q lo) \<noteq> a" using nth_mem[of _ "rev (byFee q)"] by (auto simp: find_Some_iff)
  then obtain aq where aq: "map_of (byAccount q) (Account (heap q lo)) = Some aq" using inv_account[OF assms(1)] by blast
  let ?xs = "SortedCandidates (heap q) aq"
  have "lo \<in> set ?xs" using in_SortedCandidates[OF assms(1) aq] lo by simp
  then have ne: "length ?xs > 0" by (cases ?xs) auto
  then have last: "?xs ! (length ?xs - 1) \<in> set ?xs" by (intro nth_mem) simp
  show thesis
  proof (cases "endEffectiveFeeLevel (heap q) aq lo fee < fee")
    case True
    then have "ok" "p = erase q (?xs ! (length ?xs - 1))" using assms(2) Some aq ne by (auto simp: evict_def Let_def)
    then show thesis using that(2)[OF _ lo aq True] last in_SortedCandidates[OF assms(1) aq] by blast
  next
    case False
    then show thesis using assms(2) Some aq that(1) by (simp add: evict_def Let_def)
  qed
qed

lemma kept_retryUpdates:
  "queue_inv q \<Longrightarrow> kept q (retryUpdates q us) \<and> byFee (retryUpdates q us) = byFee q \<and> byAccount (retryUpdates q us) = byAccount q"
proof (induction us arbitrary: q)
  case (Cons u us)
  obtain c r where u: "u = (c, r)" by (cases u)
  let ?p = "modify q c (\<lambda>d. d\<lparr>RetriesRemaining := (if RetriesRemaining d > 0 then RetriesRemaining d - 1 else RetriesRemaining d), LastResult := r\<rparr>)"
  have k: "kept q ?p" by (rule kept_modify[OF Cons.prems]) (simp add: same_key_def)
  then have "kept ?p (retryUpdates ?p us) \<and> byFee (retryUpdates ?p us) = byFee ?p \<and> byAccount (retryUpdates ?p us) = byAccount ?p"
    by (intro Cons.IH) (simp add: kept_def)
  moreover have "retryUpdates q (u # us) = retryUpdates ?p us" by (simp add: retryUpdates_def u)
  ultimately show ?case using kept_trans[OF k] by simp
qed (simp add: retryUpdates_def kept_refl)

lemma kept_erase_all: "queue_inv q \<Longrightarrow> kept q (fold (\<lambda>c q. erase q c) cs q)"
  using queue.remove_all[of q cs] by (auto simp: kept_def same_key_def)

lemma kept_eraseEntry: "queue_inv q \<Longrightarrow> kept q (eraseEntry q a sp)"
  by (auto simp: eraseEntry_def kept_refl kept_erase split: option.split)

lemma tryClear_cases:
  assumes q: "queue_inv q" and c: "tryClearAccountQueue parse ctx q l aq s fee = (q', l', r)"
  obtains (skip) "r = None" "l' = l" "kept q q'" "byFee q' = byFee q" "byAccount q' = byAccount q"
  | (abort) "r = Some (reject TefINTERNAL)" "q' = q" "l' = l"
  | (cleared) code cs where "r = Some \<lparr>ResultCode = code, Applied = True, Queued = False\<rparr>"
      "q' = eraseEntry (fold (\<lambda>c q. erase q c) cs q) (sAccount s) (sSeqProxy s)"
      "\<forall>c\<in>set cs. Less (SeqProxy (heap q c)) (sSeqProxy s)"
proof -
  have r: "kept q q'" "byFee q' = byFee q" "byAccount q' = byAccount q" if "q' = retryUpdates q us" for us
    using kept_retryUpdates[OF q, of us] that by simp_all
  let ?cs = "takeWhile (\<lambda>c. Less (SeqProxy (heap q c)) (sSeqProxy s)) (RelevantSortedCandidates (heap q) aq (NewSeqProxySequence (sAcctSeq s)))"
  have cs: "\<forall>c\<in>set ?cs. Less (SeqProxy (heap q c)) (sSeqProxy s)" by (auto dest: set_takeWhileD)
  have "(r = None \<and> l' = l \<and> (q' = q \<or> (\<exists>us. q' = retryUpdates q us))) \<or> (r = Some (reject TefINTERNAL) \<and> q' = q \<and> l' = l) \<or>
    (\<exists>code. r = Some \<lparr>ResultCode = code, Applied = True, Queued = False\<rparr> \<and>
      q' = eraseEntry (fold (\<lambda>c q. erase q c) ?cs q) (sAccount s) (sSeqProxy s))"
    using c unfolding tryClearAccountQueue_def Let_def by (auto split: if_splits prod.splits option.splits)
  then show thesis using r kept_refl[OF q] cs skip abort cleared by blast
qed

lemma entry_byAccount: "byAccount q' = byAccount q \<Longrightarrow> entry q' a sp = entry q a sp"
  by (simp add: entry_def)

lemma entry_eraseEntry: "queue_inv q \<Longrightarrow> entry (eraseEntry q a sp) a sp = None"
proof -
  assume q: "queue_inv q"
  show ?thesis
  proof (cases "entry q a sp")
    case None
    then have "eraseEntry q a sp = q" by (auto simp: eraseEntry_def entry_def split: option.splits)
    then show ?thesis using None by simp
  next
    case (Some c)
    then have "eraseEntry q a sp = erase q c" by (auto simp: eraseEntry_def entry_def split: option.splits)
    then show ?thesis using Some inv_entry[OF q, of a sp c] by (simp add: entry_erase)
  qed
qed

text \<open>
  The queue \<open>p\<close> just before the new entry: a replaced entry is gone; else, when the queue is full, one
  candidate of another account is; else nothing is.
\<close>

definition room_for :: "TxQ \<Rightarrow> submission \<Rightarrow> TxQ \<Rightarrow> bool" where
  "room_for q s p \<longleftrightarrow> kept q p \<and> entry p (sAccount s) (sSeqProxy s) = None \<and>
     (case entry q (sAccount s) (sSeqProxy s) of
        Some c \<Rightarrow> set (byFee p) = set (byFee q) - {c}
      | None \<Rightarrow> if isFull q then \<exists>d\<in>set (byFee q). Account (heap q d) \<noteq> sAccount s \<and> set (byFee p) = set (byFee q) - {d}
                else set (byFee p) = set (byFee q))"

lemma make_room:
  assumes q: "queue_inv q" and k: "kept q q2" "byFee q2 = byFee q" "byAccount q2 = byAccount q"
    and rep: "rep = entry q (sAccount s) (sSeqProxy s)"
    and e: "(if rep = None \<and> isFull q2 then evict q2 (sAccount s) fee else (q2, True)) = (q3, True)"
  shows "room_for q s (case rep of Some r \<Rightarrow> erase q3 r | None \<Rightarrow> q3)"
proof -
  have q2: "queue_inv q2" "\<And>r. same_key (heap q2 r) (heap q r)" using k(1) by (simp_all add: kept_def)
  have full: "isFull q2 = isFull q" using k by (simp add: isFull_def kept_def cong: option.case_cong)
  have e2: "entry q2 a sp = entry q a sp" for a sp by (rule entry_byAccount[OF k(3)])
  show ?thesis
  proof (cases rep)
    case (Some c)
    then have q3: "q3 = q2" using e by simp
    have c: "c \<in> set (byFee q2)" "Account (heap q2 c) = sAccount s" "SeqProxy (heap q2 c) = sSeqProxy s"
      using inv_entry[OF q2(1), of "sAccount s" "sSeqProxy s" c] Some rep e2 by auto
    have "entry (erase q2 c) (sAccount s) (sSeqProxy s) = None" using c Some rep e2 by (simp add: entry_erase)
    moreover have "kept q (erase q2 c)" using kept_trans[OF k(1) kept_erase[OF q2(1)]] .
    ultimately show ?thesis using Some rep erase_inv(2)[OF q2(1), of c] k(2) by (simp add: room_for_def q3)
  next
    case None
    show ?thesis
    proof (cases "isFull q")
      case False
      then have "q3 = q2" using e full by simp
      then show ?thesis using None False rep k e2 by (simp add: room_for_def)
    next
      case True
      then have ev: "evict q2 (sAccount s) fee = (q3, True)" using e None full by simp
      obtain d where d: "d \<in> set (byFee q2)" "Account (heap q2 d) \<noteq> sAccount s" "q3 = erase q2 d"
        using evict_cases[OF q2(1) ev] by metis
      have "entry q3 (sAccount s) (sSeqProxy s) = None" using d(2,3) None rep e2 by (simp add: entry_erase)
      moreover have "kept q q3" unfolding d(3) using kept_trans[OF k(1) kept_erase[OF q2(1)]] .
      moreover have "\<exists>d\<in>set (byFee q). Account (heap q d) \<noteq> sAccount s \<and> set (byFee q3) = set (byFee q) - {d}"
        using d k(2) q2(2)[of d] erase_inv(2)[OF q2(1), of d] by (auto simp: same_key_def)
      ultimately show ?thesis using None True rep by (simp add: room_for_def)
    qed
  qed
qed

lemma queueOrClear_cases:
  assumes q: "queue_inv q" and aq: "aq = map_of (byAccount q) (sAccount s)" and rep: "rep = entry q (sAccount s) (sSeqProxy s)"
    and r: "queueOrClear parse ctx q l s aq n rep cons fee multi bal seq = (r, q', l')"
  obtains (queued) p where "r = \<lparr>ResultCode = TerQUEUED, Applied = False, Queued = True\<rparr>" "l' = l"
      "room_for q s p" "q' = enqueue ctx p l s cons fee"
  | (cleared) code where "r = \<lparr>ResultCode = code, Applied = True, Queued = False\<rparr>" "kept q q'" "entry q' (sAccount s) (sSeqProxy s) = None"
  | (refused) code where "r = reject code" "kept q q'" "byFee q' = byFee q" "l' = l"
proof (cases "PreclaimTransactionWithFlags ctx l (sTxn s) (sAccount s) bal seq (sFlags s) \<noteq> TesSUCCESS \<and>
    (\<not> IsTec (PreclaimTransactionWithFlags ctx l (sTxn s) (sAccount s) bal seq (sFlags s)) \<or> has_flag (sFlags s) TapRETRY)")
  case True
  then show thesis using r refused kept_refl[OF q] by (auto simp: queueOrClear_def Let_def)
next
  case pre: False
  define c where "c = (case aq of Some a \<Rightarrow>
      if \<not> IsTicket (sSeqProxy s) \<and> n > 0 \<and> multi \<and> fee > scaleFeeLevel (snapshot (metrics q)) (sTxInLedger s) \<and>
         scaleFeeLevel (snapshot (metrics q)) (sTxInLedger s) > BaseLevel \<and>
         (case FirstRelevant (heap q) a (NewSeqProxySequence (sAcctSeq s)) of
            Some f \<Rightarrow> RetriesRemaining (heap q f) = RetriesAllowed | None \<Rightarrow> False)
      then tryClearAccountQueue parse ctx q l a s fee else (q, l, None)
    | None \<Rightarrow> (q, l, None))"
  obtain q1 l1 cr where c1: "c = (q1, l1, cr)" by (cases c)
  have r1: "(r, q', l') = (case cr of Some r \<Rightarrow> (r, q1, l1) | None \<Rightarrow>
      (case (if multi then (q1, None) else canBeHeld q1 s aq rep) of
         (q2, Some r) \<Rightarrow> (reject r, q2, l1)
       | (q2, None) \<Rightarrow>
         (case (if rep = None \<and> isFull q2 then evict q2 (sAccount s) fee else (q2, True)) of
            (q3, False) \<Rightarrow> (reject TelCAN_NOT_QUEUE_FULL, q3, l1)
          | (q3, True) \<Rightarrow> (\<lparr>ResultCode = TerQUEUED, Applied = False, Queued = True\<rparr>,
              enqueue ctx (case rep of Some r \<Rightarrow> erase q3 r | None \<Rightarrow> q3) l1 s cons fee, l1))))"
    using r[symmetric] c1 unfolding queueOrClear_def Let_def if_not_P[OF pre] c_def[symmetric] by (simp only: prod.case)
  consider (skip) "cr = None" "l1 = l" "kept q q1" "byFee q1 = byFee q" "byAccount q1 = byAccount q"
    | (abort) "cr = Some (reject TefINTERNAL)" "q1 = q" "l1 = l"
    | (clr) code cs where "cr = Some \<lparr>ResultCode = code, Applied = True, Queued = False\<rparr>"
        "q1 = eraseEntry (fold (\<lambda>c q. erase q c) cs q) (sAccount s) (sSeqProxy s)"
    using c1 kept_refl[OF q] unfolding c_def
    by (auto split: option.splits if_splits elim!: tryClear_cases[OF q])
  then show thesis
  proof cases
    case abort
    then show thesis using r1 refused kept_refl[OF q] by simp
  next
    case (clr code cs)
    note k = kept_erase_all[OF q, of cs]
    then have i: "queue_inv (fold (\<lambda>c q. erase q c) cs q)" by (simp add: kept_def)
    show thesis using r1 clr cleared[of code] kept_trans[OF k kept_eraseEntry[OF i]] entry_eraseEntry[OF i] by simp
  next
    case skip
    obtain q2 h where h: "(if multi then (q1, None) else canBeHeld q1 s aq rep) = (q2, h)" by (metis prod.exhaust)
    have i1: "queue_inv q1" using skip by (simp add: kept_def)
    have q2: "q2 = q1 \<or> q2 = incTxQFull q1" using h canBeHeld_cases[of q1 s aq rep q2 h] by (auto split: if_splits)
    then have k2: "kept q q2" "byFee q2 = byFee q" "byAccount q2 = byAccount q"
      using skip kept_trans[OF skip(3) kept_incTxQFull[OF i1]] by auto
    then have i2: "queue_inv q2" by (simp add: kept_def)
    show thesis
    proof (cases h)
      case (Some x)
      then show thesis using r1 skip h refused k2 by simp
    next
      case None
      obtain q3 ok where e: "(if rep = None \<and> isFull q2 then evict q2 (sAccount s) fee else (q2, True)) = (q3, ok)"
        by (metis prod.exhaust)
      show thesis
      proof (cases ok)
        case True
        then show thesis using r1 skip h None e queued[OF _ _ make_room[OF q k2 rep]] by simp
      next
        case False
        then have "evict q2 (sAccount s) fee = (q3, False)" using e by (auto split: if_splits)
        then have "q3 = incTxQFull q2" using evict_cases[OF i2] by metis
        then have "kept q q3" "byFee q3 = byFee q" using kept_trans[OF k2(1) kept_incTxQFull[OF i2]] k2 by simp_all
        then show thesis using r1 skip h None e False refused by simp
      qed
    qed
  qed
qed

lemma canBeHeld_None: "canBeHeld q s aq rep = (p, None) \<Longrightarrow> p = q"
  by (auto simp: canBeHeld_def Let_def split: if_splits option.splits)

text \<open>What the gates before the last part have checked.\<close>

definition gates :: "'l ApplyContext \<Rightarrow> TxQ \<Rightarrow> 'l \<Rightarrow> submission \<Rightarrow> FeeLevel \<Rightarrow> bool" where
  "gates ctx q l s fee \<longleftrightarrow>
     (let aq = map_of (byAccount q) (sAccount s); rep = Option.bind aq (\<lambda>aq. map_of (Transactions aq) (sSeqProxy s));
          n = (case aq of None \<Rightarrow> 0 | Some aq \<Rightarrow> RelevantCount aq (NewSeqProxySequence (sAcctSeq s)))
      in computeFeeLevel ctx l (sTxn s) = Inr fee \<and>
         checkIncomingBlocker (heap q) aq n s (computeConsequences (sTxn s) (sSeqProxy s)) = None \<and>
         checkReplacement (config q) (heap q) aq n s rep fee = None \<and>
         (\<not> IsTicket (sSeqProxy s) \<longrightarrow> sAcctSeq s \<le> Value (sSeqProxy s) \<and> (n = 0 \<longrightarrow> Value (sSeqProxy s) = sAcctSeq s) \<and>
           (rep = None \<longrightarrow> Value (sSeqProxy s) = sAcctSeq s \<or>
             (\<exists>a. aq = Some a \<and> Value (sSeqProxy s) = getNextQueuableSeq (heap q) a (sAcctSeq s)))))"

lemma checkQueuedSequence_None:
  assumes "checkQueuedSequence h a s None = None" "\<not> IsTicket (sSeqProxy s)"
  shows "Value (sSeqProxy s) = sAcctSeq s \<or> Value (sSeqProxy s) = getNextQueuableSeq h a (sAcctSeq s)"
proof -
  consider "\<not> Value (sSeqProxy s) < sAcctSeq s" "\<not> Value (sSeqProxy s) > sAcctSeq s"
    | "getNextQueuableSeq h a (sAcctSeq s) = Value (sSeqProxy s)"
    using assms unfolding checkQueuedSequence_def Let_def by (auto split: if_splits)
  then show ?thesis by cases auto
qed

lemma admit_split:
  assumes "admit parse ctx q l s = (r, q', l')"
  defines "aq \<equiv> map_of (byAccount q) (sAccount s)"
  defines "rep \<equiv> Option.bind aq (\<lambda>aq. map_of (Transactions aq) (sSeqProxy s))"
  defines "n \<equiv> (case aq of None \<Rightarrow> 0 | Some aq \<Rightarrow> RelevantCount aq (NewSeqProxySequence (sAcctSeq s)))"
  obtains code where "r = reject code" "q' = q \<or> q' = incTxQFull q" "l' = l"
  | fee multi bal seq where "gates ctx q l s fee"
      "queueOrClear parse ctx q l s aq n rep (computeConsequences (sTxn s) (sSeqProxy s)) fee multi bal seq = (r, q', l')"
proof -
  let ?cons = "computeConsequences (sTxn s) (sSeqProxy s)"
  have A: "(r, q', l') =
     (case checkIncomingBlocker (heap q) aq n s ?cons of
           Some r \<Rightarrow> (reject r, q, l)
         | None \<Rightarrow>
           case computeFeeLevel ctx l (sTxn s) of
             Inl r \<Rightarrow> (reject r, q, l)
           | Inr feeLevel \<Rightarrow>
             case checkReplacement (config q) (heap q) aq n s rep feeLevel of
               Some r \<Rightarrow> (reject r, q, l)
             | None \<Rightarrow>
               case GetAccountBalance ctx l (sAccount s) of
                 None \<Rightarrow> (reject TefINTERNAL, q, l)
               | Some balance \<Rightarrow>
                 if n = 0 then
                   if \<not> IsTicket (sSeqProxy s) \<and> Value (sSeqProxy s) \<noteq> sAcctSeq s then
                     (reject (if Value (sSeqProxy s) < sAcctSeq s then TefPAST_SEQ else TerPRE_SEQ), q, l)
                   else queueOrClear parse ctx q l s aq n rep ?cons feeLevel False balance (sAcctSeq s)
                 else if \<not> IsTicket (sSeqProxy s) \<and> sAcctSeq s > Value (sSeqProxy s) then (reject TefPAST_SEQ, q, l)
                 else if n > 1 \<or> rep = None then
                   (case canBeHeld q s aq rep of
                      (q, Some r) \<Rightarrow> (reject r, q, l)
                    | (q, None) \<Rightarrow>
                      (case aq of
                         None \<Rightarrow> (reject TefINTERNAL, q, l)
                       | Some a \<Rightarrow>
                         case checkQueuedSequence (heap q) a s rep of
                           Some r \<Rightarrow> (reject r, q, l)
                         | None \<Rightarrow>
                           case checkInFlight ctx l (heap q) a s ?cons balance of
                             Inl r \<Rightarrow> (reject r, q, l)
                           | Inr (preclaimBalance, preclaimSeq) \<Rightarrow>
                             queueOrClear parse ctx q l s aq n rep ?cons feeLevel True preclaimBalance preclaimSeq))
                 else queueOrClear parse ctx q l s aq n rep ?cons feeLevel False balance (sAcctSeq s))"
    using assms(1)[symmetric] unfolding admit_def Let_def aq_def rep_def n_def .
  show thesis
  proof (cases "\<exists>code. r = reject code \<and> (q' = q \<or> q' = incTxQFull q) \<and> l' = l")
    case True
    then show thesis using that(1) by blast
  next
    case nr: False
    have b: "checkIncomingBlocker (heap q) aq n s ?cons = None"
      using A nr by (cases "checkIncomingBlocker (heap q) aq n s ?cons") auto
    obtain fee where f: "computeFeeLevel ctx l (sTxn s) = Inr fee"
      using A nr b by (cases "computeFeeLevel ctx l (sTxn s)") auto
    have rp: "checkReplacement (config q) (heap q) aq n s rep fee = None"
      using A nr b f by (cases "checkReplacement (config q) (heap q) aq n s rep fee") auto
    obtain bal where bal: "GetAccountBalance ctx l (sAccount s) = Some bal"
      using A nr b f rp by (cases "GetAccountBalance ctx l (sAccount s)") auto
    note A' = A[unfolded b f rp bal option.case sum.case]
    have gI: "gates ctx q l s fee" if "\<not> IsTicket (sSeqProxy s) \<longrightarrow> sAcctSeq s \<le> Value (sSeqProxy s) \<and> (n = 0 \<longrightarrow> Value (sSeqProxy s) = sAcctSeq s) \<and>
           (rep = None \<longrightarrow> Value (sSeqProxy s) = sAcctSeq s \<or> (\<exists>a. aq = Some a \<and> Value (sSeqProxy s) = getNextQueuableSeq (heap q) a (sAcctSeq s)))"
      using that b f rp unfolding gates_def Let_def aq_def rep_def n_def by blast
    show thesis
    proof (cases "n = 0")
      case True
      then have sq: "\<not> IsTicket (sSeqProxy s) \<longrightarrow> Value (sSeqProxy s) = sAcctSeq s"
        using A' nr by (auto split: if_splits)
      then have "queueOrClear parse ctx q l s aq n rep ?cons fee False bal (sAcctSeq s) = (r, q', l')"
        using A' True sq by (auto split: if_splits)
      moreover have "gates ctx q l s fee" using sq by (intro gI) auto
      ultimately show thesis using that(2) by blast
    next
      case n: False
      then have sq: "\<not> IsTicket (sSeqProxy s) \<longrightarrow> sAcctSeq s \<le> Value (sSeqProxy s)"
        using A' nr by (auto simp: not_less[symmetric] split: if_splits)
      show thesis
      proof (cases "n > 1 \<or> rep = None")
        case False
        then have "queueOrClear parse ctx q l s aq n rep ?cons fee False bal (sAcctSeq s) = (r, q', l')"
          using A' n sq by (auto simp: not_less[symmetric])
        moreover have "gates ctx q l s fee" using sq n False by (intro gI) auto
        ultimately show thesis using that(2) by blast
      next
        case multi: True
        obtain p h where h: "canBeHeld q s aq rep = (p, h)" by (metis prod.exhaust)
        have ns: "\<not> (\<not> IsTicket (sSeqProxy s) \<and> sAcctSeq s > Value (sSeqProxy s))" using sq by auto
        note A'' = A'[unfolded if_not_P[OF n] if_not_P[OF ns] if_P[OF multi] h prod.case]
        have "h = None" using A'' nr canBeHeld_cases[OF h] by (cases h) auto
        then have hp: "h = None" "p = q" using canBeHeld_None h by auto
        note A3 = A''[unfolded hp option.case]
        obtain a where a: "aq = Some a" using A3 nr by (cases aq) auto
        have cq: "checkQueuedSequence (heap q) a s rep = None"
          using A3 a nr by (cases "checkQueuedSequence (heap q) a s rep") auto
        obtain b' s' where "checkInFlight ctx l (heap q) a s ?cons bal = Inr (b', s')"
          using A3 a nr cq by (cases "checkInFlight ctx l (heap q) a s ?cons bal") auto
        then have "queueOrClear parse ctx q l s aq n rep ?cons fee True b' s' = (r, q', l')"
          using A3 a cq by simp
        moreover have "gates ctx q l s fee"
          using sq n a cq checkQueuedSequence_None[of "heap q" a s] by (intro gI) auto
        ultimately show thesis using that(2) by blast
      qed
    qed
  qed
qed

section \<open>Submissions\<close>

text \<open>A candidate comes from a transaction: its blob parses to one with its id, its account and its sequence proxy.\<close>

definition issued :: "txcodec \<Rightarrow> candidate \<Rightarrow> bool" where
  "issued codec c \<longleftrightarrow> (\<exists>t. ParseFromBinary codec (blob c) = Some t \<and> ComputeTransactionHash codec t = Some (TxID c) \<and>
     DecodeAccountID codec (SrcAccount (GetCommon t)) = Some (Account c) \<and> seqProxyFor (GetCommon t) = Some (SeqProxy c))"

text \<open>
  The transaction hash binds the common fields: two transactions parsed from binary that have one id agree on
  them.  The id is the hash of the serialised transaction, so this is the absence of a collision among them.
\<close>

definition hash_binds :: "txcodec \<Rightarrow> bool" where
  "hash_binds codec \<longleftrightarrow> (\<forall>b b' t t' h. ParseFromBinary codec b = Some t \<longrightarrow> ParseFromBinary codec b' = Some t' \<longrightarrow>
     ComputeTransactionHash codec t = Some h \<longrightarrow> ComputeTransactionHash codec t' = Some h \<longrightarrow> GetCommon t = GetCommon t')"

lemma canonical_issued:
  assumes "canonicalSubmission codec t i a = Some (t', raw, i', a')"
  shows "ParseFromBinary codec raw = Some t'" "ComputeTransactionHash codec t' = Some i'"
    "DecodeAccountID codec (SrcAccount (GetCommon t')) = Some a'" "i = 0 \<or> i = i'" "a = 0 \<or> a = a'"
  using assms by (auto simp: canonicalSubmission_def split: Option.bind_splits if_splits)

lemma prepare_issued:
  assumes "prepareSubmission codec ctx l t i a = Inr s" "\<not> has_flag (GetApplyFlags ctx) TapDRY_RUN"
  shows "sFlags s = GetApplyFlags ctx" "ParseFromBinary codec (sBlob s) = Some (sTxn s)"
    "ComputeTransactionHash codec (sTxn s) = Some (sTxID s)" "DecodeAccountID codec (SrcAccount (GetCommon (sTxn s))) = Some (sAccount s)"
    "seqProxyFor (GetCommon (sTxn s)) = Some (sSeqProxy s)"
proof -
  obtain t' raw i' a' where c: "canonicalSubmission codec t i a = Some (t', raw, i', a')"
    using assms by (cases "canonicalSubmission codec t i a") (auto simp: prepareSubmission_def Let_def bindE_def)
  note ci = canonical_issued[OF c]
  have ids: "(if i' \<noteq> 0 then i' else i) = i'" "(if a' \<noteq> 0 then a' else a) = a'" using ci(4,5) by auto
  have "sFlags s = GetApplyFlags ctx \<and> sTxn s = t' \<and> sBlob s = raw \<and> sTxID s = i' \<and> sAccount s = a' \<and> seqProxyFor (GetCommon t') = Some (sSeqProxy s)"
    using assms(1) unfolding prepareSubmission_def Let_def c if_not_P[OF assms(2)] option.case prod.case ids
    by (auto simp: bindE_def split: if_splits option.splits)
  then show "sFlags s = GetApplyFlags ctx" "ParseFromBinary codec (sBlob s) = Some (sTxn s)"
    "ComputeTransactionHash codec (sTxn s) = Some (sTxID s)" "DecodeAccountID codec (SrcAccount (GetCommon (sTxn s))) = Some (sAccount s)"
    "seqProxyFor (GetCommon (sTxn s)) = Some (sSeqProxy s)" using ci by simp_all
qed

lemma tryDirectApply_cases:
  assumes q: "queue_inv q" and r: "tryDirectApply ctx q l s = Some (r, q', l')"
  obtains (applied) code where "r = \<lparr>ResultCode = code, Applied = True, Queued = False\<rparr>" "kept q q'" "entry q' (sAccount s) (sSeqProxy s) = None"
  | (refused) code where "r = reject code" "q' = q"
proof -
  have "(\<exists>code. r = \<lparr>ResultCode = code, Applied = True, Queued = False\<rparr> \<and> q' = eraseEntry q (sAccount s) (sSeqProxy s)) \<or>
      (\<exists>code. r = reject code \<and> q' = q)"
    using r unfolding tryDirectApply_def Let_def by (auto split: if_splits sum.splits prod.splits)
  then show thesis using applied refused kept_eraseEntry[OF q] entry_eraseEntry[OF q] by blast
qed

lemma tryDirectApply_dry: "has_flag (sFlags s) TapDRY_RUN \<Longrightarrow> tryDirectApply ctx q l s \<noteq> None"
  unfolding tryDirectApply_def Let_def by (auto split: sum.splits prod.splits)

lemma admit_cases:
  assumes q: "queue_inv q" and r: "admit parse ctx q l s = (r, q', l')"
  obtains (queued) p fee where "r = \<lparr>ResultCode = TerQUEUED, Applied = False, Queued = True\<rparr>" "l' = l" "gates ctx q l s fee"
      "room_for q s p" "q' = enqueue ctx p l s (computeConsequences (sTxn s) (sSeqProxy s)) fee"
  | (cleared) code where "r = \<lparr>ResultCode = code, Applied = True, Queued = False\<rparr>" "kept q q'" "entry q' (sAccount s) (sSeqProxy s) = None"
  | (refused) code where "r = reject code" "kept q q'" "byFee q' = byFee q" "l' = l"
  using r
proof (cases rule: admit_split)
  case (1 code)
  then show thesis using refused[of code] kept_refl[OF q] kept_incTxQFull[OF q] by auto
next
  case (2 fee multi bal seq)
  have e: "Option.bind (map_of (byAccount q) (sAccount s)) (\<lambda>aq. map_of (Transactions aq) (sSeqProxy s)) = entry q (sAccount s) (sSeqProxy s)"
    by (simp add: entry_def split: Option.bind_split option.split)
  show thesis by (rule queueOrClear_cases[OF q refl e 2(2)]) (use queued[OF _ _ 2(1)] cleared refused in blast)+
qed

lemma Apply_cases:
  assumes q: "queue_inv q" and r: "Apply codec ctx q l t i a = (r, q', l')"
  obtains (queued) s p fee where "prepareSubmission codec ctx l t i a = Inr s" "\<not> has_flag (GetApplyFlags ctx) TapDRY_RUN"
      "r = \<lparr>ResultCode = TerQUEUED, Applied = False, Queued = True\<rparr>" "l' = l" "gates ctx q l s fee"
      "room_for q s p" "q' = enqueue ctx p l s (computeConsequences (sTxn s) (sSeqProxy s)) fee"
  | (applied) s code where "prepareSubmission codec ctx l t i a = Inr s" "r = \<lparr>ResultCode = code, Applied = True, Queued = False\<rparr>"
      "kept q q'" "entry q' (sAccount s) (sSeqProxy s) = None"
  | (refused) code where "r = reject code" "kept q q'" "byFee q' = byFee q"
proof (cases "prepareSubmission codec ctx l t i a")
  case (Inl x)
  then show thesis using r refused[of x] kept_refl[OF q] by (simp add: Apply_def)
next
  case (Inr s)
  show thesis
  proof (cases "tryDirectApply ctx q l s")
    case (Some x)
    then have "tryDirectApply ctx q l s = Some (r, q', l')" using r Inr by (simp add: Apply_def)
    then show thesis by (rule tryDirectApply_cases[OF q]) (use applied[OF Inr] refused kept_refl[OF q] in blast)+
  next
    case None
    have dry: "\<not> has_flag (GetApplyFlags ctx) TapDRY_RUN"
    proof
      assume d: "has_flag (GetApplyFlags ctx) TapDRY_RUN"
      have "sFlags s = GetApplyFlags ctx"
        using Inr unfolding prepareSubmission_def Let_def bindE_def by (auto split: if_splits sum.splits option.splits prod.splits)
      then show False using tryDirectApply_dry[of s ctx q l] d None by simp
    qed
    show thesis
    proof (cases "checkTicket ctx l s")
      case (Some x)
      then show thesis using r Inr None refused[of x] kept_refl[OF q] by (simp add: Apply_def)
    next
      case ct: None
      then have "admit (ParseFromBinary codec) ctx q l s = (r, q', l')" using r Inr None by (simp add: Apply_def)
      then show thesis by (rule admit_cases[OF q]) (use queued[OF Inr dry] applied[OF Inr] refused in blast)+
    qed
  qed
qed

end
