(* ===== verification/Txq_Contract.thy ===== *)
theory Txq_Contract
  imports Txq_Admit
begin

text \<open>
  The contract of the transaction queue: the invariant over every sequence of submissions, passes and
  closed ledgers, what a submission promises, the order in which a pass applies candidates, and the
  exactness of the selections.
\<close>

section \<open>Reachable queues\<close>

text \<open>A queue and the open ledger it serves; after a ledger closes the next open ledger is any.\<close>

inductive txq_reachable :: "txcodec \<Rightarrow> TxQ \<Rightarrow> 'l \<Rightarrow> bool" for codec where
  new: "NewTxQ cfg = Inr q \<Longrightarrow> txq_reachable codec q l"
| submit: "txq_reachable codec q l \<Longrightarrow> Apply codec ctx q l t txID account = (r, q', l') \<Longrightarrow> txq_reachable codec q' l'"
| accept: "txq_reachable codec q l \<Longrightarrow> Accept (ParseFromBinary codec) ctx q l = (q', l', changed) \<Longrightarrow> txq_reachable codec q' l'"
| close: "txq_reachable codec q l \<Longrightarrow> ProcessClosedLedger q ledgerSeq feeLevels n timeLeap = (k, q') \<Longrightarrow> txq_reachable codec q' l'"
| limit: "txq_reachable codec q l \<Longrightarrow> txq_reachable codec (setMaxSize q m) l"
| empty: "txq_reachable codec q l \<Longrightarrow> txq_reachable codec (clear q) l"

lemma issued_same: "same_key c d \<Longrightarrow> issued codec c = issued codec d"
  by (simp add: issued_def same_key_def)

lemma kept_issued: "kept q q' \<Longrightarrow> \<forall>r\<in>set (byFee q). issued codec (heap q r) \<Longrightarrow> \<forall>r\<in>set (byFee q'). issued codec (heap q' r)"
  using issued_same by (fastforce simp: kept_def)

text \<open>A transaction id already in the queue belongs to the same account and sequence proxy, so room was made for it.\<close>

lemma queued_id_fresh:
  assumes "hash_binds codec" "\<forall>r\<in>set (byFee q). issued codec (heap q r)" "room_for q s p"
    "ParseFromBinary codec (sBlob s) = Some (sTxn s)" "ComputeTransactionHash codec (sTxn s) = Some (sTxID s)"
    "DecodeAccountID codec (SrcAccount (GetCommon (sTxn s))) = Some (sAccount s)" "seqProxyFor (GetCommon (sTxn s)) = Some (sSeqProxy s)"
  shows "\<forall>r\<in>set (byFee p). TxID (heap p r) \<noteq> sTxID s"
proof (intro ballI notI)
  fix r assume r: "r \<in> set (byFee p)" "TxID (heap p r) = sTxID s"
  have k: "kept q p" and e: "entry p (sAccount s) (sSeqProxy s) = None" using assms(3) by (simp_all add: room_for_def)
  have "issued codec (heap p r)" using kept_issued[OF k assms(2)] r(1) by blast
  then obtain t where t: "ComputeTransactionHash codec t = Some (sTxID s)" "ParseFromBinary codec (blob (heap p r)) = Some t"
      "DecodeAccountID codec (SrcAccount (GetCommon t)) = Some (Account (heap p r))" "seqProxyFor (GetCommon t) = Some (SeqProxy (heap p r))"
    unfolding issued_def r(2) by blast
  have "GetCommon t = GetCommon (sTxn s)" using assms(1,4,5) t(1,2) unfolding hash_binds_def by blast
  then have "Account (heap p r) = sAccount s" "SeqProxy (heap p r) = sSeqProxy s" using t(3,4) assms(6,7) by simp_all
  moreover have "queue_inv p" using k by (simp add: kept_def)
  ultimately show False using inv_entry[of p "sAccount s" "sSeqProxy s" r] r(1) e by simp
qed

lemma submit_queued:
  fixes cons :: txConsequences and fee :: FeeLevel
  assumes "hash_binds codec" "queue_inv q" "\<forall>r\<in>set (byFee q). issued codec (heap q r)"
    "prepareSubmission codec ctx l t i a = Inr s" "\<not> has_flag (GetApplyFlags ctx) TapDRY_RUN" "room_for q s p"
    and q'_def: "q' = enqueue ctx p l s cons fee"
  shows "queue_inv q'" "set (byFee q') = insert (next_ref p) (set (byFee p))" "next_ref p \<notin> set (byFee p)"
    "\<forall>r\<in>set (byFee p). heap q' r = heap p r"
    "TxID (heap q' (next_ref p)) = sTxID s \<and> Account (heap q' (next_ref p)) = sAccount s \<and> SeqProxy (heap q' (next_ref p)) = sSeqProxy s \<and>
     FeeLevel (heap q' (next_ref p)) = fee \<and> blob (heap q' (next_ref p)) = sBlob s \<and> Consequences (heap q' (next_ref p)) = cons"
    "\<forall>r\<in>set (byFee q'). issued codec (heap q' r)" "maxSize q' = maxSize p"
proof -
  note s = prepare_issued[OF assms(4,5)]
  have k: "kept q p" "queue_inv p" "entry p (sAccount s) (sSeqProxy s) = None" using assms(6) by (simp_all add: room_for_def kept_def)
  note i = enqueue_inv[OF k(2,3) queued_id_fresh[OF assms(1,3,6) s(2,3,4,5)]]
  note e = i(1)[of ctx l cons fee, folded q'_def] i(2)[of ctx l cons fee, folded q'_def] i(3) i(4)[of ctx l cons fee, folded q'_def]
    i(8)[of ctx l cons fee, folded q'_def]
  show "queue_inv q'" "set (byFee q') = insert (next_ref p) (set (byFee p))" "next_ref p \<notin> set (byFee p)" "maxSize q' = maxSize p" using e by simp_all
  show h: "\<forall>r\<in>set (byFee p). heap q' r = heap p r" using e(3,4) by auto
  show c: "TxID (heap q' (next_ref p)) = sTxID s \<and> Account (heap q' (next_ref p)) = sAccount s \<and> SeqProxy (heap q' (next_ref p)) = sSeqProxy s \<and>
     FeeLevel (heap q' (next_ref p)) = fee \<and> blob (heap q' (next_ref p)) = sBlob s \<and> Consequences (heap q' (next_ref p)) = cons"
    using e(4) by (simp add: newCandidate_def)
  then have "issued codec (heap q' (next_ref p))" unfolding issued_def using s by auto
  then show "\<forall>r\<in>set (byFee q'). issued codec (heap q' r)" using e(2) h kept_issued[OF k(1) assms(3)] by auto
qed

lemma reachable_ok:
  assumes "txq_reachable codec q l" "hash_binds codec"
  shows "queue_inv q \<and> (\<forall>r\<in>set (byFee q). issued codec (heap q r))"
  using assms(1)
proof induction
  case (new cfg q l)
  then have "byFee q = [] \<and> byID q = [] \<and> byAccount q = []"
    by (auto simp: NewTxQ_def bindE_def split: sum.splits)
  then show ?case by (simp add: queue_inv_def accounts_ok_def entry_def)
next
  case (submit q l ctx t txID account r q' l')
  then have q: "queue_inv q" "\<forall>r\<in>set (byFee q). issued codec (heap q r)" by simp_all
  show ?case using q(1) submit.hyps(2)
  proof (cases rule: Apply_cases)
    case (queued s p fee)
    show ?thesis using submit_queued[OF assms(2) q queued(1,2,6,7)] by blast
  next
    case (applied s code)
    then show ?thesis using kept_issued[OF applied(3) q(2)] by (simp add: kept_def)
  next
    case (refused code)
    then show ?thesis using kept_issued[OF refused(2) q(2)] by (simp add: kept_def)
  qed
next
  case (accept q l ctx q' l' changed)
  then have q: "queue_inv q" "\<forall>r\<in>set (byFee q). issued codec (heap q r)" by simp_all
  note k = Accept_kept[OF q(1) accept.hyps(2)]
  show ?case using k(1-3) q(2) issued_same by blast
next
  case (close q l ledgerSeq feeLevels n timeLeap k q' l')
  then have q: "queue_inv q" "\<forall>r\<in>set (byFee q). issued codec (heap q r)" by simp_all
  obtain m fm where "update (metrics q) feeLevels (ucast n) timeLeap (config q) = (m, fm)" by (metis prod.exhaust)
  note p = ProcessClosedLedger_eq[OF q(1) this close.hyps(2)]
  show ?case using p(2,3,4) q(2) by simp
next
  case (limit q l m)
  then show ?case using inv_cong[of "setMaxSize q m" q] by (simp add: setMaxSize_def)
next
  case (empty q l)
  then show ?case by (simp add: clear_def queue_inv_def accounts_ok_def entry_def)
qed

section \<open>The order of a pass\<close>

text \<open>A step that applies a candidate: it pays the fee of the moment, and no lower sequence of its account waits.\<close>

lemma acceptStep_applied:
  assumes q: "queue_inv q" and i: "i < length (byFee q)" and st: "acceptStep parse ctx s q l i = Some (q', l', i', True)"
  defines "c \<equiv> byFee q ! i"
  shows "scaleFeeLevel s (acGetTxInLedger ctx l) \<le> FeeLevel (heap q c)" "c \<notin> set (byFee q')"
    "\<exists>code. acApplyTransactionWithFlags ctx l (candidateTransaction parse (heap q c)) (Flags (heap q c)) = ((code, True), l')"
    "\<not> IsTicket (SeqProxy (heap q c)) \<Longrightarrow> d \<in> set (byFee q) \<Longrightarrow> Account (heap q d) = Account (heap q c) \<Longrightarrow>
       \<not> IsTicket (SeqProxy (heap q d)) \<Longrightarrow> Value (SeqProxy (heap q c)) \<le> Value (SeqProxy (heap q d))"
proof -
  have c: "c \<in> set (byFee q)" using i by (simp add: c_def)
  then obtain aq where aq: "map_of (byAccount q) (Account (heap q c)) = Some aq" using inv_account[OF q] by blast
  obtain p f where p: "recheckPreflight parse ctx q l c = (p, f)" by (metis prod.exhaust)
  obtain r b k where ap: "acApplyTransactionWithFlags ctx l (candidateTransaction parse (heap p c)) (Flags (heap p c)) = ((r, b), k)"
    by (metis prod.exhaust)
  have A: "\<not> (\<not> IsTicket (SeqProxy (heap q c)) \<and> (case FirstSeqTx (heap q) aq of None \<Rightarrow> False
      | Some f \<Rightarrow> Value (SeqProxy (heap q c)) > Value (SeqProxy (heap q f))))"
    and fee: "\<not> FeeLevel (heap q c) < scaleFeeLevel s (acGetTxInLedger ctx l)"
    and f: "f = None" and b: "b" "k = l'" and e: "eraseAndAdvance p i c = (q', i')"
    using st aq p ap unfolding acceptStep_def Let_def c_def[symmetric]
    by (auto split: if_splits option.splits prod.splits)
  then show "scaleFeeLevel s (acGetTxInLedger ctx l) \<le> FeeLevel (heap q c)" by simp
  note pk = kept_recheck[OF q p]
  have same: "same_key (heap p c) (heap q c)" using pk(1) by (simp add: kept_def)
  have "q' = erase p c" using eraseAndAdvance_erases[OF e] aq pk(3) same by (simp add: same_key_def)
  then show "c \<notin> set (byFee q')" using erase_inv(2)[of p c] pk(1) by (simp add: kept_def)
  have tx: "Txn (heap p c) = Txn (heap q c)" using p by (auto simp: recheckPreflight_def Let_def modify_def split: if_splits)
  then have "candidateTransaction parse (heap p c) = candidateTransaction parse (heap q c)"
    using same by (simp add: candidateTransaction_def same_key_def cong: option.case_cong)
  then show "\<exists>code. acApplyTransactionWithFlags ctx l (candidateTransaction parse (heap q c)) (Flags (heap q c)) = ((code, True), l')"
    using ap b same by (auto simp: same_key_def)
  assume t: "\<not> IsTicket (SeqProxy (heap q c))" and d: "d \<in> set (byFee q)" "Account (heap q d) = Account (heap q c)" "\<not> IsTicket (SeqProxy (heap q d))"
  have fl: "filed (heap q) aq" by (rule inv_filed[OF q aq])
  have "(SeqProxy (heap q d), d) \<in> set (Transactions aq)" using in_Transactions[OF q aq] d by simp
  then have de: "d \<in> set (entries aq)" by force
  obtain g where g: "FirstSeqTx (heap q) aq = Some g" using FirstSeqTx_exists[OF fl de d(3)] by blast
  show "Value (SeqProxy (heap q c)) \<le> Value (SeqProxy (heap q d))"
    using A t g FirstSeqTx_lowest[OF fl g de d(3)] by (auto simp: not_less intro: order_trans)
qed

text \<open>The candidates a pass visits, each with the ledger of the moment and whether it was applied.\<close>

function acceptVisits ::
  "(bytes \<Rightarrow> txn option) \<Rightarrow> 'l AcceptContext \<Rightarrow> feeMetricsSnapshot \<Rightarrow> TxQ \<Rightarrow> 'l \<Rightarrow> nat \<Rightarrow> (ref \<times> 'l \<times> bool) list" where
  "acceptVisits parse ctx s q l i =
     (if i < length (byFee q) then
        case acceptStep parse ctx s q l i of
          None \<Rightarrow> [(byFee q ! i, l, False)]
        | Some (q', l', i', applied) \<Rightarrow> (byFee q ! i, l, applied) # acceptVisits parse ctx s q' l' i'
      else [])"
  by pat_completeness auto
termination
proof (relation "measures [\<lambda>(parse, ctx, s, q, l, i). length (byFee q), \<lambda>(parse, ctx, s, q, l, i). length (byFee q) - i]")
  fix parse and ctx :: "'l AcceptContext" and s q l i x q' y l' z i' applied
  assume i: "i < length (byFee q)" and x: "acceptStep parse ctx s q l i = Some x"
    "(q', y) = x" "(l', z) = y" "(i', applied) = z"
  then have "acceptStep parse ctx s q l i = Some (q', l', i', applied)" by auto
  from acceptStep_progress[OF this i] i
  show "((parse, ctx, s, q', l', i'), parse, ctx, s, q, l, i)
    \<in> measures [\<lambda>(parse, ctx, s, q, l, i). length (byFee q), \<lambda>(parse, ctx, s, q, l, i). length (byFee q) - i]"
    by auto
qed simp

declare acceptVisits.simps [simp del]

fun applied_visits :: "(ref \<times> 'l \<times> bool) list \<Rightarrow> (ref \<times> 'l) list" where
  "applied_visits [] = []"
| "applied_visits ((c, l, a) # vs) = (if a then (c, l) # applied_visits vs else applied_visits vs)"

definition acceptApplied :: "(bytes \<Rightarrow> txn option) \<Rightarrow> 'l AcceptContext \<Rightarrow> TxQ \<Rightarrow> 'l \<Rightarrow> (ref \<times> 'l) list" where
  "acceptApplied parse ctx q l = applied_visits (acceptVisits parse ctx (snapshot (metrics q)) q l 0)"

lemma acceptVisits_step:
  assumes "i < length (byFee q)" "acceptStep parse ctx s q l i = Some (q', l', i', a)"
  shows "acceptVisits parse ctx s q l i = (byFee q ! i, l, a) # acceptVisits parse ctx s q' l' i'"
    "acceptLoop parse ctx s q l i b = acceptLoop parse ctx s q' l' i' (b \<or> a)"
  using assms by (simp_all add: acceptVisits.simps[of parse ctx s q l i] acceptLoop.simps[of parse ctx s q l i])

lemma acceptVisits_stop:
  assumes "\<not> i < length (byFee q) \<or> acceptStep parse ctx s q l i = None"
  shows "applied_visits (acceptVisits parse ctx s q l i) = []" "acceptLoop parse ctx s q l i b = (q, l, b)"
  using assms by (auto simp: acceptVisits.simps[of parse ctx s q l i] acceptLoop.simps[of parse ctx s q l i])

text \<open>Quadratically many visits: at each size of the queue the index only grows.\<close>

lemma acceptVisits_length:
  "2 * length (acceptVisits parse ctx s q l i) \<le> 2 * (length (byFee q) - i) + length (byFee q) * (length (byFee q) - 1)"
proof (induction parse ctx s q l i rule: acceptVisits.induct)
  case (1 parse ctx s q l i)
  show ?case
  proof (cases "i < length (byFee q)")
    case False
    then show ?thesis by (simp add: acceptVisits.simps[of parse ctx s q l i])
  next
    case i: True
    show ?thesis
    proof (cases "acceptStep parse ctx s q l i")
      case None
      then show ?thesis using i by (simp add: acceptVisits.simps[of parse ctx s q l i])
    next
      case (Some x)
      obtain q' l' i' a where x: "x = (q', l', i', a)" by (cases x)
      let ?n = "length (byFee q)" and ?m = "length (byFee q')"
      have ih: "2 * length (acceptVisits parse ctx s q' l' i') \<le> 2 * (?m - i') + ?m * (?m - 1)"
        using "1.IH"[OF i Some x[symmetric] refl refl] .
      have st: "acceptStep parse ctx s q l i = Some (q', l', i', a)" using Some x by simp
      consider "?m < ?n" | "?m = ?n" "i' = i + 1" using acceptStep_progress[OF st i] by auto
      then have "2 + (2 * (?m - i') + ?m * (?m - 1)) \<le> 2 * (?n - i) + ?n * (?n - 1)"
      proof cases
        case 1
        have "2 * (?m - i') + ?m * (?m - 1) \<le> ?m * (?m + 1)" by (cases ?m) auto
        also have "\<dots> \<le> (?n - 1) * ?n" using 1 by (intro mult_le_mono) auto
        finally show ?thesis using i by (simp add: mult.commute)
      next
        case 2
        then show ?thesis using i by simp
      qed
      then show ?thesis using ih unfolding acceptVisits_step(1)[OF i st] by simp
    qed
  qed
qed

text \<open>In the order of application each account's sequences grow, nobody is applied twice, and every one paid.\<close>

lemma acceptVisits_order:
  fixes ctx :: "'l AcceptContext"
  assumes "queue_inv q" "acceptLoop parse ctx s q l i b = (q', l', b')"
  defines "tr \<equiv> applied_visits (acceptVisits parse ctx s q l i)"
  shows "distinct (map fst tr) \<and> fst ` set tr \<subseteq> set (byFee q) - set (byFee q') \<and> (b' \<longleftrightarrow> b \<or> tr \<noteq> []) \<and>
    (\<forall>(c, k)\<in>set tr. scaleFeeLevel s (acGetTxInLedger ctx k) \<le> FeeLevel (heap q c)) \<and>
    sorted_wrt (\<lambda>c d. Account (heap q c) = Account (heap q d) \<and> \<not> IsTicket (SeqProxy (heap q c)) \<and> \<not> IsTicket (SeqProxy (heap q d)) \<longrightarrow>
      Value (SeqProxy (heap q c)) < Value (SeqProxy (heap q d))) (map fst tr)"
  using assms(1,2) unfolding tr_def
proof (induction parse ctx s q l i arbitrary: b rule: acceptVisits.induct)
  case (1 parse ctx s q l i)
  show ?case
  proof (cases "i < length (byFee q) \<and> acceptStep parse ctx s q l i \<noteq> None")
    case False
    then have stop: "\<not> i < length (byFee q) \<or> acceptStep parse ctx s q l i = None" by blast
    show ?thesis
      using acceptVisits_stop(1)[OF stop] acceptVisits_stop(2)[OF stop, of b] "1.prems"(2) by simp
  next
    case True
    then have i: "i < length (byFee q)" by simp
    obtain q1 l1 i1 a where st: "acceptStep parse ctx s q l i = Some (q1, l1, i1, a)" using True by auto
    let ?c = "byFee q ! i"
    define tr1 where "tr1 = applied_visits (acceptVisits parse ctx s q1 l1 i1)"
    have k: "kept q q1" by (rule kept_acceptStep[OF "1.prems"(1) i st])
    have lp: "acceptLoop parse ctx s q1 l1 i1 (b \<or> a) = (q', l', b')"
      using "1.prems"(2) acceptVisits_step(2)[OF i st, of b] by simp
    have key: "Account (heap q1 r) = Account (heap q r)" "SeqProxy (heap q1 r) = SeqProxy (heap q r)" "FeeLevel (heap q1 r) = FeeLevel (heap q r)" for r
      using k by (simp_all add: kept_def same_key_def)
    have q1: "queue_inv q1" "set (byFee q1) \<subseteq> set (byFee q)" using k by (simp_all add: kept_def)
    have sub: "set (byFee q') \<subseteq> set (byFee q1)" using kept_acceptLoop[OF q1(1) lp] by (simp add: kept_def)
    note ih = "1.IH"[OF i st refl refl refl q1(1) lp, unfolded key, folded tr1_def]
    have tr: "applied_visits (acceptVisits parse ctx s q l i) = (if a then (?c, l) # tr1 else tr1)"
      unfolding acceptVisits_step(1)[OF i st] tr1_def by simp
    show ?thesis
    proof (cases a)
      case False
      then show ?thesis using ih q1(2) unfolding tr by auto
    next
      case a: True
      have stT: "acceptStep parse ctx s q l i = Some (q1, l1, i1, True)" using st a by simp
      note ap = acceptStep_applied[OF "1.prems"(1) i stT]
      have "Value (SeqProxy (heap q ?c)) < Value (SeqProxy (heap q d))"
        if d: "d \<in> fst ` set tr1" and "Account (heap q ?c) = Account (heap q d)" "\<not> IsTicket (SeqProxy (heap q ?c))" "\<not> IsTicket (SeqProxy (heap q d))" for d
      proof -
        have "d \<in> set (byFee q1)" using ih d by blast
        then have "d \<in> set (byFee q)" "d \<noteq> ?c" using q1(2) ap(2) by auto
        then have "Value (SeqProxy (heap q ?c)) \<le> Value (SeqProxy (heap q d))" "SeqProxy (heap q ?c) \<noteq> SeqProxy (heap q d)"
          using ap(4)[of d] that inv_unique_entry[OF "1.prems"(1), of ?c d] i by auto
        then show ?thesis using that(3,4) by (metis SeqProxy.expand order_le_less)
      qed
      moreover have "?c \<notin> fst ` set tr1" "?c \<in> set (byFee q) - set (byFee q')" using ih ap(2) sub i by auto
      ultimately show ?thesis using ih q1(2) ap(1) a unfolding tr by auto
    qed
  qed
qed

end
