(* ===== verification/Txq_Properties.thy ===== *)
theory Txq_Properties
  imports Txq_Contract
begin

text \<open>
  The properties of the transaction queue, with an example on which they are evaluated.
\<close>

section \<open>Consequences for a submission\<close>

lemma gates_replacement:
  assumes q: "queue_inv q" and g: "gates ctx q l s fee" and c: "entry q (sAccount s) (sSeqProxy s) = Some c"
  shows "mulDiv (FeeLevel (heap q c)) (100 + ucast (RetrySequencePercent (config q))) 100 < fee"
proof -
  obtain aq where aq: "map_of (byAccount q) (sAccount s) = Some aq" "map_of (Transactions aq) (sSeqProxy s) = Some c"
    using c by (auto simp: entry_def split: option.splits)
  let ?a = "NewSeqProxySequence (sAcctSeq s)"
  have "\<not> Less (sSeqProxy s) ?a"
  proof (cases "IsTicket (sSeqProxy s)")
    case True
    then show ?thesis by (simp add: Less_def NewSeqProxySequence_def)
  next
    case False
    then have "sAcctSeq s \<le> Value (sSeqProxy s)" using g unfolding gates_def Let_def by blast
    then show ?thesis using False by (simp add: Less_def NewSeqProxySequence_def not_less)
  qed
  moreover have "sSeqProxy s \<in> set (map fst (Transactions aq))" using aq(2) by (force dest: map_of_SomeD)
  ultimately have "sSeqProxy s \<in> set (filter (\<lambda>x. \<not> Less x ?a) (map fst (Transactions aq)))" by simp
  then have n: "RelevantCount aq ?a > 0" unfolding RelevantCount_eq by (rule length_pos_if_in_set)
  have "checkReplacement (config q) (heap q) (Some aq) (RelevantCount aq ?a) s (Some c) fee = None"
    using g aq unfolding gates_def Let_def by simp
  then show ?thesis using n by (auto simp: checkReplacement_def Let_def not_le split: if_splits option.splits)
qed

lemma card_byFee: "queue_inv q \<Longrightarrow> length (byFee q) = card (set (byFee q))"
  by (simp add: queue_inv_def distinct_card)

lemma kept_length: "queue_inv q \<Longrightarrow> kept q q' \<Longrightarrow> length (byFee q') \<le> length (byFee q)"
  using card_byFee[of q] card_byFee[of q'] card_mono[of "set (byFee q)" "set (byFee q')"] by (simp add: kept_def)

lemma not_full:
  assumes "maxSize q = Some m" "\<not> isFull q" "length (byFee q) < 2 ^ 64"
  shows "length (byFee q) < unat m"
proof -
  have "unat (of_nat (length (byFee q)) :: u64) = length (byFee q)" using assms(3) by (simp add: unat_of_nat take_bit_nat_eq_self_iff)
  then show ?thesis using assms(1,2) by (simp add: isFull_def word_le_nat_alt)
qed

lemma room_length:
  assumes "queue_inv q" "room_for q s p" "maxSize q = Some m" "length (byFee q) < 2 ^ 64"
  shows "length (byFee p) < max (length (byFee q)) (unat m)"
proof -
  have k: "kept q p" "queue_inv p" using assms(2) by (simp_all add: room_for_def kept_def)
  have less: "length (byFee p) < length (byFee q)" if "d \<in> set (byFee q)" "set (byFee p) = set (byFee q) - {d}" for d
    unfolding card_byFee[OF k(2)] card_byFee[OF assms(1)] that(2) by (rule card_Diff1_less) (simp_all add: that(1))
  show ?thesis
  proof (cases "entry q (sAccount s) (sSeqProxy s)")
    case (Some c)
    then have "c \<in> set (byFee q)" using inv_entry[OF assms(1)] by blast
    then show ?thesis using less[of c] assms(2) Some by (simp add: room_for_def)
  next
    case None
    show ?thesis
    proof (cases "isFull q")
      case True
      then obtain d where "d \<in> set (byFee q)" "set (byFee p) = set (byFee q) - {d}"
        using assms(2) None by (auto simp: room_for_def)
      from less[OF this] show ?thesis by simp
    next
      case False
      then have "length (byFee p) = length (byFee q)"
        unfolding card_byFee[OF k(2)] card_byFee[OF assms(1)] using assms(2) None by (simp add: room_for_def)
      then show ?thesis using not_full[OF assms(3) False assms(4)] by simp
    qed
  qed
qed

lemma ordered_strict:
  assumes "queue_inv q"
  shows "sorted_wrt (\<lambda>c d. candidateLess q (heap q c) (heap q d)) (byFee q)"
proof -
  have o: "sorted_wrt (\<lambda>c d. \<not> candidateLess q (heap q d) (heap q c)) (byFee q)" and d: "distinct (byFee q)"
    using assms by (simp_all add: queue_inv_def sorted_wrt_map)
  have "candidateLess q (heap q (byFee q ! i)) (heap q (byFee q ! j))" if "i < j" "j < length (byFee q)" for i j
  proof -
    have "byFee q ! i \<noteq> byFee q ! j" using d that by (simp add: nth_eq_iff_index_eq)
    then have "TxID (heap q (byFee q ! i)) \<noteq> TxID (heap q (byFee q ! j))" using inv_unique_ID[OF assms] that by auto
    from candidateLess_total[OF this, of q] show ?thesis using o that by (auto simp: sorted_wrt_iff_nth_less)
  qed
  then show ?thesis by (simp add: sorted_wrt_iff_nth_less)
qed

section \<open>An example\<close>

text \<open>Two transactions of one account, and an open ledger that is a count of transactions, over the default expectation of 32.\<close>

definition ex_common :: "u32 \<Rightarrow> string \<Rightarrow> Common" where
  "ex_common n f = \<lparr>SrcAccount = ''r'', FeeField = f, Sequence = Some n, TicketSequence = None, LastLedgerSequence = None,
     TxFlags = None, HasPreviousTxnID = False, AccountTxnID = [], Delegate = [], Sponsor = [], SponsorFlags = None\<rparr>"

definition ex_tx :: "u32 \<Rightarrow> string \<Rightarrow> txn" where
  "ex_tx n f = \<lparr>TxType = TypeOther 0, GetCommon = ex_common n f, body = OtherTx, GetRawBytes = [ucast n]\<rparr>"

definition ex_codec :: txcodec where
  "ex_codec = \<lparr>SerializeTransaction = (\<lambda>t. Some (GetRawBytes t)),
     ParseFromBinary = (\<lambda>b. if b = [5] then Some (ex_tx 5 ''10'') else if b = [6] then Some (ex_tx 6 ''10'') else None),
     ComputeTransactionHash = (\<lambda>t. if t = ex_tx 5 ''10'' then Some 50 else if t = ex_tx 6 ''10'' then Some 60 else None),
     DecodeAccountID = (\<lambda>_. Some 3)\<rparr>"

definition ex_ctx :: "u32 ApplyContext" where
  "ex_ctx = \<lparr>GetAccountSequence = (\<lambda>_ _. Some 5), AccountExists = (\<lambda>_ _. Some True), TicketExists = (\<lambda>_ _ _. Some False),
     GetAccountBalance = (\<lambda>_ _. Some 1000000), GetAccountReserve = (\<lambda>_ _. 200), GetBaseFees = (\<lambda>_ _. Inr (10, 10)),
     GetReferenceFee = (\<lambda>_. 10), GetTxInLedger = (\<lambda>l. l), GetLedgerSequence = (\<lambda>_. 100),
     ApplyTransactionWithFlags = (\<lambda>l _ _. ((TesSUCCESS, True), l + 1)), PreflightTransactionWithFlags = (\<lambda>_ _ _. TesSUCCESS),
     PreclaimTransactionWithFlags = (\<lambda>_ _ _ _ _ _. TesSUCCESS), GetApplyFlags = 0, RulesIdentity = (\<lambda>_. 0),
     NewSandbox = (\<lambda>l. Some l), Commit = (\<lambda>_ l. Some l)\<rparr>"

definition ex_queue :: TxQ where
  "ex_queue = \<lparr>config = DefaultConfig, metrics = newFeeMetrics DefaultConfig, heap = (\<lambda>_. newCandidate 0 0 0 (seq_proxy 0 False) 0 0
              \<lparr>Fee = 0, PotentialSpend = 0, IsBlocker = False, FollowingSeq = seq_proxy 0 False\<rparr>),
            next_ref = 0, byFee = [], byID = [], byAccount = [], maxSize = None, parentHash = 0, txqFull = 0\<rparr>"

lemma ex_new: "NewTxQ DefaultConfig = Inr ex_queue"
  by (simp add: NewTxQ_def normalize_def DefaultConfig_def maxLedgersInQueue_def ex_queue_def bindE_def)

lemma ex_binds: "hash_binds ex_codec"
  by (auto simp: hash_binds_def ex_codec_def split: if_splits)

definition ex_sub :: "u32 \<Rightarrow> hash256 \<Rightarrow> submission" where
  "ex_sub n i = \<lparr>sTxn = ex_tx n ''10'', sBlob = [ucast n], sTxID = i, sAccount = 3, sAcctSeq = 5, sTxInLedger = 100, sLedgerSeq = 100,
     sSeqProxy = seq_proxy n False, sLastValid = 0, sFlags = 0\<rparr>"

definition ex_queue1 :: TxQ where
  "ex_queue1 = enqueue ex_ctx ex_queue 100 (ex_sub 5 50) (computeConsequences (ex_tx 5 ''10'') (seq_proxy 5 False)) 256"

lemma ex_fields [simp]:
  "byAccount ex_queue = []" "maxSize ex_queue = None" "config ex_queue = DefaultConfig" "metrics ex_queue = newFeeMetrics DefaultConfig"
  "GetAccountBalance ex_ctx = (\<lambda>_ _. Some 1000000)" "PreclaimTransactionWithFlags ex_ctx = (\<lambda>_ _ _ _ _ _. TesSUCCESS)"
  "sTxn (ex_sub n i) = ex_tx n ''10''" "sAccount (ex_sub n i) = 3" "sAcctSeq (ex_sub n i) = 5" "sSeqProxy (ex_sub n i) = seq_proxy n False"
  "sFlags (ex_sub n i) = 0" "sTxInLedger (ex_sub n i) = 100" "sLedgerSeq (ex_sub n i) = 100"
  "\<not> IsBlocker (computeConsequences (ex_tx n ''10'') sp)" "GetCommon (ex_tx n f) = ex_common n f" "TxType (ex_tx n f) = TypeOther 0"
  by (simp_all add: ex_queue_def ex_ctx_def ex_sub_def computeConsequences_def ex_tx_def Let_def)

lemma ex_prepare: "prepareSubmission ex_codec ex_ctx 100 (ex_tx 5 ''10'') 0 0 = Inr (ex_sub 5 50)"
  by (simp add: prepareSubmission_def ex_ctx_def ex_codec_def ex_tx_def ex_common_def ex_sub_def canonicalSubmission_def has_flag_def
     bindE_def TesSUCCESS_def seqProxyFor_def SeqProxyKey_def NewSeqProxySequence_def Let_def)

lemma ex_fee: "computeFeeLevel ex_ctx l (ex_tx n ''10'') = Inr 256"
  by (simp add: computeFeeLevel_def ex_ctx_def ex_tx_def ex_common_def ParseUint_def ToFeeLevelWithDefaultBaseFee_def mulDiv_def
     Mul64_def Div64_def BaseLevel_def Let_def)

lemma ex_required: "256 < scaleFeeLevel (snapshot (newFeeMetrics DefaultConfig)) 100"
  unfolding word_less_nat_alt scaleFeeLevel_eq
  by (simp add: snapshot_def newFeeMetrics_def DefaultConfig_def BaseLevel_def saturated_def)

lemma ex_held: "canBeHeld q (ex_sub n i) None None = (q, None)"
  by (simp add: canBeHeld_def ex_common_def has_flag_def Let_def)

lemma ex_admit: "admit (ParseFromBinary ex_codec) ex_ctx ex_queue 100 (ex_sub 5 50) =
   (\<lparr>ResultCode = TerQUEUED, Applied = False, Queued = True\<rparr>, ex_queue1, 100)"
  unfolding admit_def Let_def
  by (simp add: ex_fee checkIncomingBlocker_def checkReplacement_def queueOrClear_def ex_held isFull_def ex_queue1_def)

lemma ex_apply: "Apply ex_codec ex_ctx ex_queue 100 (ex_tx 5 ''10'') 0 0 =
   (\<lparr>ResultCode = TerQUEUED, Applied = False, Queued = True\<rparr>, ex_queue1, 100)"
proof -
  have "tryDirectApply ex_ctx ex_queue 100 (ex_sub 5 50) = None"
    using ex_required by (simp add: tryDirectApply_def Let_def ex_fee has_flag_def not_le[symmetric])
  moreover have "checkTicket ex_ctx 100 (ex_sub 5 50) = None" by (simp add: checkTicket_def)
  ultimately show ?thesis by (simp add: Apply_def ex_prepare ex_admit)
qed

lemma ex_reach: "txq_reachable ex_codec ex_queue l" "txq_reachable ex_codec ex_queue1 (100 :: u32)"
  by (rule txq_reachable.new[OF ex_new], rule txq_reachable.submit[OF txq_reachable.new[OF ex_new] ex_apply])

lemma ex_queue1_fields [simp]:
  "byFee ex_queue1 = [0]" "TxID (heap ex_queue1 0) = 50" "LastValid (heap ex_queue1 0) = 0" "FeeLevel (heap ex_queue1 0) = 256"
  by (simp_all add: ex_queue1_def enqueue_def alloc_def setAccountQueue_def insertByFee_def Let_def newCandidate_def ex_sub_def ex_queue_def)

text \<open>The pass over the queue when the next open ledger has just been opened, from transaction 100 on.\<close>

definition ex_accept :: "u32 AcceptContext" where
  "ex_accept = \<lparr>acGetTxInLedger = (\<lambda>l. l - 100), acApplyTransactionWithFlags = (\<lambda>l _ _. ((TesSUCCESS, True), l + 1)),
     acPreflightTransactionWithFlags = (\<lambda>_ _ _. TesSUCCESS), acRulesIdentity = (\<lambda>_. 0), acGetParentHash = (\<lambda>_. 9)\<rparr>"

lemma ex_accept_step:
  "\<exists>q' i'. acceptStep (ParseFromBinary ex_codec) ex_accept (snapshot (metrics ex_queue1)) ex_queue1 100 0 = Some (q', 101, i', True) \<and>
     byFee q' = []"
proof -
  have q: "map_of (byAccount ex_queue1) 3 = Some ((newAccountQueue 3)\<lparr>Transactions := [(seq_proxy 5 False, 0)]\<rparr>)"
    "Account (heap ex_queue1 0) = 3" "SeqProxy (heap ex_queue1 0) = seq_proxy 5 False" "metrics ex_queue1 = newFeeMetrics DefaultConfig"
    "PreflightResult (heap ex_queue1 0) = TesSUCCESS" "PreflightFlags (heap ex_queue1 0) = Flags (heap ex_queue1 0)"
    "PreflightRules (heap ex_queue1 0) = 0"
    by (simp_all add: ex_queue1_def enqueue_def alloc_def setAccountQueue_def insertByFee_def Let_def newCandidate_def ex_sub_def ex_queue_def
        Add_def newAccountQueue_def ex_ctx_def)
  have fee: "scaleFeeLevel (snapshot (newFeeMetrics DefaultConfig)) 0 = 256"
    by (simp add: scaleFeeLevel_def snapshot_def newFeeMetrics_def DefaultConfig_def BaseLevel_def)
  obtain q' i' where e: "eraseAndAdvance ex_queue1 0 0 = (q', i')" by (metis prod.exhaust)
  have "byFee q' = []" using byFee_eraseAndAdvance[OF e] by simp
  moreover have "acceptStep (ParseFromBinary ex_codec) ex_accept (snapshot (metrics ex_queue1)) ex_queue1 100 0 = Some (q', 101, i', True)"
    by (simp add: acceptStep_def q e fee ex_accept_def recheckPreflight_def FirstSeqTx_def Let_def newAccountQueue_def)
  ultimately show ?thesis by blast
qed

lemma ex_trace: "acceptApplied (ParseFromBinary ex_codec) ex_accept ex_queue1 100 = [(0, 100)]"
proof -
  obtain q' i' where st: "acceptStep (ParseFromBinary ex_codec) ex_accept (snapshot (metrics ex_queue1)) ex_queue1 100 0 = Some (q', 101, i', True)"
    "byFee q' = []" using ex_accept_step by blast
  then show ?thesis using acceptVisits_step(1)[OF _ st(1)]
    by (simp add: acceptApplied_def acceptVisits.simps[of _ _ _ q'])
qed

text \<open>An account queue of two entries, at pointers 5 and 6, which pay 300 and 501.\<close>

definition ex_heap :: heap where
  "ex_heap r = newCandidate (of_nat r) 3 (if r = 5 then 300 else 501) (seq_proxy (of_nat r) False) 0 0
     \<lparr>Fee = 10, PotentialSpend = 0, IsBlocker = False, FollowingSeq = seq_proxy (of_nat r + 1) False\<rparr>"

definition ex_account :: "ref list \<Rightarrow> accountQueue" where
  "ex_account rs = (newAccountQueue 3)\<lparr>Transactions := map (\<lambda>r. (seq_proxy (of_nat r) False, r)) rs\<rparr>"


lemma ex_filed: "filed ex_heap (ex_account [5, 6])" "filed ex_heap (ex_account [6, 5])"
  by (simp_all add: filed_def ex_account_def ex_heap_def newCandidate_def newAccountQueue_def)

section \<open>Properties\<close>

text \<open>
  C4.  The indices of the queue.  After every sequence of submissions, passes over the queue, closed
  ledgers, resizing and clearing, if transaction ids do not collide: the fee order holds each candidate
  once and is strictly sorted (higher fee first, then by id mixed with the parent hash), the map by
  transaction id and the maps by account and sequence proxy hold exactly the candidates of the fee
  order, under their own keys, and each candidate's blob parses to a transaction with its id.
\<close>

theorem queue_indices_agree:
  assumes "txq_reachable codec q l" "hash_binds codec"
  shows "distinct (byFee q) \<and> sorted_wrt (\<lambda>c d. candidateLess q (heap q c) (heap q d)) (byFee q) \<and>
    (\<forall>i c. map_of (byID q) i = Some c \<longleftrightarrow> c \<in> set (byFee q) \<and> TxID (heap q c) = i) \<and>
    (\<forall>a sp c. (\<exists>aq. map_of (byAccount q) a = Some aq \<and> map_of (Transactions aq) sp = Some c) \<longleftrightarrow>
       c \<in> set (byFee q) \<and> Account (heap q c) = a \<and> SeqProxy (heap q c) = sp) \<and>
    (\<forall>c\<in>set (byFee q). \<exists>t. ParseFromBinary codec (blob (heap q c)) = Some t \<and> ComputeTransactionHash codec t = Some (TxID (heap q c)))"
proof -
  have q: "queue_inv q" and i: "\<forall>c\<in>set (byFee q). issued codec (heap q c)" using reachable_ok[OF assms] by simp_all
  have "(\<exists>aq. map_of (byAccount q) a = Some aq \<and> map_of (Transactions aq) sp = Some c) \<longleftrightarrow> entry q a sp = Some c" for a sp c
    by (simp add: entry_def split: option.split)
  then show ?thesis using q i ordered_strict[OF q] inv_entry[OF q] inv_byID[OF q] unfolding issued_def
    by (auto simp: queue_inv_def)
qed

theorem queue_indices_agree_witness:
  "distinct (byFee ex_queue1) \<and> map_of (byID ex_queue1) 50 = Some 0"
  using queue_indices_agree[OF ex_reach(2) ex_binds] by simp

text \<open>
  C6.  A queued submission.  The result is \<open>terQUEUED\<close> and the open ledger is untouched; the queue holds a
  new candidate with the canonical id, account, sequence proxy and blob of the transaction and the fee
  level computed for it; every other candidate was there before; and an entry of the same account and
  sequence proxy is gone, outbid by more than the retry percentage.
\<close>

theorem Apply_queues_candidate:
  assumes "txq_reachable codec q l" "hash_binds codec" "Apply codec ctx q l t txID account = (r, q', l')" "Queued r"
  shows "\<exists>s c. ResultCode r = TerQUEUED \<and> l' = l \<and> prepareSubmission codec ctx l t txID account = Inr s \<and>
    set (byFee q') \<subseteq> insert c (set (byFee q)) \<and> c \<in> set (byFee q') - set (byFee q) \<and> TxID (heap q' c) = sTxID s \<and> Account (heap q' c) = sAccount s \<and>
    SeqProxy (heap q' c) = sSeqProxy s \<and> blob (heap q' c) = sBlob s \<and> computeFeeLevel ctx l (sTxn s) = Inr (FeeLevel (heap q' c)) \<and>
    (\<forall>d\<in>set (byFee q). Account (heap q d) = sAccount s \<and> SeqProxy (heap q d) = sSeqProxy s \<longrightarrow>
       d \<notin> set (byFee q') \<and> mulDiv (FeeLevel (heap q d)) (100 + ucast (RetrySequencePercent (config q))) 100 < FeeLevel (heap q' c))"
proof -
  have q: "queue_inv q" and i: "\<forall>c\<in>set (byFee q). issued codec (heap q c)" using reachable_ok[OF assms(1,2)] by simp_all
  show ?thesis using q assms(3)
  proof (cases rule: Apply_cases)
    case (queued s p fee)
    note e = submit_queued[OF assms(2) q i queued(1,2,6,7)]
    have k: "kept q p" and ep: "entry p (sAccount s) (sSeqProxy s) = None" using queued(6) by (simp_all add: room_for_def)
    have fee: "computeFeeLevel ctx l (sTxn s) = Inr fee" using queued(5) by (simp add: gates_def Let_def)
    have "d \<notin> set (byFee p) \<and> mulDiv (FeeLevel (heap q d)) (100 + ucast (RetrySequencePercent (config q))) 100 < fee"
      if d: "d \<in> set (byFee q)" "Account (heap q d) = sAccount s" "SeqProxy (heap q d) = sSeqProxy s" for d
    proof -
      have "entry q (sAccount s) (sSeqProxy s) = Some d" using inv_entry[OF q] d by simp
      moreover have "d \<notin> set (byFee p)" using inv_entry[of p "sAccount s" "sSeqProxy s" d] ep d k by (auto simp: kept_def same_key_def)
      ultimately show ?thesis using gates_replacement[OF q queued(5)] by blast
    qed
    moreover have "next_ref p \<notin> set (byFee q)" using k q by (auto simp: kept_def queue_inv_def)
    ultimately show ?thesis using queued(1,3,4) e fee k
      by (intro exI[of _ s] exI[of _ "next_ref p"]) (auto simp: kept_def)
  qed (use assms(4) in \<open>simp_all add: reject_def\<close>)
qed

theorem Apply_queues_candidate_witness:
  "\<exists>s c. prepareSubmission ex_codec ex_ctx 100 (ex_tx 5 ''10'') 0 0 = Inr s \<and> c \<in> set (byFee ex_queue1) - set (byFee ex_queue) \<and>
     TxID (heap ex_queue1 c) = sTxID s"
  using Apply_queues_candidate[OF ex_reach(1) ex_binds ex_apply] by auto

text \<open>
  C7.  A submission that is not queued.  When it is neither applied nor queued the queue keeps every
  candidate in its place, with its key, fee and blob; when it is applied no candidate is added and the
  entry of its account and sequence proxy is gone.
\<close>

theorem Apply_without_queueing:
  assumes "txq_reachable codec q l" "hash_binds codec" "Apply codec ctx q l t txID account = (r, q', l')" "\<not> Queued r"
  shows "(\<forall>c. same_key (heap q' c) (heap q c)) \<and> (\<not> Applied r \<longrightarrow> byFee q' = byFee q) \<and>
    (Applied r \<longrightarrow> set (byFee q') \<subseteq> set (byFee q) \<and> (\<exists>s. prepareSubmission codec ctx l t txID account = Inr s \<and>
       (\<forall>c\<in>set (byFee q'). \<not> (Account (heap q' c) = sAccount s \<and> SeqProxy (heap q' c) = sSeqProxy s))))"
proof -
  have q: "queue_inv q" using reachable_ok[OF assms(1,2)] by simp
  show ?thesis using q assms(3)
  proof (cases rule: Apply_cases)
    case (queued s p fee)
    then show ?thesis using assms(4) by simp
  next
    case (applied s code)
    have "\<not> (Account (heap q' c) = sAccount s \<and> SeqProxy (heap q' c) = sSeqProxy s)" if "c \<in> set (byFee q')" for c
      using inv_entry[of q' "sAccount s" "sSeqProxy s" c] applied(3,4) that by (auto simp: kept_def)
    then show ?thesis using applied by (auto simp: kept_def)
  next
    case (refused code)
    then show ?thesis by (simp add: kept_def reject_def)
  qed
qed

theorem Apply_without_queueing_witness:
  "byFee (fst (snd (Apply ex_codec (ex_ctx\<lparr>PreflightTransactionWithFlags := (\<lambda>_ _ _. TemBAD_FEE)\<rparr>) ex_queue1 100 (ex_tx 5 ''10'') 0 0))) = [0]"
proof -
  let ?c = "ex_ctx\<lparr>PreflightTransactionWithFlags := (\<lambda>_ _ _. TemBAD_FEE)\<rparr>"
  obtain q' l' where a: "Apply ex_codec ?c ex_queue1 100 (ex_tx 5 ''10'') 0 0 = (reject TemBAD_FEE, q', l')"
    by (simp add: Apply_def prepareSubmission_def ex_ctx_def ex_codec_def ex_tx_def ex_common_def canonicalSubmission_def has_flag_def
        bindE_def TesSUCCESS_def TemBAD_FEE_def)
  show ?thesis using Apply_without_queueing[OF ex_reach(2) ex_binds a] a by (simp add: reject_def)
qed

text \<open>
  C8.  The capacity of the queue.  No submission makes the queue longer than it was or than its maximum
  size: a full queue drops a candidate of another account for a new one, or refuses it.
\<close>

theorem Apply_respects_capacity:
  assumes "txq_reachable codec q l" "hash_binds codec" "Apply codec ctx q l t txID account = (r, q', l')"
    "maxSize q = Some m" "Size q < 2 ^ 64"
  shows "Size q' \<le> max (Size q) (unat m) \<and> maxSize q' = Some m"
proof -
  have q: "queue_inv q" and i: "\<forall>c\<in>set (byFee q). issued codec (heap q c)" using reachable_ok[OF assms(1,2)] by simp_all
  show ?thesis using q assms(3)
  proof (cases rule: Apply_cases)
    case (queued s p fee)
    note e = submit_queued[OF assms(2) q i queued(1,2,6,7)]
    have p: "queue_inv p" "maxSize p = Some m" using queued(6) assms(4) by (simp_all add: room_for_def kept_def)
    have "length (byFee q') = Suc (length (byFee p))" unfolding card_byFee[OF e(1)] card_byFee[OF p(1)] e(2) using e(3) by simp
    then show ?thesis using room_length[OF q queued(6) assms(4)] assms(5) e(7) p(2) by (simp add: Size_def)
  next
    case (applied s code)
    then show ?thesis using kept_length[OF q applied(3)] assms(4) by (simp add: Size_def kept_def max_def)
  next
    case (refused code)
    then show ?thesis using assms(4) by (simp add: Size_def kept_def)
  qed
qed

theorem Apply_respects_capacity_witness:
  "Size (fst (snd (Apply ex_codec ex_ctx (setMaxSize ex_queue1 1) 100 (ex_tx 6 ''10'') 0 0))) \<le> 1"
proof -
  let ?A = "Apply ex_codec ex_ctx (setMaxSize ex_queue1 1) 100 (ex_tx 6 ''10'') 0 0"
  have "?A = (fst ?A, fst (snd ?A), snd (snd ?A))" by simp
  from Apply_respects_capacity[OF txq_reachable.limit[OF ex_reach(2)] ex_binds this, of 1] show ?thesis
    by (simp add: setMaxSize_def Size_def)
qed

text \<open>
  C5.  The order of a pass.  The candidates that \<open>Accept\<close> applies to the open ledger are applied once
  each, leave the queue, and each paid the fee level required when it was applied; the sequence
  transactions of one account are applied in increasing order; \<open>Accept\<close> reports a change exactly if it
  applied one.  The queue afterwards holds only candidates that were there, and carries the hash of the
  new parent.
\<close>

theorem Accept_applies_in_order:
  assumes "txq_reachable codec q l" "hash_binds codec" "Accept (ParseFromBinary codec) ctx q l = (q', l', changed)"
  shows "(let tr = acceptApplied (ParseFromBinary codec) ctx q l in
    distinct (map fst tr) \<and> fst ` set tr \<subseteq> set (byFee q) - set (byFee q') \<and> set (byFee q') \<subseteq> set (byFee q) \<and>
    (changed \<longleftrightarrow> tr \<noteq> []) \<and> parentHash q' = acGetParentHash ctx l \<and>
    (\<forall>(c, k)\<in>set tr. scaleFeeLevel (snapshot (metrics q)) (acGetTxInLedger ctx k) \<le> FeeLevel (heap q c)) \<and>
    sorted_wrt (\<lambda>c d. Account (heap q c) = Account (heap q d) \<and> \<not> IsTicket (SeqProxy (heap q c)) \<and> \<not> IsTicket (SeqProxy (heap q d)) \<longrightarrow>
      Value (SeqProxy (heap q c)) < Value (SeqProxy (heap q d))) (map fst tr))"
proof -
  have q: "queue_inv q" using reachable_ok[OF assms(1,2)] by simp
  obtain q1 l1 b1 where lp: "acceptLoop (ParseFromBinary codec) ctx (snapshot (metrics q)) q l 0 False = (q1, l1, b1)"
    by (metis prod.exhaust)
  have k: "kept q q1" by (rule kept_acceptLoop[OF q lp])
  have "set (byFee q') = set (byFee q1)" "changed = b1"
    using assms(3) lp rebuild_inv(2)[of q1 "acGetParentHash ctx l"] k by (auto simp: Accept_def Let_def kept_def split: if_splits)
  then show ?thesis
    using acceptVisits_order[OF q lp] Accept_kept(2,4)[OF q assms(3)] by (auto simp: acceptApplied_def Let_def)
qed

theorem Accept_applies_in_order_witness:
  "parentHash (fst (Accept (ParseFromBinary ex_codec) ex_accept ex_queue1 100)) = 9 \<and>
   snd (snd (Accept (ParseFromBinary ex_codec) ex_accept ex_queue1 100)) \<and>
   acceptApplied (ParseFromBinary ex_codec) ex_accept ex_queue1 100 = [(0, 100)] \<and>
   0 \<notin> set (byFee (fst (Accept (ParseFromBinary ex_codec) ex_accept ex_queue1 100)))"
proof -
  let ?A = "Accept (ParseFromBinary ex_codec) ex_accept ex_queue1 100"
  have "?A = (fst ?A, fst (snd ?A), snd (snd ?A))" by simp
  from Accept_applies_in_order[OF ex_reach(2) ex_binds this] ex_trace show ?thesis by (simp add: Let_def ex_accept_def)
qed

text \<open>
  C25.  A pass is short: on a queue of \<open>n\<close> candidates, from any ledger, it ends after at most
  \<open>n (n + 1) / 2\<close> visits to candidates, although it moves back to an account's next transaction after
  each application.
\<close>

theorem Accept_terminates_quadratically:
  "length (acceptVisits parse ctx s q l 0) \<le> Size q * (Size q + 1) div 2"
proof -
  have "2 * length (acceptVisits parse ctx s q l 0) \<le> Size q * (Size q + 1)"
    using acceptVisits_length[of parse ctx s q l 0] by (cases "byFee q") (simp_all add: Size_def)
  then show ?thesis by linarith
qed

text \<open>
  C9.  A closed ledger.  \<open>ProcessClosedLedger\<close> removes exactly the candidates whose last valid ledger is
  past and keeps the others in order; it marks exactly the accounts that lost one with the drop penalty,
  keeps no empty account queue, and sets the maximum size from the new expectation, unless consensus was
  slow.
\<close>

theorem ProcessClosedLedger_expires:
  assumes "txq_reachable codec q l" "hash_binds codec" "ProcessClosedLedger q ledgerSeq feeLevels n timeLeap = (k, q')"
  shows "byFee q' = filter (\<lambda>c. LastValid (heap q c) = 0 \<or> ledgerSeq < LastValid (heap q c)) (byFee q) \<and> heap q' = heap q \<and>
    (k, metrics q') = update (metrics q) feeLevels (ucast n) timeLeap (config q) \<and>
    maxSize q' = (if timeLeap then maxSize q else Some (newMaxSize (q\<lparr>metrics := metrics q'\<rparr>))) \<and>
    (\<forall>a aq. map_of (byAccount q') a = Some aq \<longrightarrow> \<not> Empty aq \<and> (\<exists>aq0. map_of (byAccount q) a = Some aq0 \<and>
      (DropPenalty aq \<longleftrightarrow> DropPenalty aq0 \<or> (\<exists>c\<in>set (byFee q) - set (byFee q'). Account (heap q c) = a))))"
proof -
  have q: "queue_inv q" using reachable_ok[OF assms(1,2)] by simp
  obtain m fm where u: "update (metrics q) feeLevels (ucast n) timeLeap (config q) = (m, fm)" by (metis prod.exhaust)
  note p = ProcessClosedLedger_eq[OF q u assms(3)]
  have x: "\<not> expired ledgerSeq c \<longleftrightarrow> LastValid c = 0 \<or> ledgerSeq < LastValid c" for c by (auto simp: expired_def not_le)
  have b: "byFee q' = filter (\<lambda>c. LastValid (heap q c) = 0 \<or> ledgerSeq < LastValid (heap q c)) (byFee q)"
    using p(3) unfolding x .
  have "\<not> Empty aq \<and> (\<exists>aq0. map_of (byAccount q) a = Some aq0 \<and>
      (DropPenalty aq \<longleftrightarrow> DropPenalty aq0 \<or> (\<exists>c\<in>set (byFee q) - set (byFee q'). Account (heap q c) = a)))"
    if "map_of (byAccount q') a = Some aq" for a aq
  proof -
    have "(\<exists>c\<in>set (byFee q). expired ledgerSeq (heap q c) \<and> Account (heap q c) = a) \<longleftrightarrow>
        (\<exists>c\<in>set (byFee q) - set (byFee q'). Account (heap q c) = a)" unfolding p(3) by auto
    with p(9)[OF that] show ?thesis by simp
  qed
  then show ?thesis using b p u by simp
qed

theorem ProcessClosedLedger_expires_witness:
  "byFee (snd (ProcessClosedLedger ex_queue1 100 [] 0 False)) = [0]"
proof -
  let ?P = "ProcessClosedLedger ex_queue1 100 [] 0 False"
  have "?P = (fst ?P, snd ?P)" by simp
  from ProcessClosedLedger_expires[OF ex_reach(2) ex_binds this] show ?thesis by simp
qed

text \<open>
  C28.  The random iteration order of the Go maps does not matter: on account queues that hold the same
  entries in any order, every selection gives the same result, so does the sorted list of candidates, and
  so does the search for the next sequence.
\<close>

theorem selections_ignore_map_order:
  assumes "filed h aq" "filed h aq'" "set (Transactions aq) = set (Transactions aq')"
  shows "PrevTx h aq sp = PrevTx h aq' sp \<and> GetNextTx h aq sp = GetNextTx h aq' sp \<and> FirstSeqTx h aq = FirstSeqTx h aq' \<and>
    FirstRelevant h aq sp = FirstRelevant h aq' sp \<and> upperBoundSeqProxy aq sp = upperBoundSeqProxy aq' sp \<and>
    RelevantCount aq sp = RelevantCount aq' sp \<and> SortedCandidates h aq = SortedCandidates h aq' \<and>
    getNextQueuableSeq h aq n = getNextQueuableSeq h aq' n"
  using selections_order[OF assms] SortedCandidates_order[OF assms] by simp

theorem selections_ignore_map_order_witness:
  "GetNextTx ex_heap (ex_account [5, 6]) (seq_proxy 5 False) = GetNextTx ex_heap (ex_account [6, 5]) (seq_proxy 5 False) \<and>
   SortedCandidates ex_heap (ex_account [5, 6]) = SortedCandidates ex_heap (ex_account [6, 5])"
proof -
  have "set (Transactions (ex_account [5, 6])) = set (Transactions (ex_account [6, 5]))" by (auto simp: ex_account_def)
  from selections_ignore_map_order[OF ex_filed this] show ?thesis by blast
qed

text \<open>
  C29.  The average fee level of an account, the bar a transaction must clear to push out the account's
  last entry: the loop over quotients and remainders computes the exact average, rounded down, for every
  queue of up to \<open>2 ^ 32\<close> entries; the overflow guard never distorts it.
\<close>

theorem average_fee_level_exact:
  assumes "1 < Count aq" "Count aq < 2 ^ 32" "FeeLevel (h lowest) \<le> fee"
  shows "unat (endEffectiveFeeLevel h aq lowest fee) = (\<Sum>c\<leftarrow>entries aq. unat (FeeLevel (h c))) div Count aq"
proof -
  have n: "unat (of_nat (Count aq) :: u64) = Count aq" using assms(2) by (simp add: unat_of_nat take_bit_nat_eq_self_iff)
  have len: "length (entries aq) = unat (of_nat (Count aq) :: u64)" unfolding n by (simp add: Count_def)
  have e: "endEffectiveFeeLevel h aq lowest fee = of_nat ((\<Sum>c\<leftarrow>entries aq. unat (FeeLevel (h c))) div Count aq)"
    using averageLoop_average[OF len, of h] assms n by (simp add: endEffectiveFeeLevel_def)
  have "length (entries aq) = Count aq" "0 < Count aq" using assms(1) by (auto simp: Count_def)
  from average_le[OF this, of h] have "(\<Sum>c\<leftarrow>entries aq. unat (FeeLevel (h c))) div Count aq < 2 ^ 64"
    by (rule order.strict_trans1) simp
  then show ?thesis unfolding e by (simp add: unat_of_nat take_bit_nat_eq_self_iff)
qed

theorem average_fee_level_exact_witness:
  "unat (endEffectiveFeeLevel ex_heap (ex_account [5, 6]) 5 1000) = 400"
  using average_fee_level_exact[of "ex_account [5, 6]" ex_heap 5 1000]
  by (simp add: ex_account_def ex_heap_def newCandidate_def newAccountQueue_def Count_def numeral_2_eq_2[symmetric])



end
