(* ===== verification/Ledger_Trie.thy ===== *)
theory Ledger_Trie
  imports Xrpl_Prelude "HOL-Library.AList"
begin

text \<open>
  The ancestry trie of consensus, \<^verbatim>\<open>src/internal/consensus/ledgertrie/{span,trie}.go\<close>: every trusted
  validator supports one ledger, the trie shares the common ancestry of those ledgers and
  \<open>GetPreferred\<close> walks it to the ledger the network prefers.  A trie is a value: the pointer to a node
  is the list of child indices that leads to it from the root, so the parent of a node is the path
  without its last index and \<open>c.parent == curr\<close> holds by construction.  A Go panic is the left
  value of the result.  The type behind the interface \<open>Ledger\<close> is outside of the package; here it is
  a record of the interface's methods, and a nil interface is \<open>None\<close>.
\<close>

section \<open>Ledgers and spans\<close>

record ledger =
  ID :: hash256
  Seq :: u32
  MinSeq :: u32
  Ancestor :: "u32 \<Rightarrow> hash256"

definition MaxUint32 :: u32 where
  "MaxUint32 = 0xFFFFFFFF"

text \<open>The loop of the binary search of \<open>mismatch\<close>.\<close>

function mismatchLoop :: "ledger \<Rightarrow> ledger \<Rightarrow> u32 \<Rightarrow> u32 \<Rightarrow> u32" where
  "mismatchLoop a b low hi =
     (if low < hi then
        let mid = low + (hi - low) div 2 in
        if Ancestor a mid = Ancestor b mid then mismatchLoop a b (mid + 1) hi
        else mismatchLoop a b low mid
      else low)"
  by pat_completeness auto

lemma mid_bounds:
  fixes low hi :: u32
  assumes "low < hi"
  shows "low \<le> low + (hi - low) div 2" and "low + (hi - low) div 2 < hi"
    and "unat (low + (hi - low) div 2) = unat low + (unat hi - unat low) div 2"
    and "unat (low + (hi - low) div 2 + 1) = unat low + (unat hi - unat low) div 2 + 1"
proof -
  have lt: "unat low < unat hi" using assms by (simp add: word_less_nat_alt)
  have sub: "unat (hi - low) = unat hi - unat low" using assms by (simp add: unat_sub less_imp_le)
  have bound: "unat hi < 2 ^ 32" by (rule unat_lt_32)
  have half: "unat ((hi - low) div 2) = (unat hi - unat low) div 2" by (simp add: unat_div sub)
  have sum: "unat low + (unat hi - unat low) div 2 < unat hi" using lt by linarith
  show eq: "unat (low + (hi - low) div 2) = unat low + (unat hi - unat low) div 2"
    using half sum bound by (simp add: unat_word_ariths)
  show "unat (low + (hi - low) div 2 + 1) = unat low + (unat hi - unat low) div 2 + 1"
    using half sum bound by (simp add: unat_word_ariths)
  show "low \<le> low + (hi - low) div 2" by (simp add: word_le_nat_alt eq)
  show "low + (hi - low) div 2 < hi" using sum by (simp add: word_less_nat_alt eq)
qed

termination mismatchLoop
proof (relation "measure (\<lambda>(a, b, low, hi). unat hi - unat low)", goal_cases)
  case 1
  show ?case by simp
next
  case (2 a b low hi mid)
  then show ?case using mid_bounds(4) [of low hi] by (simp add: word_less_nat_alt)
next
  case (3 a b low hi mid)
  then show ?case using mid_bounds(2,3) [of low hi] by (simp add: word_less_nat_alt)
qed

declare mismatchLoop.simps [simp del]

definition mismatch :: "ledger \<Rightarrow> ledger \<Rightarrow> u32" where
  "mismatch a b =
     (let upper = min (Seq b) (Seq a);
          lower = (if MinSeq b > MinSeq a then MinSeq b else MinSeq a) in
      if lower > upper then 1
      else let low = mismatchLoop a b lower (upper + 1) in
           if low = lower then 1 else low)"

record SpanTip =
  tipSeq :: u32
  tipID :: hash256

record span =
  start :: u32
  stop :: u32
  ledger_of :: ledger

definition newSpanFromLedger :: "ledger \<Rightarrow> span" where
  "newSpanFromLedger l = \<lparr>start = 0, stop = Seq l + 1, ledger_of = l\<rparr>"

definition clamp :: "span \<Rightarrow> u32 \<Rightarrow> u32" where
  "clamp s val = (if val < start s then start s else if val > stop s then stop s else val)"

definition sub :: "span \<Rightarrow> u32 \<Rightarrow> u32 \<Rightarrow> span option" where
  "sub s frm to =
     (let nf = clamp s frm; nt = clamp s to in
      if nf < nt then Some \<lparr>start = nf, stop = nt, ledger_of = ledger_of s\<rparr> else None)"

definition from_spot :: "span \<Rightarrow> u32 \<Rightarrow> span option" where
  "from_spot s spot = sub s spot (stop s)"

definition before :: "span \<Rightarrow> u32 \<Rightarrow> span option" where
  "before s spot = sub s (start s) spot"

definition startID :: "span \<Rightarrow> hash256" where
  "startID s = Ancestor (ledger_of s) (start s)"

definition diff :: "span \<Rightarrow> ledger \<Rightarrow> u32" where
  "diff s o' = clamp s (mismatch (ledger_of s) o')"

definition tip :: "span \<Rightarrow> SpanTip" where
  "tip s = \<lparr>tipSeq = stop s - 1, tipID = Ancestor (ledger_of s) (stop s - 1)\<rparr>"

definition mergeSpans :: "span \<Rightarrow> span \<Rightarrow> span" where
  "mergeSpans a b =
     (let lo = min (start b) (start a) in
      if stop a < stop b then \<lparr>start = lo, stop = stop b, ledger_of = ledger_of b\<rparr>
      else \<lparr>start = lo, stop = stop a, ledger_of = ledger_of a\<rparr>)"

section \<open>Nodes and paths\<close>

datatype tnode = TNode (s: span) (tipSupport: u32) (branchSupport: u32) (children: "tnode list")

definition newEmptyNode :: "ledger \<Rightarrow> tnode" where
  "newEmptyNode genesis = TNode \<lparr>start = 0, stop = 1, ledger_of = genesis\<rparr> 0 0 []"

definition newNodeFromSpan :: "span \<Rightarrow> tnode" where
  "newNodeFromSpan sp = TNode sp 0 0 []"

text \<open>\<open>eraseChild\<close> moves the last child into the place of the erased one.\<close>

definition swap_pop :: "nat \<Rightarrow> 'a list \<Rightarrow> 'a list" where
  "swap_pop i xs = butlast (xs[i := last xs])"

definition eraseChild :: "tnode \<Rightarrow> nat \<Rightarrow> tnode" where
  "eraseChild n i = TNode (s n) (tipSupport n) (branchSupport n) (swap_pop i (children n))"

text \<open>Reading and updating the node a path points to, and the nodes from the root down to it.\<close>

type_synonym npath = "nat list"

fun node_at :: "tnode \<Rightarrow> npath \<Rightarrow> tnode" where
  "node_at n [] = n"
| "node_at n (i # p) = node_at (children n ! i) p"

fun update_at :: "npath \<Rightarrow> (tnode \<Rightarrow> tnode) \<Rightarrow> tnode \<Rightarrow> tnode" where
  "update_at [] f n = f n"
| "update_at (i # p) f n =
     TNode (s n) (tipSupport n) (branchSupport n)
       ((children n)[i := update_at p f (children n ! i)])"

fun nodes_on :: "tnode \<Rightarrow> npath \<Rightarrow> tnode list" where
  "nodes_on n [] = [n]"
| "nodes_on n (i # p) = n # nodes_on (children n ! i) p"

fun map_on :: "(u32 \<Rightarrow> u32) \<Rightarrow> npath \<Rightarrow> tnode \<Rightarrow> tnode" where
  "map_on g [] n = TNode (s n) (tipSupport n) (g (branchSupport n)) (children n)"
| "map_on g (i # p) n =
     TNode (s n) (tipSupport n) (g (branchSupport n))
       ((children n)[i := map_on g p (children n ! i)])"

section \<open>The trie\<close>

record trie =
  root :: tnode
  seqSupport :: "(u32 \<times> u32) list"
  seqKeys :: "u32 list"

datatype panic = Panic string

definition supportAt :: "trie \<Rightarrow> u32 \<Rightarrow> u32" where
  "supportAt t seq = (case map_of (seqSupport t) seq of Some v \<Rightarrow> v | None \<Rightarrow> 0)"

definition New_trie :: "ledger option \<Rightarrow> panic + trie" where
  "New_trie genesis =
     (case genesis of
        None \<Rightarrow> Inl (Panic ''nil genesis ledger'')
      | Some g \<Rightarrow>
          if Seq g \<noteq> 0 then Inl (Panic ''genesis sequence must be zero'')
          else Inr \<lparr>root = newEmptyNode g, seqSupport = [], seqKeys = []\<rparr>)"

definition empty_trie :: "trie \<Rightarrow> bool" where
  "empty_trie t = (branchSupport (root t) = 0)"

text \<open>\<open>find\<close>: the index of the first child the search goes on with, then the descent itself.\<close>

fun first_index :: "('a \<Rightarrow> bool) \<Rightarrow> 'a list \<Rightarrow> nat option" where
  "first_index P [] = None"
| "first_index P (x # xs) = (if P x then Some 0 else map_option Suc (first_index P xs))"

lemma first_index_Some:
  "first_index P xs = Some i \<Longrightarrow> i < length xs \<and> P (xs ! i) \<and> (\<forall>j < i. \<not> P (xs ! j))"
proof (induction xs arbitrary: i)
  case (Cons x xs)
  show ?case
  proof (cases "P x")
    case False
    then obtain k where k: "first_index P xs = Some k" "i = Suc k" using Cons.prems by auto
    with Cons.IH [OF k(1)] False show ?thesis by (auto simp: less_Suc_eq_0_disj)
  qed (use Cons.prems in auto)
qed simp

lemma first_index_None: "first_index P xs = None \<longleftrightarrow> (\<forall>x \<in> set xs. \<not> P x)"
  by (induction xs) auto

lemma size_child_set: "c \<in> set (children n) \<Longrightarrow> size c < size n"
  by (cases n) (auto simp: less_Suc_eq_le intro: size_list_estimation')

lemma size_nth_child: "i < length (children n) \<Longrightarrow> size (children n ! i) < size n"
  by (rule size_child_set) simp

function findFrom :: "tnode \<Rightarrow> u32 \<Rightarrow> ledger \<Rightarrow> npath \<times> u32" where
  "findFrom cur pos l =
     (if pos = stop (s cur) then
        case first_index (\<lambda>child. diff (s child) l > pos) (children cur) of
          None \<Rightarrow> ([], pos)
        | Some i \<Rightarrow>
            let child = children cur ! i; (p, q) = findFrom child (diff (s child) l) l in
            (i # p, q)
      else ([], pos))"
  by pat_completeness auto
termination
  by (relation "measure (\<lambda>(n, _, _). size n)") (auto dest!: first_index_Some intro: size_nth_child)

declare findFrom.simps [simp del]

definition find_trie :: "trie \<Rightarrow> ledger \<Rightarrow> npath \<times> u32" where
  "find_trie t l = findFrom (root t) (diff (s (root t)) l) l"

fun findByIDWalk :: "tnode \<Rightarrow> hash256 \<Rightarrow> npath option"
  and findByIDs :: "nat \<Rightarrow> tnode list \<Rightarrow> hash256 \<Rightarrow> npath option" where
  "findByIDWalk (TNode sp ts bs cs) i =
     (if tipID (tip sp) = i then Some [] else findByIDs 0 cs i)"
| "findByIDs k [] i = None"
| "findByIDs k (child # cs) i =
     (case findByIDWalk child i of Some p \<Rightarrow> Some (k # p) | None \<Rightarrow> findByIDs (Suc k) cs i)"

definition findByLedgerID :: "trie \<Rightarrow> ledger \<Rightarrow> npath option" where
  "findByLedgerID t l = findByIDWalk (root t) (ID l)"

text \<open>\<open>slices.BinarySearch\<close> on a sorted slice: the number of smaller keys, and whether the key follows.\<close>

definition BinarySearch :: "u32 list \<Rightarrow> u32 \<Rightarrow> nat \<times> bool" where
  "BinarySearch keys seq =
     (let idx = length (takeWhile (\<lambda>k. k < seq) keys) in (idx, idx < length keys \<and> keys ! idx = seq))"

definition seqSupportAdd :: "trie \<Rightarrow> u32 \<Rightarrow> u32 \<Rightarrow> panic + trie" where
  "seqSupportAdd t seq delta =
     (let current = supportAt t seq in
      if current > MaxUint32 - delta then Inl (Panic ''sequence support overflow'')
      else
        let keys = (case map_of (seqSupport t) seq of
                      Some _ \<Rightarrow> seqKeys t
                    | None \<Rightarrow> let idx = fst (BinarySearch (seqKeys t) seq) in
                              take idx (seqKeys t) @ seq # drop idx (seqKeys t)) in
        Inr (t\<lparr>seqSupport := AList.update seq (current + delta) (seqSupport t), seqKeys := keys\<rparr>))"

definition seqSupportSub :: "trie \<Rightarrow> u32 \<Rightarrow> u32 \<Rightarrow> panic + trie" where
  "seqSupportSub t seq delta =
     (case map_of (seqSupport t) seq of
        None \<Rightarrow> Inl (Panic ''seqSupport invariant violation'')
      | Some cur \<Rightarrow>
          if cur < delta then Inl (Panic ''seqSupport invariant violation'')
          else if cur - delta = 0 then
            let (idx, found) = BinarySearch (seqKeys t) seq in
            Inr (t\<lparr>seqSupport := AList.delete seq (seqSupport t),
                   seqKeys := (if found then take idx (seqKeys t) @ drop (idx + 1) (seqKeys t)
                               else seqKeys t)\<rparr>)
          else Inr (t\<lparr>seqSupport := AList.update seq (cur - delta) (seqSupport t)\<rparr>))"

section \<open>Insert\<close>

text \<open>The changes \<open>Insert\<close> makes at the node \<open>find\<close> returned: the split and the new leaf.\<close>

definition split_node :: "span \<Rightarrow> span \<Rightarrow> tnode \<Rightarrow> tnode" where
  "split_node prefix oldSuffix loc =
     TNode prefix 0 (branchSupport loc)
       [TNode oldSuffix (tipSupport loc) (branchSupport loc) (children loc)]"

definition add_child :: "tnode \<Rightarrow> tnode \<Rightarrow> tnode" where
  "add_child nn loc = TNode (s loc) (tipSupport loc) (branchSupport loc) (children loc @ [nn])"

definition add_tip :: "u32 \<Rightarrow> tnode \<Rightarrow> tnode" where
  "add_tip count n = TNode (s n) (tipSupport n + count) (branchSupport n) (children n)"

definition Insert :: "trie \<Rightarrow> ledger option \<Rightarrow> u32 \<Rightarrow> panic + trie" where
  "Insert t ol count =
     (case ol of None \<Rightarrow> Inl (Panic ''nil ledger'') | Some l \<Rightarrow>
      let seq = Seq l in
      if seq = MaxUint32 then Inl (Panic ''ledger sequence cannot be represented'')
      else if count = 0 then Inr t
      else
        let (path, diffSeq) = find_trie t l;
            loc = node_at (root t) path;
            oprefix = before (s loc) diffSeq;
            ooldSuffix = from_spot (s loc) diffSeq;
            onewSuffix = from_spot (newSpanFromLedger l) diffSeq in
        if ooldSuffix = None \<and> onewSuffix = None \<and> tipSupport loc > MaxUint32 - count
        then Inl (Panic ''tip support overflow'')
        else if \<exists>cur \<in> set (nodes_on (root t) path). branchSupport cur > MaxUint32 - count
        then Inl (Panic ''branch support overflow'')
        else if supportAt t seq > MaxUint32 - count then Inl (Panic ''sequence support overflow'')
        else
          bindE (case ooldSuffix of
                   None \<Rightarrow> Inr (root t)
                 | Some oldSuffix \<Rightarrow>
                     (case oprefix of
                        None \<Rightarrow> Inl (Panic ''Insert: prefix missing despite oldSuffix'')
                      | Some prefix \<Rightarrow> Inr (update_at path (split_node prefix oldSuffix) (root t))))
            (\<lambda>r1.
               let (r2, incNode) =
                     (case onewSuffix of
                        None \<Rightarrow> (r1, path)
                      | Some newSuffix \<Rightarrow>
                          (update_at path (add_child (newNodeFromSpan newSuffix)) r1,
                           path @ [length (children (node_at r1 path))]));
                   r3 = update_at incNode (add_tip count) r2;
                   r4 = map_on (\<lambda>b. b + count) incNode r3 in
               seqSupportAdd (t\<lparr>root := r4\<rparr>) seq count))"

section \<open>Remove\<close>

text \<open>
  The compaction loop: \<open>loc\<close> is the path the loop variable points to; it is not the root when the
  path is not empty, and its parent is the path without its last index.
\<close>

definition compactStep :: "nat \<Rightarrow> tnode \<Rightarrow> tnode option" where
  "compactStep i parent =
     (let loc = children parent ! i in
      case children loc of
        [] \<Rightarrow> Some (eraseChild parent i)
      | [child] \<Rightarrow>
          Some (eraseChild
            (add_child (TNode (mergeSpans (s loc) (s child)) (tipSupport child) (branchSupport child)
                          (children child)) parent) i)
      | _ \<Rightarrow> None)"

function compactLoop :: "tnode \<Rightarrow> npath \<Rightarrow> tnode" where
  "compactLoop r loc =
     (if tipSupport (node_at r loc) = 0 \<and> loc \<noteq> [] then
        case compactStep (last loc) (node_at r (butlast loc)) of
          None \<Rightarrow> r
        | Some parent \<Rightarrow> compactLoop (update_at (butlast loc) (\<lambda>_. parent) r) (butlast loc)
      else r)"
  by pat_completeness auto
termination
  by (relation "measure (\<lambda>(_, loc). length loc)") auto

declare compactLoop.simps [simp del]

definition sub_tip :: "u32 \<Rightarrow> tnode \<Rightarrow> tnode" where
  "sub_tip count n = TNode (s n) (tipSupport n - count) (branchSupport n) (children n)"

definition Remove_trie :: "trie \<Rightarrow> ledger \<Rightarrow> u32 \<Rightarrow> panic + (bool \<times> trie)" where
  "Remove_trie t l count0 =
     (case findByLedgerID t l of
        None \<Rightarrow> Inr (False, t)
      | Some path \<Rightarrow>
          let loc = node_at (root t) path in
          if tipSupport loc = 0 then Inr (False, t)
          else
            let count = (if count0 > tipSupport loc then tipSupport loc else count0);
                seq = Seq l in
            if seq \<noteq> stop (s loc) - 1 then Inl (Panic ''ledger sequence mismatch'')
            else if (case map_of (seqSupport t) seq of None \<Rightarrow> True | Some support \<Rightarrow> support < count)
            then Inl (Panic ''seqSupport invariant violation'')
            else
              let r1 = update_at path (sub_tip count) (root t) in
              bindE (seqSupportSub (t\<lparr>root := r1\<rparr>) seq count)
                (\<lambda>t2. let r2 = map_on (\<lambda>b. b - count) path (root t2) in
                      Inr (True, t2\<lparr>root := compactLoop r2 path\<rparr>)))"

section \<open>Queries\<close>

definition TipSupport :: "trie \<Rightarrow> ledger \<Rightarrow> u32" where
  "TipSupport t l =
     (case findByLedgerID t l of Some loc \<Rightarrow> tipSupport (node_at (root t) loc) | None \<Rightarrow> 0)"

definition BranchSupport :: "trie \<Rightarrow> ledger \<Rightarrow> u32" where
  "BranchSupport t l =
     (let loc = (case findByLedgerID t l of
                   Some p \<Rightarrow> Some p
                 | None \<Rightarrow>
                     let (candidate, diffSeq) = find_trie t l in
                     if diffSeq > Seq l \<and> Seq l < stop (s (node_at (root t) candidate))
                     then Some candidate else None) in
      case loc of None \<Rightarrow> 0 | Some p \<Rightarrow> branchSupport (node_at (root t) p))"

definition ledgerIDGreater :: "hash256 \<Rightarrow> hash256 \<Rightarrow> bool" where
  "ledgerIDGreater a b = (a > b)"

definition nodeOutranks :: "tnode \<Rightarrow> tnode \<Rightarrow> bool" where
  "nodeOutranks a b =
     (if branchSupport a \<noteq> branchSupport b then branchSupport a > branchSupport b
      else ledgerIDGreater (startID (s a)) (startID (s b)))"

text \<open>
  \<open>GetPreferred\<close>: the support of the keys not yet absorbed is walked with the remaining keys, the
  suffix of \<open>seqKeys\<close> at \<open>uncommittedIdx\<close>.
\<close>

fun absorb :: "trie \<Rightarrow> u32 \<Rightarrow> u32 list \<Rightarrow> u64 \<Rightarrow> u32 list \<times> u64" where
  "absorb t floor [] uncommitted = ([], uncommitted)"
| "absorb t floor (k # ks) uncommitted =
     (if k < floor then absorb t floor ks (uncommitted + ucast (supportAt t k))
      else (k # ks, uncommitted))"

fun advance :: "trie \<Rightarrow> tnode \<Rightarrow> u32 list \<Rightarrow> u32 \<Rightarrow> u64 \<Rightarrow> u32 \<times> u32 list \<times> u64" where
  "advance t cur [] nextSeq uncommitted =
     (if nextSeq < stop (s cur) \<and> ucast (branchSupport cur) > uncommitted
      then (stop (s cur), [], uncommitted) else (nextSeq, [], uncommitted))"
| "advance t cur (k # ks) nextSeq uncommitted =
     (if nextSeq < stop (s cur) \<and> ucast (branchSupport cur) > uncommitted then
        if k < stop (s cur)
        then advance t cur ks (k + 1) (uncommitted + ucast (supportAt t k))
        else (stop (s cur), k # ks, uncommitted)
      else (nextSeq, k # ks, uncommitted))"

fun rankLoop :: "tnode list \<Rightarrow> nat list \<Rightarrow> nat \<times> nat \<Rightarrow> nat \<times> nat" where
  "rankLoop cs [] (bestIndex, secondIndex) = (bestIndex, secondIndex)"
| "rankLoop cs (i # is) (bestIndex, secondIndex) =
     rankLoop cs is
       (if nodeOutranks (cs ! i) (cs ! bestIndex) then (i, bestIndex)
        else if nodeOutranks (cs ! i) (cs ! secondIndex) then (bestIndex, i)
        else (bestIndex, secondIndex))"

definition rankTop :: "tnode list \<Rightarrow> nat \<times> nat" where
  "rankTop cs =
     rankLoop cs [2..<length cs] (if nodeOutranks (cs ! 1) (cs ! 0) then (1, 0) else (0, 1))"

definition swap :: "nat \<Rightarrow> nat \<Rightarrow> 'a list \<Rightarrow> 'a list" where
  "swap i j xs = xs[i := xs ! j, j := xs ! i]"

text \<open>
  The two best children move to the front: the best one by a swap with the first child, which takes
  the runner-up along when it was the first, then the runner-up by a swap with the second.
\<close>

definition promote :: "tnode list \<Rightarrow> nat \<Rightarrow> nat \<Rightarrow> tnode list" where
  "promote cs bestIndex secondIndex =
     (let cs1 = (if bestIndex \<noteq> 0 then swap 0 bestIndex cs else cs);
          i = (if secondIndex = 0 then bestIndex else secondIndex) in
      swap 1 i cs1)"

text \<open>The children in their new order, with the margin of the first one.\<close>

definition chooseBest :: "tnode list \<Rightarrow> tnode list \<times> u64" where
  "chooseBest cs =
     (case cs of
        [] \<Rightarrow> ([], 0)
      | [best] \<Rightarrow> (cs, ucast (branchSupport best))
      | _ \<Rightarrow>
          let (bestIndex, secondIndex) = rankTop cs;
              best = cs ! bestIndex; second = cs ! secondIndex;
              margin = ucast (branchSupport best) - ucast (branchSupport second) in
          (promote cs bestIndex secondIndex,
           if ledgerIDGreater (startID (s best)) (startID (s second)) then margin + 1 else margin))"

text \<open>
  One turn of the outer loop: either the preferred tip lies inside of the span of \<open>cur\<close>, or the
  children are reordered and the loop goes on with the first of them or stops.
\<close>

definition absorbSpan :: "trie \<Rightarrow> u32 \<Rightarrow> tnode \<Rightarrow> u32 list \<Rightarrow> u64 \<Rightarrow> u32 \<times> u32 list \<times> u64" where
  "absorbSpan t largestIssued cur keys uncommitted =
     (let nextSeq = start (s cur) + 1;
          (keys1, uncommitted1) = absorb t (max largestIssued nextSeq) keys uncommitted in
      advance t cur keys1 nextSeq uncommitted1)"

lemma length_swap [simp]: "length (swap i j xs) = length xs"
  by (simp add: swap_def)

lemma length_promote [simp]: "length (promote cs i j) = length cs"
  by (simp add: promote_def Let_def)

lemma set_swap_idx: "i < length xs \<Longrightarrow> j < length xs \<Longrightarrow> set (swap i j xs) = set xs"
  by (simp add: swap_def)

lemma rankLoop_range:
  "rankLoop cs is (b, d) = (b', d') \<Longrightarrow> b' \<in> insert b (insert d (set is)) \<and> d' \<in> insert b (insert d (set is))"
  by (induction cs "is" "(b, d)" arbitrary: b d rule: rankLoop.induct) (force split: if_splits)+

lemma rankLoop_distinct:
  "rankLoop cs is (b, d) = (b', d') \<Longrightarrow> b \<noteq> d \<Longrightarrow> distinct is \<Longrightarrow> b \<notin> set is \<Longrightarrow> d \<notin> set is \<Longrightarrow> b' \<noteq> d'"
  by (induction cs "is" "(b, d)" arbitrary: b d rule: rankLoop.induct) (force split: if_splits)+

lemma rankTop_range:
  assumes "rankTop cs = (b, d)" "2 \<le> length cs"
  shows "b < length cs" and "d < length cs" and "b \<noteq> d"
  using assms rankLoop_range [of cs "[2..<length cs]" _ _ b d]
    rankLoop_distinct [of cs "[2..<length cs]" _ _ b d]
  by (fastforce simp: rankTop_def split: if_splits)+

lemma set_promote:
  assumes "b < length cs" "d < length cs" "2 \<le> length cs"
  shows "set (promote cs b d) = set cs"
proof -
  let ?cs1 = "if b \<noteq> 0 then swap 0 b cs else cs"
  have "set ?cs1 = set cs" "length ?cs1 = length cs"
    using assms set_swap_idx [of 0 cs b] by (cases cs; simp)+
  then show ?thesis
    using assms set_swap_idx [of 1 ?cs1 "if d = 0 then b else d"] by (simp add: promote_def Let_def)
qed

lemma set_chooseBest [simp]: "set (fst (chooseBest cs)) = set cs"
proof (cases "length cs < 2")
  case True
  then show ?thesis by (cases cs; cases "tl cs") (auto simp: chooseBest_def)
next
  case False
  obtain b d where bd: "rankTop cs = (b, d)" by fastforce
  obtain x y zs where cs: "cs = x # y # zs" using False by (cases cs; cases "tl cs") auto
  have "set (promote cs b d) = set cs"
    using set_promote rankTop_range [OF bd] False by simp
  then show ?thesis unfolding chooseBest_def using bd by (simp add: cs Let_def)
qed

lemma chooseBest_hd: "(cs, m) = chooseBest (children n) \<Longrightarrow> cs \<noteq> [] \<Longrightarrow> size (hd cs) < size n"
  using set_chooseBest [of "children n"] by (metis fst_conv list.set_sel(1) size_child_set)

function preferLoop :: "trie \<Rightarrow> u32 \<Rightarrow> tnode \<Rightarrow> u32 list \<Rightarrow> u64 \<Rightarrow> panic + (SpanTip \<times> tnode)" where
  "preferLoop t largestIssued cur keys uncommitted =
     (let (nextSeq, keys', uncommitted') = absorbSpan t largestIssued cur keys uncommitted in
      if nextSeq < stop (s cur) then
        case before (s cur) nextSeq of
          None \<Rightarrow> Inl (Panic ''GetPreferred: before(nextSeq) yielded empty span'')
        | Some sp \<Rightarrow> Inr (tip sp, cur)
      else
        let (cs, margin) = chooseBest (children cur);
            cur' = TNode (s cur) (tipSupport cur) (branchSupport cur) cs in
        if cs \<noteq> [] \<and> (margin > uncommitted' \<or> uncommitted' = 0) then
          bindE (preferLoop t largestIssued (hd cs) keys' uncommitted')
            (\<lambda>(tp, best). Inr (tp, TNode (s cur) (tipSupport cur) (branchSupport cur) (best # tl cs)))
        else Inr (tip (s cur), cur'))"
  by pat_completeness auto

termination
proof (relation "measure (\<lambda>(_, _, n, _). size n)", goal_cases)
  case 1
  show ?case by simp
next
  case 2
  then show ?case using chooseBest_hd by (simp only: in_measure prod.case) metis
qed

declare preferLoop.simps [simp del]

definition GetPreferred :: "trie \<Rightarrow> u32 \<Rightarrow> panic + (SpanTip option \<times> trie)" where
  "GetPreferred t largestIssued =
     (if empty_trie t then Inr (None, t)
      else bindE (preferLoop t largestIssued (root t) (seqKeys t) 0)
             (\<lambda>(tp, r). Inr (Some tp, t\<lparr>root := r\<rparr>)))"

section \<open>CheckInvariants\<close>

text \<open>
  The stack of the walk has its top at the head of the list; the root is the one node that is
  checked with the flag set.
\<close>

definition sumBranches :: "u64 \<Rightarrow> tnode list \<Rightarrow> u64" where
  "sumBranches support cs = foldl (\<lambda>support c. support + ucast (branchSupport c)) support cs"

definition addExpected :: "(u32 \<times> u64) list \<Rightarrow> tnode \<Rightarrow> ((u32 \<times> u64) list) option" where
  "addExpected expected cur =
     (if tipSupport cur = 0 then Some expected
      else
        let seq = stop (s cur) - 1;
            v = (case map_of expected seq of Some v \<Rightarrow> v | None \<Rightarrow> 0) + ucast (tipSupport cur) in
        if v > ucast MaxUint32 then None else Some (AList.update seq v expected))"

function checkWalk :: "(bool \<times> tnode) list \<Rightarrow> (u32 \<times> u64) list \<Rightarrow> ((u32 \<times> u64) list) option" where
  "checkWalk [] expected = Some expected"
| "checkWalk ((is_root, cur) # stack) expected =
     (if start (s cur) \<ge> stop (s cur) then None
      else if \<not> is_root \<and> tipSupport cur = 0 \<and> length (children cur) < 2 then None
      else
        case addExpected expected cur of
          None \<Rightarrow> None
        | Some expected' \<Rightarrow>
            let support = sumBranches (ucast (tipSupport cur)) (children cur) in
            if support > ucast MaxUint32 \<or> support \<noteq> ucast (branchSupport cur) then None
            else checkWalk (rev (map (Pair False) (children cur)) @ stack) expected')"
  by pat_completeness auto
termination
proof (relation "measure (\<lambda>(st, _). size_list (size \<circ> snd) st)", goal_cases)
  case (2 is_root cur stack expected expected' support)
  show ?case by (cases cur) (simp add: size_list_append rev_map comp_def size_list_conv_sum_list flip: rev_map)
qed simp

fun keysOk :: "trie \<Rightarrow> u32 option \<Rightarrow> u32 list \<Rightarrow> bool" where
  "keysOk t prev [] = True"
| "keysOk t prev (seq # keys) =
     ((case prev of Some p \<Rightarrow> \<not> p \<ge> seq | None \<Rightarrow> True) \<and>
      (case map_of (seqSupport t) seq of None \<Rightarrow> False | Some support \<Rightarrow> support \<noteq> 0) \<and>
      keysOk t (Some seq) keys)"

definition CheckInvariants :: "trie \<Rightarrow> bool" where
  "CheckInvariants t =
     (length (seqKeys t) = length (seqSupport t) \<and> keysOk t None (seqKeys t) \<and>
      (case checkWalk [(True, root t)] [] of
         None \<Rightarrow> False
       | Some expected \<Rightarrow>
           length expected = length (seqSupport t) \<and>
           (\<forall>(k, v) \<in> set expected. ucast (supportAt t k) = v)))"

end
