(* ===== verification/Ledger_Trie_Inv.thy ===== *)
theory Ledger_Trie_Inv
  imports Ledger_Trie
begin

text \<open>
  The invariant of the ancestry trie and its preservation by \<open>Insert\<close> and \<open>Remove\<close>.  \<open>tips P n\<close> adds the
  tip support of the nodes below \<open>n\<close> whose span's tip satisfies \<open>P\<close>: with a sequence it is what
  \<open>seqSupport\<close> stores, with a ledger id it is the support of that ledger.
\<close>

section \<open>The binary search\<close>

lemma mismatchLoop_spec:
  "low \<le> hi \<Longrightarrow> mismatchLoop a b low hi = r \<Longrightarrow>
     low \<le> r \<and> r \<le> hi \<and> (r = low \<or> Ancestor a (r - 1) = Ancestor b (r - 1)) \<and>
     (r = hi \<or> Ancestor a r \<noteq> Ancestor b r)"
proof (induction a b low hi rule: mismatchLoop.induct)
  case (1 a b low hi)
  let ?mid = "low + (hi - low) div 2"
  show ?case
  proof (cases "low < hi")
    case False
    then have "r = low" "low = hi" using "1.prems" mismatchLoop.simps [of a b low hi] by simp_all
    then show ?thesis by simp
  next
    case lt: True
    note mid = mid_bounds [OF lt]
    have succ: "low < ?mid + 1" "?mid + 1 \<le> hi"
      using mid lt by (auto simp: word_less_nat_alt word_le_nat_alt)
    show ?thesis
    proof (cases "Ancestor a ?mid = Ancestor b ?mid")
      case True
      then have "mismatchLoop a b (?mid + 1) hi = r"
        using lt "1.prems"(2) by (simp add: mismatchLoop.simps [of a b low hi] Let_def)
      note IH = "1.IH"(1) [OF lt refl True succ(2) this]
      have "r = ?mid + 1 \<Longrightarrow> Ancestor a (r - 1) = Ancestor b (r - 1)" using True by simp
      then show ?thesis using IH succ(1) less_le_trans [of low "?mid + 1" r] by (metis less_imp_le)
    next
      case False
      then have "mismatchLoop a b low ?mid = r"
        using lt "1.prems"(2) by (simp add: mismatchLoop.simps [of a b low hi] Let_def)
      from "1.IH"(2) [OF lt refl False mid(1) this] show ?thesis using False mid(2) by auto
    qed
  qed
qed

lemma not_max: "x \<noteq> MaxUint32 \<longleftrightarrow> unat x < 2 ^ 32 - 1"
proof -
  have "unat MaxUint32 = 2 ^ 32 - 1" by (simp add: MaxUint32_def)
  then show ?thesis using unat_lt_32 [of x] by (auto simp: word_unat_eq_iff)
qed

lemma succ_no_wrap: "x \<noteq> MaxUint32 \<Longrightarrow> unat (x + 1) = unat x + 1"
  by (simp add: not_max unat_word_ariths)

lemma below_not_max: "k < x \<Longrightarrow> k \<noteq> MaxUint32"
  using unat_lt_32 [of x] by (simp add: not_max word_less_nat_alt)

text \<open>The result is a position after genesis, at most one past the ledger, with a common ancestor below.\<close>

lemma mismatch_bounds:
  assumes "Seq b \<noteq> MaxUint32"
  shows "1 \<le> unat (mismatch a b)" and "unat (mismatch a b) \<le> unat (Seq b) + 1"
    and "1 < mismatch a b \<Longrightarrow>
         Ancestor a (mismatch a b - 1) = Ancestor b (mismatch a b - 1)"
proof -
  define upper where "upper = min (Seq b) (Seq a)"
  define lower where "lower = (if MinSeq b > MinSeq a then MinSeq b else MinSeq a)"
  define r where "r = mismatchLoop a b lower (upper + 1)"
  have m: "mismatch a b = (if lower > upper then 1 else if r = lower then 1 else r)"
    by (simp add: mismatch_def upper_def lower_def r_def Let_def)
  have ub: "unat upper \<le> unat (Seq b)" by (simp add: upper_def min_def word_le_nat_alt)
  have "upper \<noteq> MaxUint32"
    using assms ub by (simp add: not_max)
  then have s: "unat (upper + 1) = unat upper + 1" by (rule succ_no_wrap)
  have r: "lower \<le> r \<and> r \<le> upper + 1 \<and> (r = lower \<or> Ancestor a (r - 1) = Ancestor b (r - 1))"
    if "\<not> lower > upper"
  proof -
    have "lower \<le> upper + 1" using that s by (simp add: word_le_nat_alt word_less_nat_alt)
    then show ?thesis using mismatchLoop_spec r_def by blast
  qed
  show "1 \<le> unat (mismatch a b)"
    using r by (auto simp: m word_le_nat_alt unat_eq_0 Suc_le_eq intro!: gr0I)
  show "unat (mismatch a b) \<le> unat (Seq b) + 1"
    using r ub s by (auto simp: m word_le_nat_alt)
  show "1 < mismatch a b \<Longrightarrow> Ancestor a (mismatch a b - 1) = Ancestor b (mismatch a b - 1)"
    using r by (auto simp: m split: if_splits)
qed

section \<open>Spans\<close>

lemma before_inside:
  "start sp < q \<Longrightarrow> q \<le> stop sp \<Longrightarrow>
     before sp q = Some \<lparr>start = start sp, stop = q, ledger_of = ledger_of sp\<rparr>"
  by (auto simp: before_def sub_def clamp_def Let_def)

lemma from_inside:
  "start sp \<le> q \<Longrightarrow> q \<le> stop sp \<Longrightarrow>
     from_spot sp q =
       (if q < stop sp then Some \<lparr>start = q, stop = stop sp, ledger_of = ledger_of sp\<rparr> else None)"
  by (auto simp: from_spot_def sub_def clamp_def Let_def)

lemma clamp_above_start: "start sp < clamp sp m \<Longrightarrow> start sp < m \<and> clamp sp m = min m (stop sp)"
  by (auto simp: clamp_def min_def split: if_splits)

section \<open>The shape of the trie\<close>

fun tnode_ok :: "bool \<Rightarrow> tnode \<Rightarrow> bool" where
  "tnode_ok is_root (TNode sp ts bs cs) =
     (start sp < stop sp \<and> (is_root \<or> ts \<noteq> 0 \<or> 2 \<le> length cs) \<and>
      unat bs = unat ts + (\<Sum>c\<leftarrow>cs. unat (branchSupport c)) \<and>
      (\<forall>c \<in> set cs. start (s c) = stop sp \<and> tnode_ok False c))"

fun tips :: "(SpanTip \<Rightarrow> bool) \<Rightarrow> tnode \<Rightarrow> nat" where
  "tips P (TNode sp ts bs cs) = (if P (tip sp) then unat ts else 0) + (\<Sum>c\<leftarrow>cs. tips P c)"

fun valid :: "tnode \<Rightarrow> npath \<Rightarrow> bool" where
  "valid n [] = True"
| "valid n (i # p) = (i < length (children n) \<and> valid (children n ! i) p)"

lemma tnode_ok_sel:
  "tnode_ok r n \<longleftrightarrow>
     start (s n) < stop (s n) \<and> (r \<or> tipSupport n \<noteq> 0 \<or> 2 \<le> length (children n)) \<and>
     unat (branchSupport n) = unat (tipSupport n) + (\<Sum>c\<leftarrow>children n. unat (branchSupport c)) \<and>
     (\<forall>c \<in> set (children n). start (s c) = stop (s n) \<and> tnode_ok False c)"
  by (cases n) simp

lemma tips_sel:
  "tips P n = (if P (tip (s n)) then unat (tipSupport n) else 0) + (\<Sum>c\<leftarrow>children n. tips P c)"
  by (cases n) simp

lemma sum_list_update:
  fixes f :: "'a \<Rightarrow> nat"
  shows "i < length xs \<Longrightarrow> (\<Sum>x\<leftarrow>xs[i := y]. f x) + f (xs ! i) = (\<Sum>x\<leftarrow>xs. f x) + f y"
proof (induction xs arbitrary: i)
  case (Cons x xs)
  then show ?case by (cases i) auto
qed simp

lemma nth_le_sum_list:
  fixes f :: "'a \<Rightarrow> nat"
  shows "i < length xs \<Longrightarrow> f (xs ! i) \<le> (\<Sum>x\<leftarrow>xs. f x)"
  by (metis elem_le_sum_list length_map nth_map)

text \<open>Where \<open>find\<close> stops: the position lies in the span of the node, after its start.\<close>

definition reaches :: "tnode \<Rightarrow> u32 \<Rightarrow> ledger \<Rightarrow> bool" where
  "reaches n q l \<longleftrightarrow>
     start (s n) < mismatch (ledger_of (s n)) l \<and>
     q = min (mismatch (ledger_of (s n)) l) (stop (s n))"

lemma findFrom_reaches:
  "tnode_ok r n \<Longrightarrow> reaches n pos l \<Longrightarrow> findFrom n pos l = (p, q) \<Longrightarrow>
     valid n p \<and> reaches (node_at n p) q l \<and> tnode_ok (r \<and> p = []) (node_at n p)"
proof (induction n pos l arbitrary: p q r rule: findFrom.induct)
  case (1 n pos l)
  let ?P = "\<lambda>child. diff (s child) l > pos"
  show ?case
  proof (cases "pos = stop (s n) \<and> first_index ?P (children n) \<noteq> None")
    case False
    then have "findFrom n pos l = ([], pos)"
      by (subst findFrom.simps) auto
    then have "p = []" "q = pos" using "1.prems"(3) by simp_all
    then show ?thesis using "1.prems" by simp
  next
    case True
    then obtain i where i: "first_index ?P (children n) = Some i" and pos: "pos = stop (s n)" by auto
    let ?c = "children n ! i"
    obtain p' where p': "findFrom ?c (diff (s ?c) l) l = (p', q)" "p = i # p'"
      using "1.prems"(3) i pos by (subst (asm) findFrom.simps) (auto simp: Let_def split: prod.splits)
    have idx: "i < length (children n)" "diff (s ?c) l > pos" using first_index_Some [OF i] by auto
    have c: "start (s ?c) = stop (s n)" "tnode_ok False ?c"
      using "1.prems"(1) idx(1) by (auto simp: tnode_ok_sel [of r n])
    have "reaches ?c (diff (s ?c) l) l"
      using clamp_above_start [of "s ?c"] idx(2) c(1) pos by (simp add: diff_def reaches_def)
    from "1.IH" [OF pos i refl c(2) this p'(1)] show ?thesis using p'(2) idx(1) by simp
  qed
qed

section \<open>Updates along a path\<close>

text \<open>An update of the node a path leads to that also changes the branch support of the nodes above.\<close>

fun graft :: "(u32 \<Rightarrow> u32) \<Rightarrow> npath \<Rightarrow> (tnode \<Rightarrow> tnode) \<Rightarrow> tnode \<Rightarrow> tnode" where
  "graft h [] f n = f n"
| "graft h (i # p) f n =
     TNode (s n) (tipSupport n) (h (branchSupport n)) ((children n)[i := graft h p f (children n ! i)])"

lemma node_at_update [simp]: "valid n p \<Longrightarrow> node_at (update_at p f n) p = f (node_at n p)"
  by (induction p arbitrary: n) auto

lemma update_at_update [simp]:
  "valid n p \<Longrightarrow> update_at p f (update_at p g n) = update_at p (\<lambda>m. f (g m)) n"
  by (induction p arbitrary: n) auto

lemma map_on_update:
  "valid n p \<Longrightarrow> map_on h p (update_at p f n) = graft h p (\<lambda>m. map_on h [] (f m)) n"
  by (induction p arbitrary: n) auto

lemma map_on_update_child:
  "valid n p \<Longrightarrow> map_on h (p @ [k]) (update_at (p @ [k]) f (update_at p g n)) =
     graft h p (\<lambda>m. map_on h [k] (update_at [k] f (g m))) n"
  by (induction p arbitrary: n) auto

lemma graft_local: "f (node_at n p) = g (node_at n p) \<Longrightarrow> graft h p f n = graft h p g n"
  by (induction n p rule: node_at.induct) auto

lemma nodes_on_update_loc: "node_at n p \<in> set (nodes_on n p)"
  by (induction n p rule: node_at.induct) auto

text \<open>The part of the invariant that does not concern the node at the end of the path.\<close>

fun ctx_ok :: "npath \<Rightarrow> bool \<Rightarrow> tnode \<Rightarrow> bool" where
  "ctx_ok [] r n = True"
| "ctx_ok (i # p) r n =
     (start (s n) < stop (s n) \<and> (r \<or> tipSupport n \<noteq> 0 \<or> 2 \<le> length (children n)) \<and>
      unat (branchSupport n) = unat (tipSupport n) + (\<Sum>c\<leftarrow>children n. unat (branchSupport c)) \<and>
      i < length (children n) \<and> (\<forall>c \<in> set (children n). start (s c) = stop (s n)) \<and>
      (\<forall>j < length (children n). j \<noteq> i \<longrightarrow> tnode_ok False (children n ! j)) \<and>
      ctx_ok p False (children n ! i))"

lemma ctx_ok_valid: "ctx_ok p r n \<Longrightarrow> valid n p"
  by (induction p arbitrary: r n) auto

lemma ctx_ok_append: "ctx_ok (p @ q) r n \<longleftrightarrow> ctx_ok p r n \<and> ctx_ok q (r \<and> p = []) (node_at n p)"
  by (induction p arbitrary: r n) auto

lemma tnode_ok_ctx:
  "tnode_ok r n \<Longrightarrow> valid n p \<Longrightarrow> ctx_ok p r n \<and> tnode_ok (r \<and> p = []) (node_at n p)"
proof (induction p arbitrary: n r)
  case (Cons i p)
  then have c: "tnode_ok False (children n ! i)" "valid (children n ! i) p"
    by (auto simp: tnode_ok_sel [of r n])
  show ?case using Cons.IH [OF c] Cons.prems by (auto simp: tnode_ok_sel [of r n])
qed simp

lemma ctx_tnode_ok:
  "ctx_ok p r n \<Longrightarrow> tnode_ok (r \<and> p = []) (node_at n p) \<Longrightarrow> tnode_ok r n"
proof (induction p arbitrary: n r)
  case (Cons i p)
  then have "tnode_ok False (children n ! i)" by auto
  then have "\<forall>c \<in> set (children n). tnode_ok False c"
    using Cons.prems(1) by (auto simp: in_set_conv_nth)
  then show ?case using Cons.prems(1) by (simp add: tnode_ok_sel [of r n])
qed simp

lemma node_at_graft [simp]: "valid n p \<Longrightarrow> node_at (graft h p f n) p = f (node_at n p)"
  by (induction p arbitrary: n) auto

lemma ctx_graft:
  assumes "ctx_ok p r n" "start (s (f (node_at n p))) = start (s (node_at n p))"
    and "unat (branchSupport (f (node_at n p))) + b = unat (branchSupport (node_at n p)) + a"
    and "\<And>m. m \<in> set (nodes_on n p) \<Longrightarrow> unat (h (branchSupport m)) + b = unat (branchSupport m) + a"
  shows "ctx_ok p r (graft h p f n) \<and> start (s (graft h p f n)) = start (s n) \<and>
     unat (branchSupport (graft h p f n)) + b = unat (branchSupport n) + a"
  using assms
proof (induction p arbitrary: n r)
  case (Cons i p)
  let ?c = "children n ! i" and ?cs = "(children n)[i := graft h p f (children n ! i)]"
  have n: "ctx_ok (i # p) r n" and i: "i < length (children n)" "ctx_ok p False ?c"
    using Cons.prems(1) by auto
  have IH: "ctx_ok p False (graft h p f ?c)" "start (s (graft h p f ?c)) = start (s ?c)"
    "unat (branchSupport (graft h p f ?c)) + b = unat (branchSupport ?c) + a"
    using Cons.IH [OF i(2)] Cons.prems(2-4) by auto
  have "(\<Sum>c\<leftarrow>?cs. unat (branchSupport c)) + b = (\<Sum>c\<leftarrow>children n. unat (branchSupport c)) + a"
    using sum_list_update [OF i(1), of "\<lambda>c. unat (branchSupport c)" "graft h p f ?c"] IH(3) by simp
  moreover have "unat (h (branchSupport n)) + b = unat (branchSupport n) + a" using Cons.prems(4) by auto
  moreover have "\<forall>m \<in> set ?cs. start (s m) = stop (s n)"
    using n IH(2) set_update_subset_insert [of "children n" i "graft h p f ?c"] by auto
  ultimately show ?case using n IH(1) i by simp
qed auto

lemma graft_ok:
  assumes "valid n p" "tnode_ok r n"
    and "tnode_ok (r \<and> p = []) (f (node_at n p))" "start (s (f (node_at n p))) = start (s (node_at n p))"
    and "unat (branchSupport (f (node_at n p))) + b = unat (branchSupport (node_at n p)) + a"
    and "\<And>m. m \<in> set (nodes_on n p) \<Longrightarrow> unat (h (branchSupport m)) + b = unat (branchSupport m) + a"
  shows "tnode_ok r (graft h p f n) \<and> start (s (graft h p f n)) = start (s n) \<and>
     unat (branchSupport (graft h p f n)) + b = unat (branchSupport n) + a"
  using ctx_graft [of p r n f b a h] tnode_ok_ctx [OF assms(2,1)] ctx_tnode_ok [of p r "graft h p f n"] assms
  by simp

lemma graft_tips:
  "valid n p \<Longrightarrow> tips P (graft h p f n) + tips P (node_at n p) = tips P n + tips P (f (node_at n p))"
proof (induction p arbitrary: n)
  case (Cons i p)
  then have i: "i < length (children n)" and v: "valid (children n ! i) p" by auto
  show ?case
    using Cons.IH [OF v] sum_list_update [OF i, of "tips P" "graft h p f (children n ! i)"]
    by (simp add: tips_sel [of P n])
qed simp

section \<open>Insert\<close>

text \<open>What \<open>Insert\<close> does to the node \<open>find\<close> returned, and the tip that gains the support.\<close>

definition incLocal :: "u32 \<Rightarrow> ledger \<Rightarrow> u32 \<Rightarrow> tnode \<Rightarrow> tnode" where
  "incLocal q l count loc =
     (let base = (if q < stop (s loc)
                  then split_node \<lparr>start = start (s loc), stop = q, ledger_of = ledger_of (s loc)\<rparr>
                         \<lparr>start = q, stop = stop (s loc), ledger_of = ledger_of (s loc)\<rparr> loc
                  else loc) in
      if q < Seq l + 1
      then TNode (s base) (tipSupport base) (branchSupport base + count)
             (children base @ [TNode \<lparr>start = q, stop = Seq l + 1, ledger_of = l\<rparr> count count []])
      else TNode (s base) (tipSupport base + count) (branchSupport base + count) (children base))"

definition incTip :: "u32 \<Rightarrow> ledger \<Rightarrow> tnode \<Rightarrow> SpanTip" where
  "incTip q l loc =
     (if q < Seq l + 1 then \<lparr>tipSeq = Seq l, tipID = Ancestor l (Seq l)\<rparr>
      else \<lparr>tipSeq = Seq l, tipID = Ancestor (ledger_of (s loc)) (Seq l)\<rparr>)"

lemma tip_inside [simp]:
  "tip \<lparr>start = a, stop = b, ledger_of = c\<rparr> = \<lparr>tipSeq = b - 1, tipID = Ancestor c (b - 1)\<rparr>"
  by (simp add: tip_def)

lemma unat_add_no_wrap: "unat (x :: u32) + unat y < 2 ^ 32 \<Longrightarrow> unat (x + y) = unat x + unat y"
  using unat_word_ariths(1) [of x y] by simp

lemma incLocal_ok:
  assumes ok: "tnode_ok r loc" and q: "start (s loc) < q" "q \<le> stop (s loc)" "r \<longrightarrow> q = stop (s loc)"
    and seq: "q \<le> Seq l + 1" and count: "count \<noteq> 0"
    and fits: "unat (branchSupport loc) + unat count < 2 ^ 32"
  shows "tnode_ok r (incLocal q l count loc)" and "start (s (incLocal q l count loc)) = start (s loc)"
    and "unat (branchSupport (incLocal q l count loc)) = unat (branchSupport loc) + unat count"
    and "tips P (incLocal q l count loc) = tips P loc + (if P (incTip q l loc) then unat count else 0)"
proof -
  have le: "unat (tipSupport loc) \<le> unat (branchSupport loc)" using ok by (simp add: tnode_ok_sel [of r loc])
  have b: "unat (branchSupport loc + count) = unat (branchSupport loc) + unat count"
    and ts: "unat (tipSupport loc + count) = unat (tipSupport loc) + unat count"
    using fits le by (simp_all add: unat_add_no_wrap)
  have tnz: "tipSupport loc + count \<noteq> 0"
    using ts count by (metis add_is_0 unat_0 unat_eq_zero)
  show "unat (branchSupport (incLocal q l count loc)) = unat (branchSupport loc) + unat count"
    by (simp add: incLocal_def Let_def split_node_def b)
  show "start (s (incLocal q l count loc)) = start (s loc)"
    by (simp add: incLocal_def Let_def split_node_def)
  have old: "tnode_ok False (TNode \<lparr>start = q, stop = stop (s loc), ledger_of = ledger_of (s loc)\<rparr>
      (tipSupport loc) (branchSupport loc) (children loc))" if "q < stop (s loc)"
    using ok that q(3) by (auto simp: tnode_ok_sel [of r loc])
  show "tnode_ok r (incLocal q l count loc)"
    using ok old q(1,2) count b ts tnz seq
    by (auto simp: incLocal_def Let_def split_node_def tnode_ok_sel [of r loc] not_less)
  have eq: "q = Seq l + 1" if "\<not> q < Seq l + 1" using that seq by simp
  show "tips P (incLocal q l count loc) = tips P loc + (if P (incTip q l loc) then unat count else 0)"
  proof (cases "q < stop (s loc)")
    case True
    then show ?thesis
      using eq by (auto simp: incLocal_def incTip_def Let_def split_node_def tips_sel [of P loc] tip_def)
  next
    case False
    then have "stop (s loc) = q" using q(2) by simp
    then show ?thesis
      using eq ts by (auto simp: incLocal_def incTip_def Let_def tips_sel [of P loc] tip_def)
  qed
qed

text \<open>The root keeps the span of genesis, so \<open>find\<close> always starts inside of it.\<close>

definition root_ok :: "tnode \<Rightarrow> bool" where
  "root_ok r \<longleftrightarrow> tnode_ok True r \<and> start (s r) = 0 \<and> stop (s r) = 1"

lemma find_trie_reaches:
  assumes "root_ok (root t)" "Seq l \<noteq> MaxUint32" "find_trie t l = (path, q)"
  shows "valid (root t) path" and "reaches (node_at (root t) path) q l"
    and "tnode_ok (path = []) (node_at (root t) path)"
    and "start (s (node_at (root t) path)) < q" "q \<le> stop (s (node_at (root t) path))"
    and "q \<le> Seq l + 1" and "path = [] \<Longrightarrow> q = stop (s (root t))"
proof -
  let ?loc = "node_at (root t) path"
  have one: "1 \<le> unat (mismatch g l)" "unat (mismatch g l) \<le> unat (Seq l) + 1" for g
    using mismatch_bounds [OF assms(2)] by auto
  have "reaches (root t) (diff (s (root t)) l) l"
    using one [of "ledger_of (s (root t))"] assms(1)
    by (auto simp: root_ok_def reaches_def diff_def clamp_def min_def word_le_nat_alt word_less_nat_alt)
  then show loc: "valid (root t) path" "reaches ?loc q l" "tnode_ok (path = []) ?loc"
    using findFrom_reaches [of True "root t"] assms(1,3) by (auto simp: find_trie_def root_ok_def)
  then show q: "start (s ?loc) < q" "q \<le> stop (s ?loc)" "q \<le> Seq l + 1"
    using one(2) [of "ledger_of (s ?loc)"] succ_no_wrap [OF assms(2)]
    by (auto simp: reaches_def tnode_ok_sel [of _ ?loc] word_le_nat_alt word_less_nat_alt min_def)
  assume "path = []"
  then show "q = stop (s (root t))"
    using q(1,2) assms(1) by (auto simp: root_ok_def word_le_nat_alt word_less_nat_alt word_unat_eq_iff)
qed

text \<open>The state of \<open>Insert\<close> after its guards, as one update along the path of \<open>find\<close>.\<close>

lemma Insert_eq:
  assumes "root_ok (root t)" "Seq l \<noteq> MaxUint32" "count \<noteq> 0" "find_trie t l = (path, q)"
  shows "Insert t (Some l) count =
     (if q = stop (s (node_at (root t) path)) \<and> q = Seq l + 1 \<and>
         tipSupport (node_at (root t) path) > MaxUint32 - count
      then Inl (Panic ''tip support overflow'')
      else if \<exists>cur \<in> set (nodes_on (root t) path). branchSupport cur > MaxUint32 - count
      then Inl (Panic ''branch support overflow'')
      else if supportAt t (Seq l) > MaxUint32 - count then Inl (Panic ''sequence support overflow'')
      else seqSupportAdd (t\<lparr>root := graft (\<lambda>b. b + count) path (incLocal q l count) (root t)\<rparr>)
             (Seq l) count)"
proof -
  let ?loc = "node_at (root t) path" and ?h = "\<lambda>b. b + count"
  note loc = find_trie_reaches [OF assms(1,2,4)]
  have suffix: "from_spot (newSpanFromLedger l) q =
      (if q < Seq l + 1 then Some \<lparr>start = q, stop = Seq l + 1, ledger_of = l\<rparr> else None)"
    using from_inside [of "newSpanFromLedger l" q] loc(6) by (simp add: newSpanFromLedger_def)
  note spans = suffix before_inside [OF loc(4,5)] from_inside [OF less_imp_le [OF loc(4)] loc(5)]
  show ?thesis
    using loc(5,6) assms(2-4)
    by (auto simp: Insert_def spans Let_def map_on_update map_on_update_child loc(1)
        add_child_def split_node_def add_tip_def newNodeFromSpan_def incLocal_def
        intro!: arg_cong [where f = "\<lambda>r. seqSupportAdd (t\<lparr>root := r\<rparr>) (Seq l) count"] graft_local)
qed

section \<open>The support by sequence\<close>

definition seq_ok :: "trie \<Rightarrow> bool" where
  "seq_ok t \<longleftrightarrow> distinct (map fst (seqSupport t)) \<and> sorted_wrt (<) (seqKeys t) \<and>
     set (seqKeys t) = dom (map_of (seqSupport t)) \<and> (\<forall>k. map_of (seqSupport t) k \<noteq> Some 0)"

lemma no_overflow: "\<not> x > MaxUint32 - c \<longleftrightarrow> unat x + unat c < 2 ^ 32"
proof -
  have m: "unat MaxUint32 = 2 ^ 32 - 1" by (simp add: MaxUint32_def)
  then have "c \<le> MaxUint32" using unat_lt_32 [of c] by (simp add: word_le_nat_alt)
  then have "unat (MaxUint32 - c) = 2 ^ 32 - 1 - unat c" using m by (simp add: unat_sub)
  then show ?thesis using unat_lt_32 [of c] by (auto simp: word_less_nat_alt)
qed

lemma BinarySearch_split:
  "take (fst (BinarySearch ks k)) ks = takeWhile (\<lambda>x. x < k) ks"
  "drop (fst (BinarySearch ks k)) ks = dropWhile (\<lambda>x. x < k) ks"
  by (simp_all add: BinarySearch_def Let_def takeWhile_eq_take [symmetric] dropWhile_eq_drop [symmetric])

lemma sorted_insert_at:
  assumes "sorted_wrt (<) ks" "k \<notin> set ks"
  shows "sorted_wrt (<) (takeWhile (\<lambda>x. x < k) ks @ (k :: u32) # dropWhile (\<lambda>x. x < k) ks)"
    and "insert k (set (takeWhile (\<lambda>x. x < k) ks) \<union> set (dropWhile (\<lambda>x. x < k) ks)) = insert k (set ks)"
  using assms
proof (induction ks)
  case (Cons x ks)
  { case 1
    then show ?case using Cons.IH(1) by (auto dest: set_takeWhileD set_dropWhileD) }
  { case 2
    then show ?case using Cons.IH(2) by auto }
qed auto

lemma sorted_delete_at:
  assumes "sorted_wrt (<) ks" "(k :: u32) \<in> set ks"
  shows "snd (BinarySearch ks k)"
    and "take (fst (BinarySearch ks k)) ks @ drop (fst (BinarySearch ks k) + 1) ks = filter (\<lambda>x. x \<noteq> k) ks"
  using assms
proof (induction ks)
  case (Cons x ks)
  { case 1
    then show ?case using Cons.IH(1) by (auto simp: BinarySearch_def Let_def) }
  { case 2
    show ?case
    proof (cases "x = k")
      case True
      then have "filter (\<lambda>x. x \<noteq> k) ks = ks" using 2 by (auto simp: filter_id_conv)
      then show ?thesis using True by (simp add: BinarySearch_def Let_def)
    next
      case False
      then show ?thesis using 2 Cons.IH(2) by (auto simp: BinarySearch_def Let_def)
    qed }
qed auto

lemma seqSupportAdd_keys:
  assumes "seq_ok t" "unat (supportAt t seq) + unat count < 2 ^ 32"
  obtains ks where "seqSupportAdd t seq count =
      Inr (t\<lparr>seqSupport := AList.update seq (supportAt t seq + count) (seqSupport t), seqKeys := ks\<rparr>)"
    "sorted_wrt (<) ks" "set ks = insert seq (set (seqKeys t))"
proof (cases "map_of (seqSupport t) seq")
  case None
  then have new: "seq \<notin> set (seqKeys t)" using assms(1) by (auto simp: seq_ok_def)
  have "seqSupportAdd t seq count =
      Inr (t\<lparr>seqSupport := AList.update seq (supportAt t seq + count) (seqSupport t),
             seqKeys := takeWhile (\<lambda>x. x < seq) (seqKeys t) @ seq # dropWhile (\<lambda>x. x < seq) (seqKeys t)\<rparr>)"
    using None assms(2) no_overflow by (simp add: seqSupportAdd_def BinarySearch_split Let_def)
  from that [OF this] show ?thesis
    using sorted_insert_at [OF _ new] assms(1) by (simp add: seq_ok_def)
next
  case (Some c)
  then have "seqSupportAdd t seq count =
      Inr (t\<lparr>seqSupport := AList.update seq (supportAt t seq + count) (seqSupport t), seqKeys := seqKeys t\<rparr>)"
    using assms(2) no_overflow by (simp add: seqSupportAdd_def Let_def)
  moreover have "seq \<in> set (seqKeys t)" using Some assms(1) by (simp add: seq_ok_def domI)
  ultimately show ?thesis using that [of "seqKeys t"] assms(1) by (simp add: seq_ok_def insert_absorb)
qed

lemma seqSupportAdd_ok:
  assumes "seq_ok t" "count \<noteq> 0" "unat (supportAt t seq) + unat count < 2 ^ 32"
  shows "\<exists>t'. seqSupportAdd t seq count = Inr t' \<and> seq_ok t' \<and> root t' = root t \<and>
     (\<forall>k. unat (supportAt t' k) = unat (supportAt t k) + (if k = seq then unat count else 0))"
proof -
  have v: "unat (supportAt t seq + count) = unat (supportAt t seq) + unat count"
    using assms(3) by (simp add: unat_add_no_wrap)
  then have nz: "supportAt t seq + count \<noteq> 0" using assms(2) by (metis add_is_0 unat_0 unat_eq_zero)
  obtain ks where ks: "seqSupportAdd t seq count =
      Inr (t\<lparr>seqSupport := AList.update seq (supportAt t seq + count) (seqSupport t), seqKeys := ks\<rparr>)"
    "sorted_wrt (<) ks" "set ks = insert seq (set (seqKeys t))"
    using seqSupportAdd_keys [OF assms(1,3)] .
  have "seq_ok (t\<lparr>seqSupport := AList.update seq (supportAt t seq + count) (seqSupport t), seqKeys := ks\<rparr>)"
    using assms(1) ks(2,3) nz by (auto simp: seq_ok_def update_conv' distinct_update)
  then show ?thesis using ks(1) v by (auto simp: supportAt_def update_conv')
qed

lemma seqSupportSub_ok:
  assumes "seq_ok t" "map_of (seqSupport t) seq = Some cur" "delta \<le> cur"
  shows "\<exists>t'. seqSupportSub t seq delta = Inr t' \<and> seq_ok t' \<and> root t' = root t \<and>
     (\<forall>k. unat (supportAt t' k) + (if k = seq then unat delta else 0) = unat (supportAt t k))"
proof (cases "cur - delta = 0")
  case True
  then have eq: "cur = delta" by simp
  let ?t = "t\<lparr>seqSupport := AList.delete seq (seqSupport t),
              seqKeys := filter (\<lambda>x. x \<noteq> seq) (seqKeys t)\<rparr>"
  have "seq \<in> set (seqKeys t)" using assms(1,2) by (auto simp: seq_ok_def)
  then have "seqSupportSub t seq delta = Inr ?t"
    using sorted_delete_at [of "seqKeys t" seq] assms True
    by (auto simp: seqSupportSub_def seq_ok_def split: prod.splits)
  moreover have "seq_ok ?t"
    using assms(1) by (auto simp: seq_ok_def delete_conv' distinct_delete sorted_wrt_filter split: if_splits)
  ultimately show ?thesis using assms(2) eq by (auto simp: supportAt_def delete_conv')
next
  case False
  let ?t = "t\<lparr>seqSupport := AList.update seq (cur - delta) (seqSupport t)\<rparr>"
  have "seqSupportSub t seq delta = Inr ?t" using assms False by (auto simp: seqSupportSub_def)
  moreover have "seq_ok ?t"
    using assms(1,2) False by (auto simp: seq_ok_def update_conv' distinct_update)
  moreover have "unat (cur - delta) + unat delta = unat cur"
    using assms(3) by (simp add: unat_sub word_le_nat_alt)
  ultimately show ?thesis using assms(2) by (auto simp: supportAt_def update_conv')
qed

section \<open>The invariant of the trie\<close>

definition trie_ok :: "trie \<Rightarrow> bool" where
  "trie_ok t \<longleftrightarrow> root_ok (root t) \<and> seq_ok t \<and>
     (\<forall>k. unat (supportAt t k) = tips (\<lambda>x. tipSeq x = k) (root t))"

definition genesis :: "trie \<Rightarrow> ledger" where
  "genesis t = ledger_of (s (root t))"

lemma New_trie_ok:
  "New_trie (Some g) = Inr t \<Longrightarrow> trie_ok t \<and> genesis t = g \<and> tips P (root t) = 0"
  by (auto simp: New_trie_def trie_ok_def root_ok_def seq_ok_def newEmptyNode_def supportAt_def
      genesis_def split: if_splits)

text \<open>
  An accepted insertion is one update along the path of \<open>find\<close>; it keeps the invariant and adds the
  support at one tip.
\<close>

lemma Insert_step:
  assumes t: "trie_ok t" and l: "Seq l \<noteq> MaxUint32" "count \<noteq> 0" "find_trie t l = (path, q)"
    and ins: "Insert t (Some l) count = Inr t'"
  shows "trie_ok t'" and "root t' = graft (\<lambda>b. b + count) path (incLocal q l count) (root t)"
    and "tips P (root t') =
         tips P (root t) + (if P (incTip q l (node_at (root t) path)) then unat count else 0)"
    and "genesis t' = genesis t"
proof -
  let ?loc = "node_at (root t) path" and ?r = "graft (\<lambda>b. b + count) path (incLocal q l count) (root t)"
  have ro: "root_ok (root t)" using t by (simp add: trie_ok_def)
  note loc = find_trie_reaches [OF ro l(1,3)]
  have fits: "unat (branchSupport m) + unat count < 2 ^ 32" if "m \<in> set (nodes_on (root t) path)" for m
    using ins that unfolding Insert_eq [OF ro l] no_overflow [symmetric] by (auto split: if_splits)
  have sfits: "unat (supportAt t (Seq l)) + unat count < 2 ^ 32"
    and add: "seqSupportAdd (t\<lparr>root := ?r\<rparr>) (Seq l) count = Inr t'"
    using ins unfolding Insert_eq [OF ro l] no_overflow [symmetric] by (auto split: if_splits)
  note inc = incLocal_ok [OF loc(3-5) _ loc(6) l(2) fits [OF nodes_on_update_loc]]
  have root: "path = [] \<longrightarrow> q = stop (s ?loc)" using loc(7) by auto
  have r: "root_ok ?r"
  proof -
    have "tnode_ok True ?r \<and> start (s ?r) = start (s (root t)) \<and>
        unat (branchSupport ?r) + 0 = unat (branchSupport (root t)) + unat count"
      using inc(1-3) [OF root] loc(1) ro fits
      by (intro graft_ok) (auto simp: root_ok_def unat_add_no_wrap)
    moreover have "stop (s ?r) = stop (s (root t))"
      using loc(7) by (cases path) (auto simp: incLocal_def Let_def)
    ultimately show ?thesis using ro by (simp add: root_ok_def)
  qed
  have tips: "tips P ?r = tips P (root t) + (if P (incTip q l ?loc) then unat count else 0)" for P
    using graft_tips [OF loc(1), of P "\<lambda>b. b + count" "incLocal q l count"] inc(4) [OF root, of P] by simp
  have so: "seq_ok (t\<lparr>root := ?r\<rparr>)" "supportAt (t\<lparr>root := ?r\<rparr>) k = supportAt t k" for k
    using t by (simp_all add: trie_ok_def seq_ok_def supportAt_def)
  then have t': "seq_ok t'" "root t' = ?r"
    "\<And>k. unat (supportAt t' k) = unat (supportAt t k) + (if k = Seq l then unat count else 0)"
    using seqSupportAdd_ok [OF so(1) l(2), of "Seq l"] sfits add by auto
  then show "root t' = ?r" by simp
  show "tips P (root t') = tips P (root t) + (if P (incTip q l ?loc) then unat count else 0)"
    using tips t'(2) by simp
  show "trie_ok t'"
    using t t' r tips by (auto simp: trie_ok_def incTip_def)
  show "genesis t' = genesis t"
    using loc(7) t'(2) by (cases path) (auto simp: genesis_def incLocal_def Let_def)
qed

text \<open>An insertion fails only when a counter would overflow; the final update of \<open>seqSupport\<close> never does.\<close>

lemma tips_le_branch: "tnode_ok r n \<Longrightarrow> tips P n \<le> unat (branchSupport n)"
proof (induction n arbitrary: r)
  case (TNode sp ts bs cs)
  have "(\<Sum>c\<leftarrow>cs. tips P c) \<le> (\<Sum>c\<leftarrow>cs. unat (branchSupport c))"
    using TNode by (intro sum_list_mono) auto
  then show ?case using TNode.prems by auto
qed

lemma branch_on_path:
  "tnode_ok r n \<Longrightarrow> valid n p \<Longrightarrow> m \<in> set (nodes_on n p) \<Longrightarrow> unat (branchSupport m) \<le> unat (branchSupport n)"
proof (induction p arbitrary: n r)
  case (Cons i p)
  show ?case
  proof (cases "m = n")
    case False
    have i: "i < length (children n)" "valid (children n ! i) p" using Cons.prems(2) by auto
    have ok: "tnode_ok False (children n ! i)" using Cons.prems(1) i by (auto simp: tnode_ok_sel [of r n])
    have "unat (branchSupport m) \<le> unat (branchSupport (children n ! i))"
      using Cons.IH [OF ok i(2)] Cons.prems(3) False by simp
    also have "\<dots> \<le> unat (branchSupport n)"
      using nth_le_sum_list [OF i(1), of "\<lambda>c. unat (branchSupport c)"] Cons.prems(1)
      by (simp add: tnode_ok_sel [of r n])
    finally show ?thesis .
  qed simp
qed simp

lemma Insert_total:
  assumes t: "trie_ok t" and l: "Seq l \<noteq> MaxUint32"
    and fits: "unat (branchSupport (root t)) + unat count < 2 ^ 32"
  shows "\<exists>t'. Insert t (Some l) count = Inr t'"
proof (cases "count = 0")
  case True
  then show ?thesis using l by (simp add: Insert_def)
next
  case False
  obtain path q where f: "find_trie t l = (path, q)" by fastforce
  let ?loc = "node_at (root t) path" and ?r = "graft (\<lambda>b. b + count) path (incLocal q l count) (root t)"
  have ro: "root_ok (root t)" and so: "seq_ok (t\<lparr>root := ?r\<rparr>)"
    using t by (simp_all add: trie_ok_def seq_ok_def)
  note loc = find_trie_reaches [OF ro l f]
  have b: "\<not> branchSupport m > MaxUint32 - count" if "m \<in> set (nodes_on (root t) path)" for m
    unfolding no_overflow using branch_on_path [OF _ loc(1) that, of True] ro fits
    by (simp add: root_ok_def)
  have ts: "\<not> tipSupport ?loc > MaxUint32 - count"
    unfolding no_overflow using branch_on_path [OF _ loc(1) nodes_on_update_loc, of True] ro fits loc(3)
    by (simp add: root_ok_def tnode_ok_sel [of "path = []" ?loc])
  have sq: "unat (supportAt t (Seq l)) + unat count < 2 ^ 32"
    using t tips_le_branch [of True "root t"] ro fits
    by (auto simp: trie_ok_def root_ok_def intro: le_less_trans [rotated])
  have "supportAt (t\<lparr>root := ?r\<rparr>) (Seq l) = supportAt t (Seq l)" by (simp add: supportAt_def)
  then have "\<exists>t'. seqSupportAdd (t\<lparr>root := ?r\<rparr>) (Seq l) count = Inr t'"
    using seqSupportAdd_ok [OF so False, of "Seq l"] sq by auto
  then show ?thesis
    unfolding Insert_eq [OF ro l False f] using b ts sq unfolding no_overflow [symmetric] by auto
qed

text \<open>
  The tip that gains the support is the one of the inserted ledger.  \<open>own_ancestor\<close> is what the interface
  promises of \<open>Ancestor\<close> at the ledger's own sequence, and that a ledger of sequence zero is genesis.
\<close>

definition own_ancestor :: "ledger \<Rightarrow> ledger \<Rightarrow> bool" where
  "own_ancestor g l \<longleftrightarrow> Ancestor l (Seq l) = ID l \<and> (Seq l = 0 \<longrightarrow> ID l = Ancestor g 0)"

definition ledger_tip :: "ledger \<Rightarrow> SpanTip" where
  "ledger_tip l = \<lparr>tipSeq = Seq l, tipID = ID l\<rparr>"

lemma start_below:
  "tnode_ok r n \<Longrightarrow> valid n p \<Longrightarrow> p \<noteq> [] \<Longrightarrow> stop (s n) \<le> start (s (node_at n p))"
proof (induction p arbitrary: n r)
  case (Cons i p)
  have i: "i < length (children n)" "valid (children n ! i) p" using Cons.prems(2) by auto
  have ok: "tnode_ok False (children n ! i)" "start (s (children n ! i)) = stop (s n)"
    using Cons.prems(1) i by (auto simp: tnode_ok_sel [of r n])
  show ?case
  proof (cases "p = []")
    case False
    have "start (s (children n ! i)) < stop (s (children n ! i))"
      using ok(1) by (simp add: tnode_ok_sel [of False "children n ! i"])
    then show ?thesis using Cons.IH [OF ok(1) i(2) False] ok(2) by simp
  qed (use ok in simp)
qed simp

lemma incTip_own:
  assumes "root_ok (root t)" "Seq l \<noteq> MaxUint32" "find_trie t l = (path, q)"
    and "own_ancestor (genesis t) l"
  shows "incTip q l (node_at (root t) path) = ledger_tip l"
proof (cases "q < Seq l + 1")
  case True
  then show ?thesis using assms(4) by (simp add: incTip_def own_ancestor_def ledger_tip_def)
next
  case False
  note loc = find_trie_reaches [OF assms(1-3)]
  let ?loc = "node_at (root t) path" and ?m = "mismatch (ledger_of (s (node_at (root t) path))) l"
  have m: "?m = Seq l + 1"
    using False loc(2,6) mismatch_bounds(2) [OF assms(2), of "ledger_of (s ?loc)"]
      succ_no_wrap [OF assms(2)]
    by (auto simp: reaches_def min_def word_le_nat_alt word_less_nat_alt word_unat_eq_iff split: if_splits)
  have "Ancestor (ledger_of (s ?loc)) (Seq l) = ID l"
  proof (cases "Seq l = 0")
    case True
    then have "start (s ?loc) = 0" using loc(2) m by (simp add: reaches_def word_less_nat_alt unat_eq_0)
    then have "path = []"
      using start_below [OF _ loc(1), of True] assms(1) by (auto simp: root_ok_def)
    then show ?thesis using assms(4) True by (simp add: own_ancestor_def genesis_def)
  next
    case nz: False
    then have "1 < ?m"
      using m succ_no_wrap [OF assms(2)] by (auto simp: word_less_nat_alt unat_gt_0)
    then show ?thesis
      using mismatch_bounds(3) [OF assms(2), of "ledger_of (s ?loc)"] m assms(4)
      by (simp add: own_ancestor_def)
  qed
  then show ?thesis using False by (simp add: incTip_def ledger_tip_def)
qed

section \<open>Remove\<close>

lemma findByIDWalk_Some:
  "findByIDWalk n i = Some p \<Longrightarrow> valid n p \<and> tipID (tip (s (node_at n p))) = i"
  "findByIDs k cs i = Some p \<Longrightarrow>
     \<exists>j q. p = (k + j) # q \<and> j < length cs \<and> valid (cs ! j) q \<and> tipID (tip (s (node_at (cs ! j) q))) = i"
proof (induction n i and k cs i arbitrary: p and p rule: findByIDWalk_findByIDs.induct)
  case (1 sp ts bs cs i)
  then show ?case by (fastforce split: if_splits)
next
  case (3 k child cs i)
  show ?case
  proof (cases "findByIDWalk child i")
    case None
    with 3 obtain j q where "p = (Suc k + j) # q" "j < length cs" "valid (cs ! j) q"
      "tipID (tip (s (node_at (cs ! j) q))) = i" by auto
    then show ?thesis by (intro exI [of _ "Suc j"] exI [of _ q]) simp
  next
    case (Some p')
    then show ?thesis using 3 by (intro exI [of _ 0] exI [of _ p']) simp
  qed
qed simp

lemma findByIDWalk_None:
  "findByIDWalk n i = None \<Longrightarrow> tips (\<lambda>x. tipID x = i) n = 0"
  "findByIDs k cs i = None \<Longrightarrow> (\<Sum>c\<leftarrow>cs. tips (\<lambda>x. tipID x = i) c) = 0"
  by (induction n i and k cs i rule: findByIDWalk_findByIDs.induct) (auto split: if_splits option.splits)

lemma swap_pop_sum:
  fixes f :: "'a \<Rightarrow> nat"
  assumes "i < length xs"
  shows "(\<Sum>x\<leftarrow>swap_pop i xs. f x) + f (xs ! i) = (\<Sum>x\<leftarrow>xs. f x)"
proof -
  have ne: "xs \<noteq> []" using assms by auto
  have "last (xs[i := last xs]) = last xs" using ne by (simp add: last_list_update)
  then have "xs[i := last xs] = swap_pop i xs @ [last xs]"
    using ne append_butlast_last_id [of "xs[i := last xs]"] by (simp add: swap_pop_def)
  then have "(\<Sum>x\<leftarrow>xs[i := last xs]. f x) = (\<Sum>x\<leftarrow>swap_pop i xs. f x) + f (last xs)" by simp
  then show ?thesis using sum_list_update [OF assms, of f "last xs"] by simp
qed

lemma swap_pop_mem:
  assumes "x \<in> set (swap_pop i xs)" "i < length xs"
  shows "\<exists>j < length xs. j \<noteq> i \<and> x = xs ! j"
proof -
  obtain j where j: "j < length xs - 1" "x = xs[i := last xs] ! j"
    using assms(1) by (auto simp: swap_pop_def in_set_conv_nth nth_butlast)
  show ?thesis
  proof (cases "j = i")
    case True
    then have "x = xs ! (length xs - 1)" using j assms(2) last_conv_nth [of xs] by force
    then show ?thesis using j(1) True by (intro exI [of _ "length xs - 1"]) auto
  next
    case False
    then show ?thesis using j by (intro exI [of _ j]) auto
  qed
qed

lemma swap_pop_append: "i < length xs \<Longrightarrow> swap_pop i (xs @ [y]) = xs[i := y]"
  by (simp add: swap_pop_def list_update_append)

end
