(* ===== verification/Ledger_Trie_Support.thy ===== *)
theory Ledger_Trie_Support
  imports Ledger_Trie_Inv
begin

text \<open>
  \<open>Remove\<close> with its compaction loop keeps the invariant of the ancestry trie; the invariant gives the
  program's own \<open>CheckInvariants\<close>; every sequence of insertions and removals keeps, for each ledger, the
  support it was given.
\<close>

section \<open>Compaction\<close>

lemma update_at_graft: "update_at p f n = graft (\<lambda>b. b) p f n"
  by (induction p arbitrary: n) auto

lemma node_at_snoc: "p \<noteq> [] \<Longrightarrow> node_at n p = children (node_at n (butlast p)) ! last p"
  by (induction p arbitrary: n) auto

lemma merge_ok:
  assumes ok: "tnode_ok True loc" and zero: "tipSupport loc = 0" and one: "children loc = [child]"
    and m: "m = TNode (mergeSpans (s loc) (s child)) (tipSupport child) (branchSupport child) (children child)"
  shows "tnode_ok False m" and "start (s m) = start (s loc)" and "tips P m = tips P loc"
    and "branchSupport m = branchSupport loc"
proof -
  have loc: "start (s loc) < stop (s loc)" "start (s child) = stop (s loc)" "tnode_ok False child"
    "unat (branchSupport loc) = unat (branchSupport child)"
    using ok one zero by (auto simp: tnode_ok_sel [of True loc])
  have c: "start (s child) < stop (s child)" using loc(3) by (simp add: tnode_ok_sel [of False child])
  have sp: "mergeSpans (s loc) (s child) =
      \<lparr>start = start (s loc), stop = stop (s child), ledger_of = ledger_of (s child)\<rparr>"
    using loc(1,2) c by (auto simp: mergeSpans_def min_def Let_def)
  show "tnode_ok False m"
    using loc c by (auto simp: m sp tnode_ok_sel [of False child])
  show "start (s m) = start (s loc)" by (simp add: m sp)
  show "tips P m = tips P loc"
    using zero one by (simp add: m sp tips_sel [of P loc] tips_sel [of P child] tip_def)
  show "branchSupport m = branchSupport loc" using loc(4) by (simp add: m word_unat_eq_iff)
qed

lemma compactStep_ok:
  assumes ctx: "ctx_ok [i] r parent" and ok: "tnode_ok True (children parent ! i)"
    and zero: "tipSupport (children parent ! i) = 0" and step: "compactStep i parent = Some parent'"
  shows "tnode_ok True parent'" and "s parent' = s parent"
    and "branchSupport parent' = branchSupport parent" and "tips P parent' = tips P parent"
proof -
  let ?loc = "children parent ! i"
  have i: "i < length (children parent)" and local: "start (s parent) < stop (s parent)"
    "unat (branchSupport parent) =
       unat (tipSupport parent) + (\<Sum>c\<leftarrow>children parent. unat (branchSupport c))"
    and starts: "\<forall>c \<in> set (children parent). start (s c) = stop (s parent)"
    and others: "\<forall>j < length (children parent). j \<noteq> i \<longrightarrow> tnode_ok False (children parent ! j)"
    using ctx by auto
  show "s parent' = s parent" "branchSupport parent' = branchSupport parent"
    using step by (auto simp: compactStep_def eraseChild_def add_child_def Let_def split: list.splits)
  have "tnode_ok True parent' \<and> tips P parent' = tips P parent"
  proof (cases "children ?loc")
    case Nil
    then have p': "parent' = TNode (s parent) (tipSupport parent) (branchSupport parent)
        (swap_pop i (children parent))"
      using step by (simp add: compactStep_def eraseChild_def Let_def)
    have "unat (branchSupport ?loc) = 0" "tips P ?loc = 0"
      using Nil ok zero by (simp_all add: tnode_ok_sel [of True ?loc] tips_sel [of P ?loc])
    moreover have "start (s c) = stop (s parent) \<and> tnode_ok False c"
      if c: "c \<in> set (swap_pop i (children parent))" for c
    proof -
      obtain j where "j < length (children parent)" "j \<noteq> i" "c = children parent ! j"
        using swap_pop_mem [OF c i] by blast
      then show ?thesis using starts others by simp
    qed
    ultimately show ?thesis
      using swap_pop_sum [OF i, of "\<lambda>c. unat (branchSupport c)"] swap_pop_sum [OF i, of "tips P"] local
      by (simp add: p' tips_sel [of P parent])
  next
    case (Cons child rest)
    then have one: "children ?loc = [child]"
      using step by (auto simp: compactStep_def Let_def split: list.splits)
    define m where "m = TNode (mergeSpans (s ?loc) (s child)) (tipSupport child) (branchSupport child)
        (children child)"
    have p': "parent' = TNode (s parent) (tipSupport parent) (branchSupport parent)
        ((children parent)[i := m])"
      using step one i by (simp add: compactStep_def eraseChild_def add_child_def Let_def swap_pop_append m_def)
    note m = merge_ok [OF ok zero one m_def]
    have "\<forall>c \<in> set ((children parent)[i := m]). start (s c) = stop (s parent) \<and> tnode_ok False c"
      using m(1,2) starts others i by (auto simp: all_set_conv_all_nth nth_list_update)
    then show ?thesis
      using sum_list_update [OF i, of "\<lambda>c. unat (branchSupport c)" m] sum_list_update [OF i, of "tips P" m]
        local m(3) [of P] m(4) by (simp add: p' tips_sel [of P parent])
  qed
  then show "tnode_ok True parent'" "tips P parent' = tips P parent" by auto
qed

text \<open>
  The loop repairs the one node that may have lost its tip, and nothing else changes.  A step leaves a
  trie in which only the parent may need the next repair.
\<close>

lemma compact_state:
  assumes ctx: "ctx_ok p True n" and loc: "tnode_ok True (node_at n p)"
    and p: "tipSupport (node_at n p) = 0" "p \<noteq> []"
    and step: "compactStep (last p) (node_at n (butlast p)) = Some parent'"
    and n': "n' = update_at (butlast p) (\<lambda>_. parent') n"
  shows "ctx_ok (butlast p) True n'" and "tnode_ok True (node_at n' (butlast p))" and "s n' = s n"
    and "branchSupport n' = branchSupport n" and "tips P n' = tips P n"
    and "ctx_ok [last p] (butlast p = []) (node_at n (butlast p))" and "ctx_ok (butlast p) True n"
proof -
  show c: "ctx_ok [last p] (butlast p = []) (node_at n (butlast p))" "ctx_ok (butlast p) True n"
    using ctx p(2) ctx_ok_append [of "butlast p" "[last p]" True n] by auto
  note st = compactStep_ok [OF c(1) _ _ step, folded node_at_snoc [OF p(2)], OF loc p(1)]
  show "ctx_ok (butlast p) True n'" "branchSupport n' = branchSupport n"
    using ctx_graft [OF c(2), of "\<lambda>_. parent'" 0 0 "\<lambda>b. b"] st
    by (simp_all add: n' update_at_graft word_unat_eq_iff)
  show "tnode_ok True (node_at n' (butlast p))" "s n' = s n" "tips P n' = tips P n"
    using ctx_ok_valid [OF c(2)] st graft_tips [OF ctx_ok_valid [OF c(2)], of P "\<lambda>b. b" "\<lambda>_. parent'"]
    by (cases "butlast p"; simp add: n' update_at_graft)+
qed

lemma compactLoop_stop:
  assumes "\<not> (tipSupport (node_at n p) = 0 \<and> p \<noteq> [] \<and> compactStep (last p) (node_at n (butlast p)) \<noteq> None)"
    and "ctx_ok p True n" "tnode_ok True (node_at n p)"
  shows "compactLoop n p = n" and "tnode_ok True n"
proof -
  show "compactLoop n p = n" using assms(1) by (subst compactLoop.simps) auto
  have "tipSupport (node_at n p) \<noteq> 0 \<or> 2 \<le> length (children (node_at n p))" if "p \<noteq> []"
    using assms(1) that node_at_snoc [OF that, of n] by (auto simp: compactStep_def Let_def split: list.splits)
  then have "tnode_ok (True \<and> p = []) (node_at n p)"
    using assms(3) by (auto simp: tnode_ok_sel [of _ "node_at n p"])
  then show "tnode_ok True n" by (rule ctx_tnode_ok [OF assms(2)])
qed

lemma compactLoop_rule:
  "ctx_ok p True n \<Longrightarrow> tnode_ok True (node_at n p) \<Longrightarrow> Q n \<Longrightarrow>
     (\<And>p n parent'. ctx_ok p True n \<Longrightarrow> tnode_ok True (node_at n p) \<Longrightarrow> Q n \<Longrightarrow>
        tipSupport (node_at n p) = 0 \<Longrightarrow> p \<noteq> [] \<Longrightarrow>
        compactStep (last p) (node_at n (butlast p)) = Some parent' \<Longrightarrow>
        Q (update_at (butlast p) (\<lambda>_. parent') n)) \<Longrightarrow>
     Q (compactLoop n p) \<and> tnode_ok True (compactLoop n p)"
proof (induction n p rule: compactLoop.induct)
  case (1 n p)
  show ?case
  proof (cases "tipSupport (node_at n p) = 0 \<and> p \<noteq> [] \<and> compactStep (last p) (node_at n (butlast p)) \<noteq> None")
    case False
    then show ?thesis using compactLoop_stop [OF False "1.prems"(1,2)] "1.prems"(3) by simp
  next
    case True
    then obtain parent' where step: "compactStep (last p) (node_at n (butlast p)) = Some parent'"
      and p: "tipSupport (node_at n p) = 0" "p \<noteq> []" by auto
    let ?n = "update_at (butlast p) (\<lambda>_. parent') n"
    note st = compact_state [OF "1.prems"(1,2) p step refl]
    have "Q ?n" using "1.prems"(4) [OF "1.prems"(1-3) p step] .
    then have "Q (compactLoop ?n (butlast p)) \<and> tnode_ok True (compactLoop ?n (butlast p))"
      using "1.IH" [OF _ step st(1,2)] p "1.prems"(4) by blast
    moreover have "compactLoop n p = compactLoop ?n (butlast p)"
      using p step by (subst compactLoop.simps) simp
    ultimately show ?thesis by simp
  qed
qed

lemma compactLoop_ok:
  assumes "ctx_ok p True n" "tnode_ok True (node_at n p)"
  shows "tnode_ok True (compactLoop n p) \<and> s (compactLoop n p) = s n \<and>
     branchSupport (compactLoop n p) = branchSupport n \<and> tips P (compactLoop n p) = tips P n"
  using compactLoop_rule [OF assms, of "\<lambda>m. s m = s n \<and> branchSupport m = branchSupport n \<and> tips P m = tips P n"]
    compact_state(3-5) [OF _ _ _ _ _ refl] by simp

section \<open>Remove\<close>

lemma tip_le_tips:
  "valid n p \<Longrightarrow> P (tip (s (node_at n p))) \<Longrightarrow> unat (tipSupport (node_at n p)) \<le> tips P n"
proof (induction p arbitrary: n)
  case Nil
  then show ?case by (simp add: tips_sel [of P n])
next
  case (Cons i p)
  then have i: "i < length (children n)"
    and "unat (tipSupport (node_at n (i # p))) \<le> tips P (children n ! i)" by auto
  then show ?case using nth_le_sum_list [OF i, of "tips P"] by (simp add: tips_sel [of P n])
qed

lemma branch_loc_le:
  "valid n p \<Longrightarrow> tnode_ok r n \<Longrightarrow> m \<in> set (nodes_on n p) \<Longrightarrow>
     unat (branchSupport (node_at n p)) \<le> unat (branchSupport m)"
proof (induction p arbitrary: n r)
  case (Cons i p)
  then have c: "valid (children n ! i) p" "tnode_ok False (children n ! i)"
    by (auto simp: tnode_ok_sel [of r n])
  show ?case
  proof (cases "m = n")
    case True
    then show ?thesis using branch_on_path [OF Cons.prems(2,1) nodes_on_update_loc] by simp
  next
    case False
    then show ?thesis using Cons.IH [OF c] Cons.prems(3) by simp
  qed
qed simp

text \<open>The state between the subtraction of the support and the compaction.\<close>

lemma lowered_ok:
  assumes ro: "root_ok r" and v: "valid r path" and c: "c \<le> tipSupport (node_at r path)"
    and r2: "r2 = map_on (\<lambda>b. b - c) path (update_at path (sub_tip c) r)"
  shows "ctx_ok path True r2" and "tnode_ok True (node_at r2 path)" and "s r2 = s r"
    and "tips P r2 + (if P (tip (s (node_at r path))) then unat c else 0) = tips P r"
proof -
  let ?loc = "node_at r path" and ?f = "\<lambda>m. map_on (\<lambda>b. b - c) [] (sub_tip c m)"
  have r2': "r2 = graft (\<lambda>b. b - c) path ?f r" using r2 map_on_update [OF v] by simp
  have ok: "ctx_ok path True r" "tnode_ok (path = []) ?loc"
    using tnode_ok_ctx [OF _ v, of True] ro by (auto simp: root_ok_def)
  have le: "c \<le> branchSupport m" if m: "m \<in> set (nodes_on r path)" for m
  proof -
    have "unat c \<le> unat (branchSupport ?loc)"
      using c ok(2) by (simp add: tnode_ok_sel [of _ ?loc] word_le_nat_alt)
    then show ?thesis using branch_loc_le [OF v _ m, of True] ro by (simp add: root_ok_def word_le_nat_alt)
  qed
  have sub: "unat (x - c) + unat c = unat x" if "c \<le> x" for x
    using that by (simp add: unat_sub word_le_nat_alt)
  have tl: "unat (tipSupport ?loc - c) + unat c = unat (tipSupport ?loc)"
    and bl: "unat (branchSupport ?loc - c) + unat c = unat (branchSupport ?loc)"
    using sub c le nodes_on_update_loc by blast+
  show "ctx_ok path True r2"
    using ctx_graft [OF ok(1), of ?f "unat c" 0 "\<lambda>b. b - c"] bl sub le by (simp add: r2' sub_tip_def)
  have "node_at r2 path = ?f ?loc" using v by (simp add: r2')
  then show "tnode_ok True (node_at r2 path)"
    using ok(2) tl bl by (auto simp: sub_tip_def tnode_ok_sel [of _ ?loc])
  show "s r2 = s r" by (cases path) (simp_all add: r2' sub_tip_def)
  have "tips P (?f ?loc) + (if P (tip (s ?loc)) then unat c else 0) = tips P ?loc"
    using tl by (simp add: sub_tip_def tips_sel [of P ?loc])
  then show "tips P r2 + (if P (tip (s ?loc)) then unat c else 0) = tips P r"
    using graft_tips [OF v, of P "\<lambda>b. b - c" ?f] by (simp add: r2')
qed

lemma Remove_core:
  assumes t: "trie_ok t" and f: "findByLedgerID t l = Some path"
    and nz: "tipSupport (node_at (root t) path) \<noteq> 0"
    and seq: "Seq l = stop (s (node_at (root t) path)) - 1"
    and c: "c = (if count > tipSupport (node_at (root t) path)
                 then tipSupport (node_at (root t) path) else count)"
  shows "\<exists>t'. Remove_trie t l count = Inr (True, t') \<and> trie_ok t' \<and> genesis t' = genesis t \<and>
     (\<forall>P. tips P (root t') + (if P (ledger_tip l) then unat c else 0) = tips P (root t)) \<and>
     root t' = compactLoop (map_on (\<lambda>b. b - c) path (update_at path (sub_tip c) (root t))) path"
proof -
  let ?loc = "node_at (root t) path" and ?r1 = "update_at path (sub_tip c) (root t)"
  have v: "valid (root t) path" and tp: "tip (s ?loc) = ledger_tip l"
    using findByIDWalk_Some(1) [of "root t" "ID l" path] f seq
    by (auto simp: findByLedgerID_def tip_def ledger_tip_def)
  have ro: "root_ok (root t)" and so: "seq_ok t" using t by (simp_all add: trie_ok_def)
  have c_le: "c \<le> tipSupport ?loc" using c by auto
  have "unat (tipSupport ?loc) \<le> unat (supportAt t (Seq l))"
    using tip_le_tips [OF v, of "\<lambda>x. tipSeq x = Seq l"] t seq by (simp add: trie_ok_def tip_def)
  then obtain cur where cur: "map_of (seqSupport t) (Seq l) = Some cur" "c \<le> cur"
    using nz c_le
    by (auto simp: supportAt_def word_le_nat_alt unat_eq_0 split: option.splits)
  have so1: "seq_ok (t\<lparr>root := ?r1\<rparr>)" and m1: "map_of (seqSupport (t\<lparr>root := ?r1\<rparr>)) (Seq l) = Some cur"
    using so cur by (simp_all add: seq_ok_def)
  obtain t2 where t2: "seqSupportSub (t\<lparr>root := ?r1\<rparr>) (Seq l) c = Inr t2" "seq_ok t2" "root t2 = ?r1"
    "\<And>k. unat (supportAt t2 k) + (if k = Seq l then unat c else 0) = unat (supportAt t k)"
    using seqSupportSub_ok [OF so1 m1 cur(2)] by (auto simp: supportAt_def)
  define r2 where "r2 = map_on (\<lambda>b. b - c) path ?r1"
  note low = lowered_ok [OF ro v c_le r2_def]
  note cmp = compactLoop_ok [OF low(1,2)]
  let ?t' = "t2\<lparr>root := compactLoop r2 path\<rparr>"
  have tips: "tips P (root ?t') + (if P (ledger_tip l) then unat c else 0) = tips P (root t)" for P
    using cmp [of P] low(4) [of P] tp by simp
  have "Remove_trie t l count = Inr (True, ?t')"
    using f nz seq cur t2(1,3) c by (auto simp: Remove_trie_def Let_def r2_def)
  moreover have "trie_ok ?t'"
  proof -
    have "unat (supportAt ?t' k) = tips (\<lambda>x. tipSeq x = k) (root ?t')" for k
      using tips [of "\<lambda>x. tipSeq x = k"] t2(4) [of k] t
      by (auto simp: trie_ok_def supportAt_def ledger_tip_def split: if_splits)
    then show ?thesis
      using cmp [of "\<lambda>_. True"] low(3) ro t2(2) by (simp add: trie_ok_def root_ok_def seq_ok_def)
  qed
  moreover have "genesis ?t' = genesis t" using cmp [of "\<lambda>_. True"] low(3) by (simp add: genesis_def)
  moreover have "root ?t' = compactLoop (map_on (\<lambda>b. b - c) path ?r1) path" by (simp add: r2_def)
  ultimately show ?thesis using tips by blast
qed

section \<open>The program's own check\<close>

definition expectedAt :: "(u32 \<times> u64) list \<Rightarrow> u32 \<Rightarrow> nat" where
  "expectedAt e k = (case map_of e k of Some v \<Rightarrow> unat v | None \<Rightarrow> 0)"

definition expected_ok :: "(u32 \<times> u64) list \<Rightarrow> bool" where
  "expected_ok e \<longleftrightarrow> distinct (map fst e) \<and> (\<forall>k. map_of e k \<noteq> Some 0)"

lemma sumBranches_sum:
  "unat acc + (\<Sum>c\<leftarrow>cs. unat (branchSupport c)) < 2 ^ 64 \<Longrightarrow>
     unat (sumBranches acc cs) = unat acc + (\<Sum>c\<leftarrow>cs. unat (branchSupport c))"
proof (induction cs arbitrary: acc)
  case (Cons c cs)
  have "unat (acc + ucast (branchSupport c)) = unat acc + unat (branchSupport c)"
    using Cons.prems unat_word_ariths(1) [of acc "ucast (branchSupport c)"] by (simp add: unat_ucast_32_64)
  then show ?case using Cons.IH [of "acc + ucast (branchSupport c)"] Cons.prems by (simp add: sumBranches_def)
qed (simp add: sumBranches_def)

lemma addExpected_ok:
  assumes "expected_ok e" "\<And>k. expectedAt e k + tips (\<lambda>x. tipSeq x = k) n < 2 ^ 32"
  shows "\<exists>e'. addExpected e n = Some e' \<and> expected_ok e' \<and>
     (\<forall>k. expectedAt e' k = expectedAt e k + (if stop (s n) - 1 = k then unat (tipSupport n) else 0))"
proof (cases "tipSupport n = 0")
  case True
  then show ?thesis using assms(1) by (simp add: addExpected_def)
next
  case False
  let ?k = "stop (s n) - 1"
  let ?v = "(case map_of e ?k of Some v \<Rightarrow> v | None \<Rightarrow> 0) + ucast (tipSupport n)"
  have old: "unat (case map_of e ?k of Some v \<Rightarrow> v | None \<Rightarrow> 0) = expectedAt e ?k"
    by (simp add: expectedAt_def split: option.splits)
  have le: "expectedAt e ?k + unat (tipSupport n) < 2 ^ 32"
    using assms(2) [of ?k] by (simp add: tips_sel [of _ n] tip_def)
  then have v: "unat ?v = expectedAt e ?k + unat (tipSupport n)"
    using unat_word_ariths(1) [of "case map_of e ?k of Some v \<Rightarrow> v | None \<Rightarrow> 0" "ucast (tipSupport n)"] old
    by (simp add: unat_ucast_32_64)
  have "unat ?v \<noteq> 0" using v False by (simp add: unat_eq_0)
  then have nz: "?v \<noteq> 0" by (metis unat_0)
  have max: "unat (ucast MaxUint32 :: u64) = 2 ^ 32 - 1" by (simp add: unat_ucast_32_64 MaxUint32_def)
  have "\<not> ?v > ucast MaxUint32" using v le max by (simp add: word_less_nat_alt)
  then have "addExpected e n = Some (AList.update ?k ?v e)"
    using False by (simp add: addExpected_def Let_def)
  moreover have "expected_ok (AList.update ?k ?v e)"
    using assms(1) nz by (auto simp: expected_ok_def update_conv' distinct_update)
  moreover have "expectedAt (AList.update ?k ?v e) k =
      expectedAt e k + (if ?k = k then unat (tipSupport n) else 0)" for k
    using v by (auto simp: expectedAt_def update_conv')
  ultimately show ?thesis by blast
qed

lemma checkWalk_ok:
  assumes "\<forall>(r, n) \<in> set st. tnode_ok r n" "expected_ok e"
    and "\<And>k. expectedAt e k + (\<Sum>(r, n)\<leftarrow>st. tips (\<lambda>x. tipSeq x = k) n) < 2 ^ 32"
  shows "\<exists>e'. checkWalk st e = Some e' \<and> expected_ok e' \<and>
     (\<forall>k. expectedAt e' k = expectedAt e k + (\<Sum>(r, n)\<leftarrow>st. tips (\<lambda>x. tipSeq x = k) n))"
  using assms
proof (induction st e rule: checkWalk.induct)
  case (2 r n st e)
  let ?T = "\<lambda>k n. tips (\<lambda>x. tipSeq x = k) n"
  have n: "tnode_ok r n" using "2.prems"(1) by simp
  have "expectedAt e k + ?T k n < 2 ^ 32" for k using "2.prems"(3) [of k] by simp
  then obtain e1 where e1: "addExpected e n = Some e1" "expected_ok e1"
    "\<And>k. expectedAt e1 k = expectedAt e k + (if stop (s n) - 1 = k then unat (tipSupport n) else 0)"
    using addExpected_ok [OF "2.prems"(2), of n] by blast
  have sum: "unat (sumBranches (ucast (tipSupport n)) (children n)) = unat (branchSupport n)"
    using n sumBranches_sum [of "ucast (tipSupport n)" "children n"] unat_lt_32 [of "branchSupport n"]
    by (simp add: tnode_ok_sel [of r n] unat_ucast_32_64)
  then have eq: "sumBranches (ucast (tipSupport n)) (children n) = ucast (branchSupport n)"
    by (simp add: word_unat_eq_iff unat_ucast_32_64)
  have max: "\<not> ucast (branchSupport n) > (ucast MaxUint32 :: u64)"
    using unat_lt_32 [of "branchSupport n"] by (simp add: word_less_nat_alt unat_ucast_32_64 MaxUint32_def)
  let ?st = "rev (map (Pair False) (children n)) @ st"
  have kids: "(\<Sum>(r, c)\<leftarrow>rev (map (Pair False) (children n)). ?T k c) = (\<Sum>c\<leftarrow>children n. ?T k c)" for k
    by (simp add: rev_map comp_def sum_list_rev flip: rev_map)
  have st: "expectedAt e1 k + (\<Sum>(r, n)\<leftarrow>?st. ?T k n) =
      expectedAt e k + (\<Sum>(r, n)\<leftarrow>(r, n) # st. ?T k n)" for k
    using e1(3) [of k] kids [of k] by (simp add: tips_sel [of _ n] tip_def)
  have step: "checkWalk ((r, n) # st) e = checkWalk ?st e1"
    using n e1(1) eq max by (auto simp: tnode_ok_sel [of r n] Let_def)
  have "\<forall>(r, n) \<in> set ?st. tnode_ok r n" using "2.prems"(1) n by (auto simp: tnode_ok_sel [of r n])
  moreover have "expectedAt e1 k + (\<Sum>(r, n)\<leftarrow>?st. ?T k n) < 2 ^ 32" for k
    using "2.prems"(3) [of k] by (simp only: st)
  moreover have "\<not> start (s n) \<ge> stop (s n)" "\<not> (\<not> r \<and> tipSupport n = 0 \<and> length (children n) < 2)"
    "\<not> (sumBranches (ucast (tipSupport n)) (children n) > ucast MaxUint32 \<or>
        sumBranches (ucast (tipSupport n)) (children n) \<noteq> ucast (branchSupport n))"
    using n eq max by (auto simp: tnode_ok_sel [of r n])
  ultimately have "\<exists>e'. checkWalk ?st e1 = Some e' \<and> expected_ok e' \<and>
      (\<forall>k. expectedAt e' k = expectedAt e1 k + (\<Sum>(r, n)\<leftarrow>?st. ?T k n))"
    using "2.IH" [OF _ _ e1(1) refl] e1(2) by blast
  then show ?case using step st by metis
qed simp

lemma keysOk_ok:
  "sorted_wrt (<) ks \<Longrightarrow> (\<forall>k \<in> set ks. \<exists>v. map_of (seqSupport t) k = Some v \<and> v \<noteq> 0) \<Longrightarrow>
     (\<forall>p. prev = Some p \<longrightarrow> (\<forall>k \<in> set ks. p < k)) \<Longrightarrow> keysOk t prev ks"
proof (induction ks arbitrary: prev)
  case (Cons k ks)
  have "keysOk t (Some k) ks" using Cons.prems(1,2) by (intro Cons.IH) auto
  then show ?case using Cons.prems(2,3) by (cases prev) auto
qed simp

lemma length_dom: "distinct (map fst m) \<Longrightarrow> length m = card (dom (map_of m))"
  by (metis distinct_card dom_map_of_conv_image_fst length_map list.set_map)

lemma expected_dom: "expected_ok e \<Longrightarrow> k \<in> dom (map_of e) \<longleftrightarrow> expectedAt e k \<noteq> 0"
  by (cases "map_of e k") (auto simp: expected_ok_def expectedAt_def unat_eq_0 domIff)

lemma seq_dom: "seq_ok t \<Longrightarrow> k \<in> dom (map_of (seqSupport t)) \<longleftrightarrow> unat (supportAt t k) \<noteq> 0"
  by (cases "map_of (seqSupport t) k") (auto simp: seq_ok_def supportAt_def unat_eq_0 domIff)

lemma CheckInvariants_ok:
  assumes t: "trie_ok t"
  shows "CheckInvariants t"
proof -
  have so: "seq_ok t" and ro: "tnode_ok True (root t)"
    and seq: "\<And>k. unat (supportAt t k) = tips (\<lambda>x. tipSeq x = k) (root t)"
    using t by (simp_all add: trie_ok_def root_ok_def)
  have "expectedAt [] k + (\<Sum>(r, n)\<leftarrow>[(True, root t)]. tips (\<lambda>x. tipSeq x = k) n) < 2 ^ 32" for k
    using seq [of k] unat_lt_32 [of "supportAt t k"] by (simp add: expectedAt_def)
  then obtain e where e: "checkWalk [(True, root t)] [] = Some e" "expected_ok e"
    "\<And>k. expectedAt e k = unat (supportAt t k)"
    using checkWalk_ok [of "[(True, root t)]" "[]"] ro seq by (auto simp: expected_ok_def expectedAt_def)
  have "dom (map_of e) = dom (map_of (seqSupport t))"
    by (rule set_eqI) (simp only: expected_dom [OF e(2)] seq_dom [OF so] e(3))
  then have "length e = length (seqSupport t)"
    using e(2) so by (simp add: length_dom expected_ok_def seq_ok_def)
  moreover have "ucast (supportAt t k) = v" if "(k, v) \<in> set e" for k v
  proof -
    have "map_of e k = Some v" using that e(2) by (simp add: expected_ok_def)
    then show ?thesis using e(3) [of k] by (simp add: expectedAt_def word_unat_eq_iff unat_ucast_32_64)
  qed
  moreover have "length (seqKeys t) = length (seqSupport t)"
    using so distinct_card [of "seqKeys t"] by (simp add: seq_ok_def length_dom strict_sorted_iff)
  moreover have "keysOk t None (seqKeys t)"
    using so by (intro keysOk_ok) (auto simp: seq_ok_def)
  ultimately show ?thesis using e(1) by (auto simp: CheckInvariants_def)
qed

section \<open>Removal and reachable tries\<close>

lemma Remove_step:
  assumes t: "trie_ok t" and r: "Remove_trie t l count = Inr (found, t')"
  shows "trie_ok t'" and "genesis t' = genesis t" and "found \<longleftrightarrow> TipSupport t l \<noteq> 0"
    and "tips P (root t') + (if P (ledger_tip l) then min (unat count) (unat (TipSupport t l)) else 0) =
         tips P (root t)"
proof -
  have "trie_ok t' \<and> genesis t' = genesis t \<and> (found \<longleftrightarrow> TipSupport t l \<noteq> 0) \<and>
      tips P (root t') + (if P (ledger_tip l) then min (unat count) (unat (TipSupport t l)) else 0) =
      tips P (root t)"
  proof (cases "findByLedgerID t l = None \<or> TipSupport t l = 0")
    case True
    then have "Remove_trie t l count = Inr (False, t)" "TipSupport t l = 0"
      by (auto simp: Remove_trie_def TipSupport_def Let_def split: option.splits)
    then show ?thesis using t r by simp
  next
    case False
    then obtain path where f: "findByLedgerID t l = Some path"
      and ts: "TipSupport t l = tipSupport (node_at (root t) path)" by (auto simp: TipSupport_def)
    have nz: "tipSupport (node_at (root t) path) \<noteq> 0" using False ts by simp
    have seq: "Seq l = stop (s (node_at (root t) path)) - 1"
      using r f nz by (auto simp: Remove_trie_def Let_def split: if_splits)
    define c where "c = (if count > TipSupport t l then TipSupport t l else count)"
    have c: "unat c = min (unat count) (unat (TipSupport t l))"
      by (auto simp: c_def min_def word_less_nat_alt)
    obtain u where u: "Remove_trie t l count = Inr (True, u)" "trie_ok u" "genesis u = genesis t"
      "\<And>P. tips P (root u) + (if P (ledger_tip l) then unat c else 0) = tips P (root t)"
      using Remove_core [OF t f nz seq refl, of count, folded ts, folded c_def] by blast
    show ?thesis using r False u(1-3) u(4) [of P] c by (simp split: if_splits)
  qed
  then show "trie_ok t'" "genesis t' = genesis t" "found \<longleftrightarrow> TipSupport t l \<noteq> 0"
    "tips P (root t') + (if P (ledger_tip l) then min (unat count) (unat (TipSupport t l)) else 0) =
      tips P (root t)" by blast+
qed

text \<open>The one panic of a removal: a supported tip with the ledger's id at another sequence.\<close>

lemma Remove_total:
  assumes t: "trie_ok t" and "tips (\<lambda>x. tipID x = ID l \<and> tipSeq x \<noteq> Seq l) (root t) = 0"
  shows "\<exists>found t'. Remove_trie t l count = Inr (found, t')"
proof (cases "findByLedgerID t l = None \<or> TipSupport t l = 0")
  case True
  then show ?thesis by (auto simp: Remove_trie_def TipSupport_def Let_def split: option.splits)
next
  case False
  then obtain path where f: "findByLedgerID t l = Some path"
    and nz: "tipSupport (node_at (root t) path) \<noteq> 0" by (auto simp: TipSupport_def)
  have v: "valid (root t) path" "tipID (tip (s (node_at (root t) path))) = ID l"
    using findByIDWalk_Some(1) f by (auto simp: findByLedgerID_def)
  have "tipSeq (tip (s (node_at (root t) path))) = Seq l"
    using tip_le_tips [OF v(1), of "\<lambda>x. tipID x = ID l \<and> tipSeq x \<noteq> Seq l"] v(2) nz assms(2)
    by (auto simp: unat_eq_0)
  then have seq: "Seq l = stop (s (node_at (root t) path)) - 1" by (simp add: tip_def)
  show ?thesis using Remove_core [OF t f nz seq refl] by blast
qed

lemma Insert_ok: "trie_ok t \<Longrightarrow> Insert t ol count = Inr t' \<Longrightarrow> trie_ok t' \<and> genesis t' = genesis t"
proof -
  assume t: "trie_ok t" and r: "Insert t ol count = Inr t'"
  obtain l where ol: "ol = Some l" using r by (cases ol) (simp_all add: Insert_def)
  have "Seq l \<noteq> MaxUint32" using r by (rule contrapos_pn) (simp add: ol Insert_def)
  note l = ol this
  obtain path q where f: "find_trie t l = (path, q)" by fastforce
  show ?thesis
  proof (cases "count = 0")
    case True
    then show ?thesis using t r l by (simp add: Insert_def)
  next
    case False
    then show ?thesis using Insert_step [OF t l(2) False f] r l(1) by blast
  qed
qed

end
