(* ===== verification/Ledger_Trie_Prefer.thy ===== *)
theory Ledger_Trie_Prefer
  imports Ledger_Trie_Support "HOL-Library.Multiset"
begin

text \<open>
  \<open>GetPreferred\<close> of the ancestry trie: it never panics, it follows at every fork a child that no sibling
  outranks, and the reordering of the children it leaves behind changes no support.
\<close>

section \<open>The order of the children\<close>

lemma nodeOutranks_alt:
  "nodeOutranks a b \<longleftrightarrow> branchSupport a > branchSupport b \<or>
     branchSupport a = branchSupport b \<and> startID (s a) > startID (s b)"
  by (auto simp: nodeOutranks_def ledgerIDGreater_def)

lemma nodeOutranks_le_trans: "\<not> nodeOutranks x b \<Longrightarrow> nodeOutranks c b \<Longrightarrow> \<not> nodeOutranks x c"
  by (auto simp: nodeOutranks_alt)

lemma nodeOutranks_asym: "nodeOutranks a b \<Longrightarrow> \<not> nodeOutranks b a"
  by (auto simp: nodeOutranks_alt)

lemma nodeOutranks_irrefl: "\<not> nodeOutranks a a"
  by (simp add: nodeOutranks_alt)

lemma rankLoop_best:
  "rankLoop cs is (b, d) = (b', d') \<Longrightarrow> \<forall>j \<in> J. \<not> nodeOutranks (cs ! j) (cs ! b) \<Longrightarrow>
     \<forall>j \<in> J \<union> set is. \<not> nodeOutranks (cs ! j) (cs ! b')"
proof (induction cs "is" "(b, d)" arbitrary: b d J rule: rankLoop.induct)
  case (2 cs i "is" b d)
  show ?case
  proof (cases "nodeOutranks (cs ! i) (cs ! b)")
    case True
    then have "\<forall>j \<in> insert i J. \<not> nodeOutranks (cs ! j) (cs ! i)"
      using "2.prems"(2) nodeOutranks_le_trans nodeOutranks_irrefl by blast
    then show ?thesis using "2.hyps" [of i b "insert i J"] "2.prems"(1) True by simp
  next
    case False
    define d2 where "d2 = (if nodeOutranks (cs ! i) (cs ! d) then i else d)"
    have "rankLoop cs is (b, d2) = (b', d')" using "2.prems"(1) False by (simp add: d2_def split: if_splits)
    moreover have "\<forall>j \<in> insert i J. \<not> nodeOutranks (cs ! j) (cs ! b)" using "2.prems"(2) False by blast
    ultimately show ?thesis using "2.hyps" [of b d2 "insert i J"] False by (simp add: d2_def split: if_splits)
  qed
qed simp

lemma rankTop_best:
  assumes "rankTop cs = (b, d)" "2 \<le> length cs"
  shows "\<forall>c \<in> set cs. \<not> nodeOutranks c (cs ! b)"
proof -
  define p where "p = (if nodeOutranks (cs ! 1) (cs ! 0) then (1 :: nat, 0 :: nat) else (0, 1))"
  obtain b0 d0 where p: "p = (b0, d0)" by fastforce
  have "\<forall>j \<in> {0, 1}. \<not> nodeOutranks (cs ! j) (cs ! b0)"
    using p nodeOutranks_asym nodeOutranks_irrefl by (auto simp: p_def split: if_splits)
  moreover have "rankLoop cs [2..<length cs] (b0, d0) = (b, d)"
    using assms(1) p by (simp add: rankTop_def p_def)
  ultimately have "\<forall>j \<in> {0, 1} \<union> set [2..<length cs]. \<not> nodeOutranks (cs ! j) (cs ! b)"
    by (rule rankLoop_best [rotated])
  moreover have "{0, 1} \<union> set [2..<length cs] = {..<length cs}" using assms(2) by auto
  ultimately show ?thesis by (simp only: all_set_conv_all_nth lessThan_iff ball_simps) auto
qed

lemma mset_swap_idx: "i < length xs \<Longrightarrow> j < length xs \<Longrightarrow> mset (swap i j xs) = mset xs"
  by (simp add: swap_def mset_swap)

lemma promote_ok:
  assumes "b < length cs" "d < length cs" "b \<noteq> d" "2 \<le> length cs"
  shows "mset (promote cs b d) = mset cs" and "hd (promote cs b d) = cs ! b"
proof -
  let ?cs1 = "if b \<noteq> 0 then swap 0 b cs else cs" and ?i = "if d = 0 then b else d"
  have cs1: "mset ?cs1 = mset cs" "length ?cs1 = length cs"
    using assms mset_swap_idx [of 0 cs b] by (cases cs; simp)+
  then show "mset (promote cs b d) = mset cs"
    using assms mset_swap_idx [of 1 ?cs1 ?i] by (simp add: promote_def Let_def)
  have "promote cs b d ! 0 = ?cs1 ! 0"
    using assms cs1(2) by (auto simp: promote_def Let_def swap_def nth_list_update)
  also have "\<dots> = cs ! b"
    using nth_list_update_eq [OF less_le_trans [of 0 2, OF _ assms(4)], of "cs ! b"]
    by (cases "b = 0") (simp_all add: swap_def)
  finally show "hd (promote cs b d) = cs ! b" using assms(4) by (simp add: hd_conv_nth flip: length_0_conv)
qed

lemma chooseBest_ok:
  assumes "chooseBest cs = (cs', m)"
  shows "mset cs' = mset cs" and "cs \<noteq> [] \<Longrightarrow> \<forall>c \<in> set cs. \<not> nodeOutranks c (hd cs')"
proof -
  have "mset cs' = mset cs \<and> (cs \<noteq> [] \<longrightarrow> (\<forall>c \<in> set cs. \<not> nodeOutranks c (hd cs')))"
  proof (cases "length cs < 2")
    case True
    then show ?thesis
      using assms nodeOutranks_irrefl by (cases cs; cases "tl cs") (auto simp: chooseBest_def)
  next
    case False
    obtain b d where bd: "rankTop cs = (b, d)" by fastforce
    obtain x y zs where cs: "cs = x # y # zs" using False by (cases cs; cases "tl cs") auto
    have "cs' = promote cs b d" using assms bd unfolding chooseBest_def by (simp add: cs Let_def)
    then show ?thesis
      using promote_ok rankTop_range [OF bd] rankTop_best [OF bd] False by simp
  qed
  then show "mset cs' = mset cs" "cs \<noteq> [] \<Longrightarrow> \<forall>c \<in> set cs. \<not> nodeOutranks c (hd cs')" by blast+
qed

section \<open>The walk\<close>

lemma absorb_keys: "absorb t f ks u = (ks', u') \<Longrightarrow> ks' = dropWhile (\<lambda>k. k < f) ks"
  by (induction t f ks u rule: absorb.induct) (auto split: if_splits)

lemma advance_next:
  "advance t n ks q u = (q', ks', u') \<Longrightarrow> a < q \<Longrightarrow> a < stop (s n) \<Longrightarrow> \<forall>k \<in> set ks. a < k \<Longrightarrow>
     a < q' \<and> (\<exists>zs. ks = zs @ ks')"
proof (induction t n ks q u rule: advance.induct)
  case (2 t n k ks q u)
  show ?case
  proof (cases "q < stop (s n) \<and> ucast (branchSupport n) > u \<and> k < stop (s n)")
    case True
    have "k \<noteq> MaxUint32" using True below_not_max by blast
    then have "a < k + 1" using "2.prems"(4) succ_no_wrap [of k] by (simp add: word_less_nat_alt)
    then have "a < q' \<and> (\<exists>zs. ks = zs @ ks')"
      using "2.IH" True "2.prems" by simp
    then show ?thesis by (metis append_Cons)
  next
    case False
    then show ?thesis using "2.prems" by (auto split: if_splits)
  qed
qed (auto split: if_splits)

lemma absorbSpan_next:
  assumes "absorbSpan t li n keys u = (q, keys', u')" "start (s n) < stop (s n)" "sorted_wrt (<) keys"
  shows "start (s n) < q" and "sorted_wrt (<) keys'"
proof -
  have a: "start (s n) < start (s n) + 1"
    using succ_no_wrap [OF below_not_max [OF assms(2)]] by (simp add: word_less_nat_alt)
  define ks where "ks = dropWhile (\<lambda>k. k < max li (start (s n) + 1)) keys"
  obtain u1 where adv: "advance t n ks (start (s n) + 1) u1 = (q, keys', u')"
    using assms(1) absorb_keys
    by (fastforce simp: absorbSpan_def ks_def Let_def split: prod.splits)
  have ks: "sorted_wrt (<) ks" "\<exists>zs. keys = zs @ ks"
    using assms(3) by (auto simp: ks_def sorted_wrt_append sorted_wrt_dropWhile
        intro: exI [of _ "takeWhile (\<lambda>k. k < max li (start (s n) + 1)) keys"])
  have "start (s n) < k" if "k \<in> set ks" for k
  proof (cases ks)
    case (Cons x xs)
    have "\<not> x < max li (start (s n) + 1)" using hd_dropWhile [of _ keys] Cons ks_def
      by (metis list.distinct(1) list.sel(1))
    then have "start (s n) < x" using a less_le_trans [of _ _ x] by (auto simp: not_less)
    then show ?thesis using that ks(1) Cons by auto
  qed (use that in simp)
  then show "start (s n) < q" "sorted_wrt (<) keys'"
    using advance_next [OF adv a assms(2)] ks(1) by (auto simp: sorted_wrt_append)
qed

text \<open>
  \<open>prefers n x\<close>: the tip \<open>x\<close> lies in the span of \<open>n\<close>, or in the spans below a child of \<open>n\<close> that no child
  outranks.
\<close>

inductive prefers :: "tnode \<Rightarrow> SpanTip \<Rightarrow> bool" where
  inside: "before (s n) q = Some sp \<Longrightarrow> prefers n (tip sp)"
| child: "c \<in> set (children n) \<Longrightarrow> \<forall>d \<in> set (children n). \<not> nodeOutranks d c \<Longrightarrow> prefers c x \<Longrightarrow>
    prefers n x"

lemma prefers_tip: "start (s n) < stop (s n) \<Longrightarrow> prefers n (tip (s n))"
  using prefers.inside [of n "stop (s n)"] before_inside [of "s n" "stop (s n)"] by (simp add: tip_def)

lemma sum_mset_list: "mset xs = mset ys \<Longrightarrow> (\<Sum>x\<leftarrow>xs. f x :: nat) = (\<Sum>x\<leftarrow>ys. f x)"
  by (metis mset_map sum_mset_sum_list)

lemma reorder_ok:
  assumes "tnode_ok r n" "mset cs = mset (children n)"
    and "n' = TNode (s n) (tipSupport n) (branchSupport n) cs"
  shows "tnode_ok r n'" and "tips P n' = tips P n"
  using assms sum_mset_list [OF assms(2), of "\<lambda>c. unat (branchSupport c)"]
    sum_mset_list [OF assms(2), of "tips P"] mset_eq_setD [OF assms(2)] mset_eq_length [OF assms(2)]
  by (simp_all add: tnode_ok_sel [of r n] tips_sel [of P n])

lemma replace_hd_ok:
  assumes "tnode_ok r (TNode sp ts bs (c # cs))" "tnode_ok False c'" "start (s c') = start (s c)"
    and "branchSupport c' = branchSupport c" "tips P c' = tips P c"
  shows "tnode_ok r (TNode sp ts bs (c' # cs))"
    and "tips P (TNode sp ts bs (c' # cs)) = tips P (TNode sp ts bs (c # cs))"
  using assms by auto

lemma preferLoop_ok:
  "tnode_ok r n \<Longrightarrow> sorted_wrt (<) keys \<Longrightarrow>
     \<exists>x n'. preferLoop t li n keys u = Inr (x, n') \<and> prefers n x \<and> tnode_ok r n' \<and> s n' = s n \<and>
       branchSupport n' = branchSupport n \<and> (\<forall>P. tips P n' = tips P n)"
proof (induction t li n keys u arbitrary: r rule: preferLoop.induct)
  case (1 t li n keys u)
  obtain q keys' u' where a: "absorbSpan t li n keys u = (q, keys', u')" by (metis prod_cases3)
  obtain cs m where c: "chooseBest (children n) = (cs, m)" by fastforce
  let ?n = "TNode (s n) (tipSupport n) (branchSupport n) cs"
  have lt: "start (s n) < stop (s n)" using "1.prems"(1) by (simp add: tnode_ok_sel [of r n])
  note nxt = absorbSpan_next [OF a lt "1.prems"(2)]
  note perm = chooseBest_ok [OF c] and re = reorder_ok [OF "1.prems"(1) chooseBest_ok(1) [OF c] refl]
  show ?case
  proof (cases "q < stop (s n)")
    case True
    then have "preferLoop t li n keys u =
        Inr (tip \<lparr>start = start (s n), stop = q, ledger_of = ledger_of (s n)\<rparr>, n)"
      using a before_inside [OF nxt(1)] by (subst preferLoop.simps) simp
    then show ?thesis
      using prefers.inside [OF before_inside [OF nxt(1)]] True "1.prems"(1) by auto
  next
    case False
    show ?thesis
    proof (cases "cs \<noteq> [] \<and> (m > u' \<or> u' = 0)")
      case go: True
      have mem: "hd cs \<in> set (children n)" using go perm(1) by (metis hd_in_set set_mset_mset)
      have ok: "tnode_ok False (hd cs)" using "1.prems"(1) mem by (simp add: tnode_ok_sel [of r n])
      obtain x c' where c': "preferLoop t li (hd cs) keys' u' = Inr (x, c')" "prefers (hd cs) x"
        "tnode_ok False c'" "s c' = s (hd cs)" "branchSupport c' = branchSupport (hd cs)"
        "\<And>P. tips P c' = tips P (hd cs)"
        using "1.IH" [OF a [symmetric] refl refl _ c [symmetric] refl refl _ ok nxt(2)] False go by blast
      have res: "preferLoop t li n keys u =
          Inr (x, TNode (s n) (tipSupport n) (branchSupport n) (c' # tl cs))"
        using a c False go c'(1) by (subst preferLoop.simps) simp
      have cs: "cs = hd cs # tl cs" using go by simp
      note rep = replace_hd_ok [of r "s n" "tipSupport n" "branchSupport n" "hd cs" "tl cs" c', folded cs,
          OF re(1) c'(3) _ c'(5,6)]
      have "children n \<noteq> []" using mem by auto
      then have "prefers n x" using prefers.child [OF mem perm(2) c'(2)] by simp
      then show ?thesis using res rep re(2) c'(4) by simp
    next
      case stop: False
      then have "preferLoop t li n keys u = Inr (tip (s n), ?n)"
        using a c False by (subst preferLoop.simps) auto
      then show ?thesis using prefers_tip [OF lt] re by simp
    qed
  qed
qed

end
