(* ===== verification/Ledger_Trie_History.thy ===== *)
theory Ledger_Trie_History
  imports Ledger_Trie_Prefer
begin

text \<open>
  The ancestry trie over ledgers with a unique and complete history: the binary search finds the first
  difference of two histories, the children of a node start with different ids, and the node \<open>find\<close> reaches
  is the one that holds the ledger.  So \<open>TipSupport\<close> and \<open>BranchSupport\<close> are the support of a ledger and of
  all ledgers that descend from it.
\<close>

section \<open>Histories\<close>

text \<open>
  What the interface \<open>Ledger\<close> documents, for the ledgers \<open>U\<close> of one network with genesis \<open>g\<close>: the ancestors
  from sequence one are known, \<open>Ancestor\<close> at the own sequence is the own id, equal ancestors at a sequence
  have equal ancestors below it, and an id belongs to one sequence.
\<close>

definition history :: "ledger \<Rightarrow> ledger set \<Rightarrow> bool" where
  "history g U \<longleftrightarrow> g \<in> U \<and> Seq g = 0 \<and>
     (\<forall>a \<in> U. MinSeq a \<le> 1 \<and> Seq a \<noteq> MaxUint32 \<and> Ancestor a (Seq a) = ID a \<and>
        Ancestor a 0 = Ancestor g 0) \<and>
     (\<forall>a \<in> U. \<forall>b \<in> U. \<forall>p q. p \<le> q \<longrightarrow> q \<le> Seq a \<longrightarrow> q \<le> Seq b \<longrightarrow>
        Ancestor a q = Ancestor b q \<longrightarrow> Ancestor a p = Ancestor b p) \<and>
     (\<forall>a \<in> U. \<forall>b \<in> U. \<forall>p q. p \<le> Seq a \<longrightarrow> q \<le> Seq b \<longrightarrow> Ancestor a p = Ancestor b q \<longrightarrow> p = q)"

lemma history_unique:
  "history g U \<Longrightarrow> a \<in> U \<Longrightarrow> b \<in> U \<Longrightarrow> q \<le> Seq a \<Longrightarrow> q \<le> Seq b \<Longrightarrow> Ancestor a q = Ancestor b q \<Longrightarrow>
     p \<le> q \<Longrightarrow> Ancestor a p = Ancestor b p"
  unfolding history_def by blast

lemma history_seq:
  "history g U \<Longrightarrow> a \<in> U \<Longrightarrow> b \<in> U \<Longrightarrow> p \<le> Seq a \<Longrightarrow> q \<le> Seq b \<Longrightarrow> Ancestor a p = Ancestor b q \<Longrightarrow> p = q"
  unfolding history_def by blast

lemma history_ledger:
  "history g U \<Longrightarrow> a \<in> U \<Longrightarrow> MinSeq a \<le> 1 \<and> Seq a \<noteq> MaxUint32 \<and> Ancestor a (Seq a) = ID a \<and>
     Ancestor a 0 = Ancestor g 0"
  unfolding history_def by blast

lemma history_genesis: "history g U \<Longrightarrow> g \<in> U \<and> Seq g = 0"
  unfolding history_def by blast

lemma history_own:
  assumes "history g U" "a \<in> U"
  shows "own_ancestor g a" and "Seq a \<noteq> MaxUint32" and "Ancestor a (Seq a) = ID a"
  using history_ledger [OF assms] by (auto simp: own_ancestor_def)

lemma word_le_1: "(x :: u32) \<le> 1 \<longleftrightarrow> x = 0 \<or> x = 1"
  by (auto simp: word_le_nat_alt word_unat_eq_iff)

lemma word_less_1: "(x :: u32) < 1 \<longleftrightarrow> x = 0"
  by (auto simp: word_less_nat_alt word_unat_eq_iff)

lemma le_pred: "(x :: u32) < y \<Longrightarrow> x \<le> y - 1"
  by (simp add: word_le_nat_alt word_less_nat_alt unat_sub_if' unat_eq_0)

lemma pred_less: "(x :: u32) < y \<Longrightarrow> y - 1 < y"
  by (simp add: word_less_nat_alt unat_sub_if' unat_eq_0)

text \<open>\<open>mismatch\<close> is the first difference.\<close>

lemma mismatch_first:
  assumes h: "history g U" and a: "a \<in> U" and b: "b \<in> U"
  shows "p < mismatch a b \<Longrightarrow> Ancestor a p = Ancestor b p"
    and "mismatch a b \<le> Seq a \<Longrightarrow> mismatch a b \<le> Seq b \<Longrightarrow>
         Ancestor a (mismatch a b) \<noteq> Ancestor b (mismatch a b)"
proof -
  define upper where "upper = min (Seq b) (Seq a)"
  define lower where "lower = (if MinSeq b > MinSeq a then MinSeq b else MinSeq a)"
  define r where "r = mismatchLoop a b lower (upper + 1)"
  have m: "mismatch a b = (if lower > upper then 1 else if r = lower then 1 else r)"
    by (simp add: mismatch_def upper_def lower_def r_def Let_def)
  have low: "lower = 0 \<or> lower = 1" using history_ledger [OF h a] history_ledger [OF h b] by (auto simp: lower_def word_le_1)
  have zero: "Ancestor a 0 = Ancestor b 0" using history_ledger [OF h a] history_ledger [OF h b] by simp
  have "upper \<noteq> MaxUint32" using history_own(2) [OF h a] history_own(2) [OF h b] by (simp add: upper_def min_def)
  note up = succ_no_wrap [OF this]
  have r: "lower \<le> r" "r \<le> upper + 1" "r = lower \<or> Ancestor a (r - 1) = Ancestor b (r - 1)"
    "r = upper + 1 \<or> Ancestor a r \<noteq> Ancestor b r" if "\<not> lower > upper"
    using mismatchLoop_spec [of lower "upper + 1" a b r] that up
    by (auto simp: r_def word_le_nat_alt word_less_nat_alt)
  show "Ancestor a p = Ancestor b p" if p: "p < mismatch a b"
  proof (cases "lower > upper \<or> r = lower")
    case True
    then have "p = 0" using p by (auto simp: m word_less_1 split: if_splits)
    then show ?thesis using zero by simp
  next
    case False
    then have pr: "p < r" "\<not> lower > upper" using p by (auto simp: m)
    have "r - 1 \<le> upper" using r(2) [OF pr(2)] pr(1) up
      by (auto simp: word_le_nat_alt word_less_nat_alt unat_sub_if' split: if_splits)
    then show ?thesis
      using r(3) [OF pr(2)] False history_unique [OF h a b] le_pred [OF pr(1)] by (auto simp: upper_def)
  qed
  show "Ancestor a (mismatch a b) \<noteq> Ancestor b (mismatch a b)"
    if le: "mismatch a b \<le> Seq a" "mismatch a b \<le> Seq b"
  proof -
    have mu: "mismatch a b \<le> upper" using le by (simp add: upper_def)
    have nl: "\<not> lower > upper" using mu low by (auto simp: m word_less_1 split: if_splits)
    show ?thesis
    proof (cases "r = lower")
      case True
      have "r \<noteq> upper + 1" using True nl up by (auto simp: word_less_nat_alt word_unat_eq_iff)
      then have ne: "Ancestor a r \<noteq> Ancestor b r" using r(4) [OF nl] by simp
      then have "r = 1" using low True zero by auto
      then show ?thesis using ne True nl by (simp add: m)
    next
      case False
      then have "mismatch a b = r" using nl by (simp add: m)
      moreover have "r \<noteq> upper + 1"
        using calculation mu up by (auto simp: word_le_nat_alt)
      ultimately show ?thesis using r(4) [OF nl] by simp
    qed
  qed
qed

lemma less_mismatch:
  assumes "history g U" "a \<in> U" "b \<in> U" "k \<le> Seq a" "k \<le> Seq b"
  shows "k < mismatch a b \<longleftrightarrow> Ancestor a k = Ancestor b k"
proof
  assume eq: "Ancestor a k = Ancestor b k"
  show "k < mismatch a b"
  proof (rule ccontr)
    assume "\<not> k < mismatch a b"
    then have le: "mismatch a b \<le> k" by simp
    then have "Ancestor a (mismatch a b) = Ancestor b (mismatch a b)"
      using history_unique [OF assms eq le] by simp
    then show False using mismatch_first(2) [OF assms(1-3)] le assms(4,5) by (meson order_trans)
  qed
qed (rule mismatch_first(1) [OF assms(1-3)])

section \<open>Tries of histories\<close>

fun hist_ok :: "ledger set \<Rightarrow> tnode \<Rightarrow> bool" where
  "hist_ok U (TNode sp ts bs cs) =
     (ledger_of sp \<in> U \<and> stop sp \<le> Seq (ledger_of sp) + 1 \<and> distinct (map (\<lambda>c. startID (s c)) cs) \<and>
      (\<forall>c \<in> set cs. Ancestor (ledger_of (s c)) (stop sp - 1) = Ancestor (ledger_of sp) (stop sp - 1) \<and>
         hist_ok U c))"

abbreviation led :: "tnode \<Rightarrow> ledger" where
  "led n \<equiv> ledger_of (s n)"

lemma hist_ok_sel:
  "hist_ok U n \<longleftrightarrow> led n \<in> U \<and> stop (s n) \<le> Seq (led n) + 1 \<and>
     distinct (map (\<lambda>c. startID (s c)) (children n)) \<and>
     (\<forall>c \<in> set (children n). Ancestor (led c) (stop (s n) - 1) = Ancestor (led n) (stop (s n) - 1) \<and>
        hist_ok U c)"
  by (cases n) simp

lemma tnode_child:
  "tnode_ok r n \<Longrightarrow> c \<in> set (children n) \<Longrightarrow>
     tnode_ok False c \<and> start (s c) = stop (s n) \<and> stop (s n) < stop (s c) \<and> start (s n) < stop (s n)"
  using tnode_ok_sel [of r n] tnode_ok_sel [of False c] by metis

lemma hist_child: "hist_ok U n \<Longrightarrow> c \<in> set (children n) \<Longrightarrow> hist_ok U c"
  by (simp add: hist_ok_sel [of U n])

lemma hist_led: "hist_ok U n \<Longrightarrow> led n \<in> U"
  by (simp add: hist_ok_sel [of U n])

lemma hist_within:
  assumes "history g U" "hist_ok U n" "k < stop (s n)"
  shows "k \<le> Seq (led n)"
proof -
  have n: "led n \<in> U" "stop (s n) \<le> Seq (led n) + 1" using assms(2) by (simp_all add: hist_ok_sel [of U n])
  show ?thesis
    using n(2) assms(3) succ_no_wrap [OF history_own(2) [OF assms(1) n(1)]]
    by (simp add: word_le_nat_alt word_less_nat_alt)
qed

lemma child_agrees:
  assumes h: "history g U" and n: "hist_ok U n" "tnode_ok r n" and c: "c \<in> set (children n)"
    and k: "k < stop (s n)"
  shows "Ancestor (led c) k = Ancestor (led n) k" and "k < stop (s c)"
proof -
  note tc = tnode_child [OF n(2) c] and hc = hist_child [OF n(1) c]
  show "k < stop (s c)" using tc k by auto
  have "Ancestor (led c) (stop (s n) - 1) = Ancestor (led n) (stop (s n) - 1)"
    using n(1) c by (simp add: hist_ok_sel [of U n])
  moreover have "stop (s n) - 1 < stop (s n)" "stop (s n) - 1 < stop (s c)" using pred_less [OF k] tc by auto
  ultimately show "Ancestor (led c) k = Ancestor (led n) k"
    using history_unique [OF h hist_led [OF hc] hist_led [OF n(1)] hist_within [OF h hc] hist_within [OF h n(1)]]
      le_pred [OF k] by blast
qed

lemma below_agrees:
  "history g U \<Longrightarrow> hist_ok U n \<Longrightarrow> tnode_ok r n \<Longrightarrow> valid n p \<Longrightarrow> k < stop (s n) \<Longrightarrow>
     Ancestor (led (node_at n p)) k = Ancestor (led n) k"
proof (induction p arbitrary: n r)
  case (Cons i p)
  let ?c = "children n ! i"
  have c: "?c \<in> set (children n)" "valid ?c p" using Cons.prems(4) by auto
  note a = child_agrees [OF Cons.prems(1,2,3) c(1) Cons.prems(5)]
  show ?case
    using Cons.IH [OF Cons.prems(1) hist_child [OF Cons.prems(2) c(1)]
        conjunct1 [OF tnode_child [OF Cons.prems(3) c(1)]] c(2) a(2)] a(1) by simp
qed simp

lemma below_ok:
  "hist_ok U n \<Longrightarrow> tnode_ok r n \<Longrightarrow> valid n p \<Longrightarrow>
     hist_ok U (node_at n p) \<and> tnode_ok (r \<and> p = []) (node_at n p)"
proof (induction p arbitrary: n r)
  case (Cons i p)
  then have c: "children n ! i \<in> set (children n)" "valid (children n ! i) p" by auto
  show ?case
    using Cons.IH [OF hist_child [OF Cons.prems(1) c(1)] _ c(2), of False] tnode_child [OF Cons.prems(2) c(1)]
    by simp
qed simp

section \<open>Descent\<close>

text \<open>A tip descends from a ledger when a history through the tip passes through the ledger.\<close>

definition descends :: "ledger set \<Rightarrow> ledger \<Rightarrow> SpanTip \<Rightarrow> bool" where
  "descends U l x \<longleftrightarrow>
     (\<exists>b \<in> U. tipSeq x \<le> Seq b \<and> Ancestor b (tipSeq x) = tipID x \<and> Seq l \<le> tipSeq x \<and>
        Ancestor b (Seq l) = ID l)"

lemma descends_node:
  assumes h: "history g U" and n: "hist_ok U n" "tnode_ok r n"
  shows "descends U l (tip (s n)) \<longleftrightarrow> Seq l < stop (s n) \<and> Ancestor (led n) (Seq l) = ID l"
proof -
  have lt: "start (s n) < stop (s n)" using n(2) by (simp add: tnode_ok_sel [of r n])
  have in_n: "stop (s n) - 1 \<le> Seq (led n)" using hist_within [OF h n(1) pred_less [OF lt]] .
  have le: "Seq l \<le> stop (s n) - 1 \<longleftrightarrow> Seq l < stop (s n)"
    using le_pred [of "Seq l" "stop (s n)"] pred_less [OF lt] by auto
  show ?thesis
  proof
    assume "descends U l (tip (s n))"
    then obtain b where b: "b \<in> U" "stop (s n) - 1 \<le> Seq b"
      "Ancestor b (stop (s n) - 1) = Ancestor (led n) (stop (s n) - 1)"
      "Seq l \<le> stop (s n) - 1" "Ancestor b (Seq l) = ID l"
      by (auto simp: descends_def tip_def)
    then show "Seq l < stop (s n) \<and> Ancestor (led n) (Seq l) = ID l"
      using history_unique [OF h b(1) hist_led [OF n(1)] b(2) in_n b(3,4)] le by simp
  next
    assume "Seq l < stop (s n) \<and> Ancestor (led n) (Seq l) = ID l"
    then show "descends U l (tip (s n))"
      unfolding descends_def using hist_led [OF n(1)] in_n le by (intro bexI [of _ "led n"]) (simp_all add: tip_def)
  qed
qed

lemma tips_below_all:
  "history g U \<Longrightarrow> hist_ok U n \<Longrightarrow> tnode_ok r n \<Longrightarrow> Seq l < stop (s n) \<Longrightarrow> Ancestor (led n) (Seq l) = ID l \<Longrightarrow>
     tips (descends U l) n = unat (branchSupport n)"
proof (induction n arbitrary: r)
  case (TNode sp ts bs cs)
  let ?n = "TNode sp ts bs cs"
  have "tips (descends U l) c = unat (branchSupport c)" if c: "c \<in> set cs" for c
  proof -
    have c': "c \<in> set (children ?n)" using c by simp
    note a = child_agrees [OF TNode.prems(1,2,3) c' TNode.prems(4)]
    show ?thesis
      using TNode.IH [OF c TNode.prems(1) hist_child [OF TNode.prems(2) c']
          conjunct1 [OF tnode_child [OF TNode.prems(3) c']] a(2)] a(1) TNode.prems(5) by simp
  qed
  then have "(\<Sum>c\<leftarrow>cs. tips (descends U l) c) = (\<Sum>c\<leftarrow>cs. unat (branchSupport c))"
    by (intro arg_cong [where f = sum_list] map_cong) auto
  then show ?case using descends_node [OF TNode.prems(1-3), of l] TNode.prems(3-5) by simp
qed

lemma tips_below_none:
  "history g U \<Longrightarrow> l \<in> U \<Longrightarrow> hist_ok U n \<Longrightarrow> tnode_ok r n \<Longrightarrow> k < stop (s n) \<Longrightarrow> k \<le> Seq l \<Longrightarrow>
     Ancestor (led n) k \<noteq> Ancestor l k \<Longrightarrow> tips (descends U l) n = 0"
proof (induction n arbitrary: r)
  case (TNode sp ts bs cs)
  let ?n = "TNode sp ts bs cs"
  note h = TNode.prems(1) and l = TNode.prems(2) and n = TNode.prems(3,4)
  have "tips (descends U l) c = 0" if c: "c \<in> set cs" for c
  proof -
    have c': "c \<in> set (children ?n)" using c by simp
    note a = child_agrees [OF h n c' TNode.prems(5)]
    show ?thesis
      using TNode.IH [OF c h l hist_child [OF n(1) c'] conjunct1 [OF tnode_child [OF n(2) c']] a(2)
          TNode.prems(6)] a(1) TNode.prems(7) by simp
  qed
  moreover have "\<not> descends U l (tip (s ?n))"
  proof
    assume "descends U l (tip (s ?n))"
    then have d: "Seq l < stop (s ?n)" "Ancestor (led ?n) (Seq l) = ID l"
      using descends_node [OF h n] by auto
    have "Ancestor (led ?n) (Seq l) = Ancestor l (Seq l)" using d(2) history_own(3) [OF h l] by simp
    then show False
      using history_unique [OF h hist_led [OF n(1)] l hist_within [OF h n(1) d(1)] order_refl]
        TNode.prems(6,7) by blast
  qed
  ultimately show ?case by simp
qed

text \<open>The node whose span holds a ledger.\<close>

definition holds :: "ledger \<Rightarrow> tnode \<Rightarrow> bool" where
  "holds l n \<longleftrightarrow> start (s n) \<le> Seq l \<and> Seq l < stop (s n) \<and> Ancestor (led n) (Seq l) = ID l"

lemma sum_list_single:
  fixes f :: "'a \<Rightarrow> nat"
  assumes "i < length xs" "\<And>j. j < length xs \<Longrightarrow> j \<noteq> i \<Longrightarrow> f (xs ! j) = 0"
  shows "(\<Sum>x\<leftarrow>xs. f x) = f (xs ! i)"
proof -
  have "(\<Sum>x\<leftarrow>xs. f x) = (\<Sum>j = 0..<length xs. f (xs ! j))" by (simp add: sum_list_sum_nth)
  also have "\<dots> = (\<Sum>j \<in> {i}. f (xs ! j))" using assms by (intro sum.mono_neutral_right) auto
  finally show ?thesis by simp
qed

text \<open>Only one child leads to the node that holds a ledger.\<close>

lemma path_child:
  assumes h: "history g U" and l: "l \<in> U" and n: "hist_ok U n" "tnode_ok r n" and v: "valid n (i # p)"
    and m: "holds l (node_at n (i # p))"
  shows "stop (s n) \<le> Seq l" and "Ancestor (led n) (stop (s n) - 1) = Ancestor l (stop (s n) - 1)"
    and "\<And>j. j < length (children n) \<Longrightarrow>
      Ancestor (led (children n ! j)) (stop (s n)) = Ancestor l (stop (s n)) \<longleftrightarrow> j = i"
proof -
  let ?m = "node_at n (i # p)" and ?c = "children n ! i"
  have i: "i < length (children n)" "?c \<in> set (children n)" "valid ?c p" using v by auto
  note tc = tnode_child [OF n(2) i(2)] and hc = hist_child [OF n(1) i(2)]
  have mok: "hist_ok U ?m" using below_ok [OF n v] by simp
  have "stop (s n) \<le> start (s ?m)" using start_below [OF n(2) v] by simp
  then show le: "stop (s n) \<le> Seq l" using m by (auto simp: holds_def)
  have ml: "Ancestor (led ?m) k = Ancestor l k" if "k \<le> Seq l" for k
    using history_unique [OF h hist_led [OF mok] l hist_within [OF h mok] order_refl _ that] m
      history_own(3) [OF h l] by (simp add: holds_def)
  have nm: "Ancestor (led ?m) (stop (s n) - 1) = Ancestor (led n) (stop (s n) - 1)"
    using below_agrees [OF h n v pred_less] tc by blast
  have "stop (s n) - 1 \<le> Seq l" using pred_less [of "start (s n)" "stop (s n)"] tc le by auto
  then show "Ancestor (led n) (stop (s n) - 1) = Ancestor l (stop (s n) - 1)" using nm ml by simp
  have ci: "Ancestor (led ?c) (stop (s n)) = Ancestor l (stop (s n))"
  proof -
    have "stop (s n) < stop (s ?c)" using tc by auto
    then show ?thesis using below_agrees [OF h hc conjunct1 [OF tc] i(3), of "stop (s n)"] ml [OF le] by simp
  qed
  show "Ancestor (led (children n ! j)) (stop (s n)) = Ancestor l (stop (s n)) \<longleftrightarrow> j = i"
    if j: "j < length (children n)" for j
  proof
    assume eq: "Ancestor (led (children n ! j)) (stop (s n)) = Ancestor l (stop (s n))"
    have "startID (s (children n ! j)) = startID (s ?c)"
      using eq ci tnode_child [OF n(2) nth_mem [OF j]] tc by (simp add: startID_def)
    moreover have "distinct (map (\<lambda>c. startID (s c)) (children n))" using n(1) by (simp add: hist_ok_sel [of U n])
    ultimately show "j = i" using j i(1) nth_eq_iff_index_eq [of "map (\<lambda>c. startID (s c)) (children n)" j i] by simp
  qed (use ci in simp)
qed

lemma holds_branch:
  "history g U \<Longrightarrow> l \<in> U \<Longrightarrow> hist_ok U n \<Longrightarrow> tnode_ok r n \<Longrightarrow> valid n p \<Longrightarrow> holds l (node_at n p) \<Longrightarrow>
     tips (descends U l) n = unat (branchSupport (node_at n p))"
proof (induction p arbitrary: n r)
  case Nil
  then show ?case using tips_below_all by (simp add: holds_def)
next
  case (Cons i p)
  note h = Cons.prems(1) and l = Cons.prems(2) and n = Cons.prems(3,4)
  note pc = path_child [OF h l n Cons.prems(5,6)]
  have i: "i < length (children n)" "children n ! i \<in> set (children n)" "valid (children n ! i) p"
    using Cons.prems(5) by auto
  have "tips (descends U l) (children n ! j) = 0" if j: "j < length (children n)" "j \<noteq> i" for j
    using tips_below_none [OF h l hist_child [OF n(1) nth_mem [OF j(1)]]
        conjunct1 [OF tnode_child [OF n(2) nth_mem [OF j(1)]]], of "stop (s n)"]
      tnode_child [OF n(2) nth_mem [OF j(1)]] pc(1) pc(3) [OF j(1)] j(2) by simp
  then have "(\<Sum>c\<leftarrow>children n. tips (descends U l) c) = tips (descends U l) (children n ! i)"
    by (rule sum_list_single [OF i(1)])
  moreover have "\<not> descends U l (tip (s n))" using descends_node [OF h n] pc(1) by (simp add: not_less)
  moreover have "tips (descends U l) (children n ! i) = unat (branchSupport (node_at n (i # p)))"
    using Cons.IH [OF h l hist_child [OF n(1) i(2)] conjunct1 [OF tnode_child [OF n(2) i(2)]] i(3)]
      Cons.prems(6) by simp
  ultimately show ?case by (simp add: tips_sel [of _ n])
qed

lemma not_held:
  "history g U \<Longrightarrow> l \<in> U \<Longrightarrow> hist_ok U n \<Longrightarrow> tnode_ok r n \<Longrightarrow> start (s n) \<le> Seq l \<Longrightarrow>
     (\<And>p. valid n p \<Longrightarrow> \<not> holds l (node_at n p)) \<Longrightarrow> tips (descends U l) n = 0"
proof (induction n arbitrary: r)
  case (TNode sp ts bs cs)
  let ?n = "TNode sp ts bs cs"
  note h = TNode.prems(1) and l = TNode.prems(2) and n = TNode.prems(3,4)
  have own: "\<not> holds l ?n" using TNode.prems(6) [of "[]"] by simp
  show ?case
  proof (cases "Seq l < stop sp")
    case True
    then have "Ancestor (led ?n) (Seq l) \<noteq> Ancestor l (Seq l)"
      using own TNode.prems(5) history_own(3) [OF h l] by (simp add: holds_def)
    then show ?thesis using tips_below_none [OF h l n, of "Seq l"] True by simp
  next
    case False
    have "tips (descends U l) c = 0" if c: "c \<in> set cs" for c
    proof -
      have c': "c \<in> set (children ?n)" using c by simp
      obtain i where i: "i < length cs" "c = cs ! i" using c by (auto simp: in_set_conv_nth)
      have "\<not> holds l (node_at c p)" if "valid c p" for p
        using TNode.prems(6) [of "i # p"] that i by simp
      then show ?thesis
        using TNode.IH [OF c h l hist_child [OF n(1) c'] conjunct1 [OF tnode_child [OF n(2) c']]]
          tnode_child [OF n(2) c'] False by (simp add: not_less)
    qed
    moreover have "\<not> descends U l (tip sp)" using descends_node [OF h n, of l] False by simp
    ultimately show ?thesis by simp
  qed
qed

section \<open>The queries\<close>

lemma first_index_nth:
  "i < length xs \<Longrightarrow> P (xs ! i) \<Longrightarrow> (\<And>j. j < i \<Longrightarrow> \<not> P (xs ! j)) \<Longrightarrow> first_index P xs = Some i"
proof (induction xs arbitrary: i)
  case (Cons x xs)
  show ?case
  proof (cases i)
    case (Suc k)
    have "\<not> P (xs ! j)" if "j < k" for j using Cons.prems(3) [of "Suc j"] Suc that by simp
    then show ?thesis using Cons.IH [of k] Cons.prems(1,2) Cons.prems(3) [of 0] Suc by simp
  qed (use Cons.prems in simp)
qed simp

lemma pred_less_le: "(y :: u32) - 1 < x \<Longrightarrow> y - 1 < y \<Longrightarrow> y \<le> x"
  by (auto simp: word_le_nat_alt word_less_nat_alt unat_sub_if' split: if_splits)

lemma diff_above:
  assumes "start (s n) < stop (s n)"
  shows "start (s n) < diff (s n) l \<longleftrightarrow> start (s n) < mismatch (led n) l"
    and "start (s n) < mismatch (led n) l \<Longrightarrow> diff (s n) l = min (mismatch (led n) l) (stop (s n))"
  using assms by (auto simp: diff_def clamp_def min_def)

text \<open>\<open>find\<close> reaches the node that holds the ledger and stops one past the ledger.\<close>

lemma findFrom_held:
  "history g U \<Longrightarrow> l \<in> U \<Longrightarrow> hist_ok U n \<Longrightarrow> tnode_ok r n \<Longrightarrow> valid n p \<Longrightarrow> holds l (node_at n p) \<Longrightarrow>
     findFrom n (min (mismatch (led n) l) (stop (s n))) l = (p, Seq l + 1)"
proof (induction p arbitrary: n r)
  case Nil
  note h = Nil.prems(1) and l = Nil.prems(2) and n = Nil.prems(3,4)
  have lt: "Seq l < stop (s n)" "Ancestor (led n) (Seq l) = Ancestor l (Seq l)"
    using Nil.prems(6) history_own(3) [OF h l] by (simp_all add: holds_def)
  note max = history_own(2) [OF h l]
  have "Seq l < mismatch (led n) l"
    using less_mismatch [OF h hist_led [OF n(1)] l hist_within [OF h n(1) lt(1)] order_refl] lt(2) by simp
  then have m: "mismatch (led n) l = Seq l + 1"
    using mismatch_bounds(2) [OF max, of "led n"] succ_no_wrap [OF max]
    by (simp add: word_less_nat_alt word_unat_eq_iff)
  have q: "min (mismatch (led n) l) (stop (s n)) = Seq l + 1"
    using lt(1) succ_no_wrap [OF max] by (simp add: m min_def word_le_nat_alt word_less_nat_alt)
  have "\<not> diff (s c) l > Seq l + 1" if c: "c \<in> set (children n)" and st: "Seq l + 1 = stop (s n)" for c
  proof -
    have "mismatch (led c) l \<le> Seq l + 1"
      using mismatch_bounds(2) [OF max, of "led c"] succ_no_wrap [OF max] by (simp add: word_le_nat_alt)
    then show ?thesis using tnode_child [OF n(2) c] st by (auto simp: diff_def clamp_def)
  qed
  then have "first_index (\<lambda>c. diff (s c) l > Seq l + 1) (children n) = None" if "Seq l + 1 = stop (s n)"
    using that by (auto simp: first_index_None)
  then show ?case unfolding q by (subst findFrom.simps) simp
next
  case (Cons i p)
  note h = Cons.prems(1) and l = Cons.prems(2) and n = Cons.prems(3,4)
  note pc = path_child [OF h l n Cons.prems(5,6)]
  have i: "i < length (children n)" "children n ! i \<in> set (children n)" "valid (children n ! i) p"
    using Cons.prems(5) by auto
  let ?c = "children n ! i"
  note tc = tnode_child [OF n(2) i(2)]
  have pl: "stop (s n) - 1 < stop (s n)" using pred_less tc by blast
  then have "stop (s n) - 1 < mismatch (led n) l"
    using less_mismatch [OF h hist_led [OF n(1)] l hist_within [OF h n(1) pl]] pc(1,2) by simp
  then have q: "min (mismatch (led n) l) (stop (s n)) = stop (s n)"
    using pl by (intro min_absorb2 pred_less_le)
  have up: "stop (s n) < diff (s (children n ! j)) l \<longleftrightarrow> j = i" if j: "j < length (children n)" for j
  proof -
    note tj = tnode_child [OF n(2) nth_mem [OF j]] and hj = hist_child [OF n(1) nth_mem [OF j]]
    show ?thesis
      using diff_above(1) [of "children n ! j" l] tj pc(3) [OF j] pc(1)
        less_mismatch [OF h hist_led [OF hj] l hist_within [OF h hj], of "stop (s n)"] by simp
  qed
  have f: "first_index (\<lambda>c. diff (s c) l > stop (s n)) (children n) = Some i"
    using up i(1) by (intro first_index_nth) auto
  have "diff (s ?c) l = min (mismatch (led ?c) l) (stop (s ?c))"
    using diff_above [of ?c l] up [OF i(1)] tc by simp
  then have "findFrom ?c (diff (s ?c) l) l = (p, Seq l + 1)"
    using Cons.IH [OF h l hist_child [OF n(1) i(2)] conjunct1 [OF tc] i(3)] Cons.prems(6) by simp
  then show ?case unfolding q using f by (subst findFrom.simps) simp
qed

lemma found_holds:
  assumes h: "history g U" and l: "l \<in> U" and n: "hist_ok U n" "tnode_ok r n"
    and f: "findByIDWalk n (ID l) = Some p"
  shows "valid n p" and "holds l (node_at n p)" and "tip (s (node_at n p)) = ledger_tip l"
proof -
  show v: "valid n p" using findByIDWalk_Some(1) [OF f] by simp
  let ?m = "node_at n p"
  have m: "hist_ok U ?m" "start (s ?m) < stop (s ?m)"
    using below_ok [OF n v] by (auto simp: tnode_ok_sel [of _ ?m])
  have eq: "Ancestor (led ?m) (stop (s ?m) - 1) = ID l"
    using findByIDWalk_Some(1) [OF f] by (simp add: tip_def)
  then have "stop (s ?m) - 1 = Seq l"
    using history_seq [OF h hist_led [OF m(1)] l hist_within [OF h m(1) pred_less [OF m(2)]] order_refl]
      history_own(3) [OF h l] by simp
  then show "holds l ?m" "tip (s ?m) = ledger_tip l"
    using eq pred_less [OF m(2)] le_pred [OF m(2)] by (simp_all add: tip_def ledger_tip_def holds_def)
qed

lemma BranchSupport_descends:
  assumes h: "history g U" and l: "l \<in> U" and n: "hist_ok U (root t)" and ro: "root_ok (root t)"
  shows "unat (BranchSupport t l) = tips (descends U l) (root t)"
proof (cases "findByLedgerID t l")
  case (Some p)
  have t: "tnode_ok True (root t)" using ro by (simp add: root_ok_def)
  note fh = found_holds [OF h l n t, of p]
  show ?thesis
    using Some fh holds_branch [OF h l n t, of p]
    by (simp add: BranchSupport_def findByLedgerID_def Let_def)
next
  case None
  have t: "tnode_ok True (root t)" and st: "start (s (root t)) = 0" "stop (s (root t)) = 1"
    using ro by (simp_all add: root_ok_def)
  obtain p q where f: "find_trie t l = (p, q)" by fastforce
  let ?m = "node_at (root t) p"
  note max = history_own(2) [OF h l]
  note fr = find_trie_reaches [OF ro max f]
  show ?thesis
  proof (cases "q > Seq l \<and> Seq l < stop (s ?m)")
    case True
    have m: "hist_ok U ?m" using below_ok [OF n t fr(1)] by simp
    have "q = Seq l + 1"
      using True fr(6) succ_no_wrap [OF max] by (simp add: word_le_nat_alt word_less_nat_alt word_unat_eq_iff)
    then have "start (s ?m) \<le> Seq l"
      using fr(4) succ_no_wrap [OF max] by (simp add: word_le_nat_alt word_less_nat_alt)
    moreover have "Seq l < mismatch (led ?m) l" using fr(2) True by (auto simp: reaches_def)
    then have "Ancestor (led ?m) (Seq l) = ID l"
      using mismatch_first(1) [OF h hist_led [OF m] l] history_own(3) [OF h l] by simp
    ultimately have "holds l ?m" using True by (simp add: holds_def)
    then show ?thesis
      using None True f holds_branch [OF h l n t fr(1)] by (simp add: BranchSupport_def Let_def)
  next
    case False
    have "\<not> holds l (node_at (root t) p')" if v: "valid (root t) p'" for p'
    proof
      assume hl: "holds l (node_at (root t) p')"
      have "1 \<le> mismatch (led (root t)) l"
        using mismatch_bounds(1) [OF max, of "led (root t)"] by (simp add: word_le_nat_alt)
      then have "diff (s (root t)) l = min (mismatch (led (root t)) l) (stop (s (root t)))"
        using st by (auto simp: diff_def clamp_def min_def)
      then have "p = p'" "q = Seq l + 1"
        using findFrom_held [OF h l n t v hl] f by (simp_all add: find_trie_def)
      then show False using False hl succ_no_wrap [OF max] by (simp add: holds_def word_less_nat_alt)
    qed
    then have "tips (descends U l) (root t) = 0" using not_held [OF h l n t] st by simp
    then show ?thesis using None False f by (auto simp: BranchSupport_def Let_def)
  qed
qed

lemma tips_above: "tnode_ok r n \<Longrightarrow> tipSeq y < start (s n) \<Longrightarrow> tips (\<lambda>x. x = y) n = 0"
proof (induction n arbitrary: r)
  case (TNode sp ts bs cs)
  have "tips (\<lambda>x. x = y) c = 0" if c: "c \<in> set cs" for c
  proof -
    have "c \<in> set (children (TNode sp ts bs cs))" using c by simp
    note tc = tnode_child [OF TNode.prems(1) this]
    have "tipSeq y < start (s c)" using tc TNode.prems(2) by auto
    then show ?thesis using TNode.IH [OF c conjunct1 [OF tc]] by blast
  qed
  moreover have "start sp \<le> stop sp - 1" using TNode.prems(1) by (intro le_pred) simp
  then have "tip sp \<noteq> y" using TNode.prems(2) by (auto simp: tip_def)
  ultimately show ?case by simp
qed

lemma tips_mono: "(\<And>x. P x \<Longrightarrow> Q x) \<Longrightarrow> tips P n \<le> tips Q n"
proof (induction n)
  case (TNode sp ts bs cs)
  have "(\<Sum>c\<leftarrow>cs. tips P c) \<le> (\<Sum>c\<leftarrow>cs. tips Q c)" using TNode by (intro sum_list_mono) auto
  then show ?case using TNode.prems [of "tip sp"] by auto
qed

lemma held_tip:
  "history g U \<Longrightarrow> l \<in> U \<Longrightarrow> hist_ok U n \<Longrightarrow> tnode_ok r n \<Longrightarrow> valid n p \<Longrightarrow>
     holds l (node_at n p) \<Longrightarrow> tip (s (node_at n p)) = ledger_tip l \<Longrightarrow>
     tips (\<lambda>x. x = ledger_tip l) n = unat (tipSupport (node_at n p))"
proof (induction p arbitrary: n r)
  case Nil
  have "tips (\<lambda>x. x = ledger_tip l) c = 0" if c: "c \<in> set (children n)" for c
  proof -
    note tc = tnode_child [OF Nil.prems(4) c]
    have "Seq l < stop (s n)" using Nil.prems(6) by (simp add: holds_def)
    then have "tipSeq (ledger_tip l) < start (s c)" using tc by (simp add: ledger_tip_def)
    then show ?thesis by (rule tips_above [OF conjunct1 [OF tc]])
  qed
  then have "(\<Sum>c\<leftarrow>children n. tips (\<lambda>x. x = ledger_tip l) c) = 0" by simp
  then show ?case using Nil.prems(7) by (simp add: tips_sel [of _ n])
next
  case (Cons i p)
  note h = Cons.prems(1) and l = Cons.prems(2) and n = Cons.prems(3,4)
  note pc = path_child [OF h l n Cons.prems(5,6)]
  have i: "i < length (children n)" "children n ! i \<in> set (children n)" "valid (children n ! i) p"
    using Cons.prems(5) by auto
  have d: "descends U l (ledger_tip l)"
    unfolding descends_def using l history_own(3) [OF h l] by (intro bexI [of _ l]) (simp_all add: ledger_tip_def)
  have "tips (\<lambda>x. x = ledger_tip l) (children n ! j) = 0" if j: "j < length (children n)" "j \<noteq> i" for j
  proof -
    note tj = tnode_child [OF n(2) nth_mem [OF j(1)]]
    have "tips (descends U l) (children n ! j) = 0"
      using tips_below_none [OF h l hist_child [OF n(1) nth_mem [OF j(1)]] conjunct1 [OF tj], of "stop (s n)"]
        tj pc(1) pc(3) [OF j(1)] j(2) by simp
    then show ?thesis using tips_mono [of "\<lambda>x. x = ledger_tip l" "descends U l" "children n ! j"] d by auto
  qed
  then have "(\<Sum>c\<leftarrow>children n. tips (\<lambda>x. x = ledger_tip l) c) = tips (\<lambda>x. x = ledger_tip l) (children n ! i)"
    by (rule sum_list_single [OF i(1)])
  moreover have "tip (s n) \<noteq> ledger_tip l"
    using pc(1) pred_less [of "start (s n)" "stop (s n)"] tnode_child [OF n(2) i(2)]
    by (auto simp: tip_def ledger_tip_def)
  ultimately show ?case
    using Cons.IH [OF h l hist_child [OF n(1) i(2)] conjunct1 [OF tnode_child [OF n(2) i(2)]] i(3)]
      Cons.prems(6,7) by (simp add: tips_sel [of _ n])
qed

lemma TipSupport_exact:
  assumes h: "history g U" and l: "l \<in> U" and n: "hist_ok U (root t)" "tnode_ok True (root t)"
  shows "unat (TipSupport t l) = tips (\<lambda>x. x = ledger_tip l) (root t)"
proof (cases "findByLedgerID t l")
  case None
  then have "tips (\<lambda>x. tipID x = ID l) (root t) = 0"
    using findByIDWalk_None(1) by (simp add: findByLedgerID_def)
  then have "tips (\<lambda>x. x = ledger_tip l) (root t) = 0"
    using tips_mono [of "\<lambda>x. x = ledger_tip l" "\<lambda>x. tipID x = ID l" "root t"] by (simp add: ledger_tip_def)
  then show ?thesis using None by (simp add: TipSupport_def)
next
  case (Some p)
  then show ?thesis
    using found_holds [OF h l n, of p] held_tip [OF h l n, of p]
    by (simp add: TipSupport_def findByLedgerID_def)
qed

end
