(* ===== verification/Ledger_Trie_Lineage.thy ===== *)
theory Ledger_Trie_Lineage
  imports Ledger_Trie_History
begin

text \<open>
  The ancestry trie keeps its relation to the histories of the ledgers: an insertion splits a span where
  the histories part, so that the children of every node start with different ids; a removal only erases
  nodes and joins spans of one history; a preference query only reorders children.
\<close>

section \<open>Insertion\<close>

definition agrees :: "tnode \<Rightarrow> tnode \<Rightarrow> bool" where
  "agrees m n \<longleftrightarrow> start (s m) = start (s n) \<and> (\<forall>k \<le> start (s n). Ancestor (led m) k = Ancestor (led n) k)"

lemma agrees_refl [simp]: "s m = s n \<Longrightarrow> agrees m n"
  by (simp add: agrees_def)

lemma agrees_startID: "agrees m n \<Longrightarrow> startID (s m) = startID (s n)"
  by (simp add: agrees_def startID_def)

lemma hist_update_child:
  assumes "hist_ok U n" "start (s n) < stop (s n)" "i < length (children n)"
    and "start (s (children n ! i)) = stop (s n)" "hist_ok U c" "agrees c (children n ! i)"
    and "m = TNode (s n) ts bs ((children n)[i := c])"
  shows "hist_ok U m"
proof -
  let ?ci = "children n ! i"
  have ci: "?ci \<in> set (children n)" using assms(3) by simp
  have "map (\<lambda>c. startID (s c)) ((children n)[i := c]) = map (\<lambda>c. startID (s c)) (children n)"
    using agrees_startID [OF assms(6)] assms(3) by (simp add: map_update list_update_same_conv)
  moreover have "Ancestor (led c) (stop (s n) - 1) = Ancestor (led n) (stop (s n) - 1)"
  proof -
    have "stop (s n) - 1 \<le> start (s ?ci)" using pred_less [OF assms(2)] assms(4) by simp
    then show ?thesis using assms(1,6) ci by (simp add: agrees_def hist_ok_sel [of U n])
  qed
  ultimately show ?thesis
    using assms(1,5) set_update_subset_insert [of "children n" i c]
    by (auto simp: assms(7) hist_ok_sel [of U n])
qed

lemma hist_graft:
  "hist_ok U n \<Longrightarrow> ctx_ok p r n \<Longrightarrow> hist_ok U (f (node_at n p)) \<Longrightarrow>
     agrees (f (node_at n p)) (node_at n p) \<Longrightarrow> hist_ok U (graft h p f n) \<and> agrees (graft h p f n) n"
proof (induction p arbitrary: n r)
  case (Cons i p)
  have i: "i < length (children n)" "children n ! i \<in> set (children n)" "ctx_ok p False (children n ! i)"
    "start (s n) < stop (s n)" "start (s (children n ! i)) = stop (s n)"
    using Cons.prems(2) by auto
  have "hist_ok U (graft h p f (children n ! i))" "agrees (graft h p f (children n ! i)) (children n ! i)"
    using Cons.IH [OF hist_child [OF Cons.prems(1) i(2)] i(3)] Cons.prems(3,4) by auto
  then show ?case using hist_update_child [OF Cons.prems(1) i(4,1,5)] by simp
qed simp

lemma findFrom_last:
  "findFrom n pos l = (p, q) \<Longrightarrow> q = stop (s (node_at n p)) \<Longrightarrow> c \<in> set (children (node_at n p)) \<Longrightarrow>
     \<not> diff (s c) l > q"
proof (induction n pos l arbitrary: p q rule: findFrom.induct)
  case (1 n pos l)
  let ?P = "\<lambda>c. diff (s c) l > pos"
  show ?case
  proof (cases "pos = stop (s n) \<and> first_index ?P (children n) \<noteq> None")
    case False
    then have "findFrom n pos l = ([], pos)" by (subst findFrom.simps) auto
    then have pq: "p = []" "q = pos" using "1.prems"(1) by simp_all
    then have "first_index ?P (children n) = None" using False "1.prems"(2) by auto
    then show ?thesis using pq "1.prems"(3) by (simp add: first_index_None)
  next
    case True
    then obtain i where i: "first_index ?P (children n) = Some i" and pos: "pos = stop (s n)" by auto
    let ?c = "children n ! i"
    obtain p' where p': "findFrom ?c (diff (s ?c) l) l = (p', q)" "p = i # p'"
      using "1.prems"(1) i pos by (subst (asm) findFrom.simps) (auto simp: Let_def split: prod.splits)
    from "1.IH" [OF pos i refl p'(1)] show ?thesis using "1.prems"(2,3) p'(2) by simp
  qed
qed

lemma startID_span: "startID \<lparr>start = a, stop = b, ledger_of = c\<rparr> = Ancestor c a"
  by (simp add: startID_def)

lemma incLocal_hist:
  assumes h: "history g U" and l: "l \<in> U" and n: "hist_ok U n" "tnode_ok r n"
    and q: "reaches n q l" "start (s n) < q" "q \<le> stop (s n)" "q \<le> Seq l + 1"
    and last: "\<And>c. q = stop (s n) \<Longrightarrow> c \<in> set (children n) \<Longrightarrow> \<not> diff (s c) l > q"
  shows "hist_ok U (incLocal q l cnt n)"
proof -
  have qm: "q \<le> mismatch (led n) l" using q(1) by (simp add: reaches_def)
  have pq: "q - 1 < q" using pred_less [OF q(2)] .
  have below: "Ancestor l (q - 1) = Ancestor (led n) (q - 1)"
    using mismatch_first(1) [OF h hist_led [OF n(1)] l, of "q - 1"] pq qm by simp
  have new: "q \<le> Seq l" if "q < Seq l + 1"
    using that succ_no_wrap [OF history_own(2) [OF h l]] by (simp add: word_le_nat_alt word_less_nat_alt)
  show ?thesis
  proof (cases "q < stop (s n)")
    case True
    then have "mismatch (led n) l = q" using q(1) by (auto simp: reaches_def min_def split: if_splits)
    then have ne: "Ancestor (led n) q \<noteq> Ancestor l q" if "q < Seq l + 1"
      using mismatch_first(2) [OF h hist_led [OF n(1)] l] hist_within [OF h n(1) True] new [OF that] by simp
    have "q \<le> Seq (led n) + 1" using True n(1) by (auto simp: hist_ok_sel [of U n])
    then show ?thesis
      using True ne below n(1) l
      by (auto simp: incLocal_def split_node_def Let_def startID_def hist_ok_sel [of U n])
  next
    case False
    then have st: "q = stop (s n)" using q(3) by simp
    have ne: "startID (s c) \<noteq> Ancestor l q" if c: "c \<in> set (children n)" and lt: "q < Seq l + 1" for c
    proof
      assume eq: "startID (s c) = Ancestor l q"
      note tc = tnode_child [OF n(2) c] and hc = hist_child [OF n(1) c]
      have "q < mismatch (led c) l"
        using less_mismatch [OF h hist_led [OF hc] l hist_within [OF h hc] new [OF lt]] eq tc st
        by (simp add: startID_def)
      then have "q < diff (s c) l" using diff_above(1) [of c l] tc st by simp
      then show False using last [OF st c] by simp
    qed
    then have "q < Seq l + 1 \<Longrightarrow> Ancestor l q \<notin> (\<lambda>c. startID (s c)) ` set (children n)" by force
    then show ?thesis
      using st below n(1) l by (simp add: incLocal_def Let_def startID_span hist_ok_sel [of U n])
  qed
qed

lemma incLocal_agrees: "agrees (incLocal q l cnt n) n"
  by (simp add: agrees_def incLocal_def split_node_def Let_def)

lemma Insert_hist:
  assumes h: "history g U" and l: "l \<in> U" and t: "trie_ok t" "hist_ok U (root t)"
    and i: "Insert t (Some l) cnt = Inr t'"
  shows "hist_ok U (root t')"
proof (cases "cnt = 0")
  case True
  then show ?thesis using i t(2) history_own(2) [OF h l] by (simp add: Insert_def)
next
  case False
  obtain path q where f: "find_trie t l = (path, q)" by fastforce
  note max = history_own(2) [OF h l]
  have ro: "root_ok (root t)" and tn: "tnode_ok True (root t)" using t(1) by (simp_all add: trie_ok_def root_ok_def)
  note fr = find_trie_reaches [OF ro max f]
  let ?loc = "node_at (root t) path"
  have loc: "hist_ok U ?loc" using below_ok [OF t(2) tn fr(1)] by simp
  have "hist_ok U (incLocal q l cnt ?loc)"
    using findFrom_last f by (intro incLocal_hist [OF h l loc fr(3) fr(2) fr(4-6)]) (auto simp: find_trie_def)
  then show ?thesis
    using hist_graft [OF t(2) conjunct1 [OF tnode_ok_ctx [OF tn fr(1)]], of "incLocal q l cnt"] incLocal_agrees
      Insert_step(2) [OF t(1) max False f i] by simp
qed

section \<open>Removal and preference\<close>

lemma distinct_swap_pop: "distinct xs \<Longrightarrow> i < length xs \<Longrightarrow> distinct (swap_pop i xs)"
proof -
  assume d: "distinct xs" and i: "i < length xs"
  have "length (swap_pop i xs) = length xs - 1" by (simp add: swap_pop_def)
  moreover have "xs \<noteq> []" using i by auto
  then have "swap_pop i xs ! j = (if j = i then xs ! (length xs - 1) else xs ! j)" if "j < length xs - 1" for j
    using that i by (simp add: swap_pop_def nth_butlast nth_list_update last_conv_nth)
  ultimately show ?thesis
    using d i by (auto simp: distinct_conv_nth split: if_splits)
qed

lemma map_swap_pop: "i < length xs \<Longrightarrow> map f (swap_pop i xs) = swap_pop i (map f xs)"
  by (cases "xs = []") (simp_all add: swap_pop_def map_butlast map_update last_map)

lemma merge_hist:
  assumes h: "history g U" and loc: "hist_ok U loc" "tnode_ok True loc" and one: "children loc = [child]"
    and m: "m = TNode (mergeSpans (s loc) (s child)) (tipSupport child) (branchSupport child) (children child)"
  shows "hist_ok U m" and "agrees m loc"
proof -
  have c: "child \<in> set (children loc)" using one by simp
  note tc = tnode_child [OF loc(2) c] and hc = hist_child [OF loc(1) c]
  have sp: "mergeSpans (s loc) (s child) =
      \<lparr>start = start (s loc), stop = stop (s child), ledger_of = led child\<rparr>"
    using tc by (auto simp: mergeSpans_def min_def Let_def)
  show "hist_ok U m" using hc by (simp add: m sp hist_ok_sel [of U child])
  have "Ancestor (led child) k = Ancestor (led loc) k" if "k \<le> start (s loc)" for k
    using child_agrees(1) [OF h loc c, of k] that tc by auto
  then show "agrees m loc" by (simp add: agrees_def m sp)
qed

lemma compactStep_hist:
  assumes h: "history g U" and ctx: "ctx_ok [i] r parent" and hp: "hist_ok U parent"
    and ok: "tnode_ok True (children parent ! i)" and step: "compactStep i parent = Some parent'"
  shows "hist_ok U parent'" and "s parent' = s parent"
proof -
  let ?loc = "children parent ! i"
  have i: "i < length (children parent)" "?loc \<in> set (children parent)" "start (s parent) < stop (s parent)"
    "start (s ?loc) = stop (s parent)"
    using ctx by auto
  show "s parent' = s parent"
    using step by (auto simp: compactStep_def eraseChild_def add_child_def Let_def split: list.splits)
  show "hist_ok U parent'"
  proof (cases "children ?loc")
    case Nil
    then have p': "parent' = TNode (s parent) (tipSupport parent) (branchSupport parent)
        (swap_pop i (children parent))"
      using step by (simp add: compactStep_def eraseChild_def Let_def)
    have "distinct (map (\<lambda>c. startID (s c)) (swap_pop i (children parent)))"
      using hp i(1) by (simp add: map_swap_pop distinct_swap_pop hist_ok_sel [of U parent])
    moreover have "set (swap_pop i (children parent)) \<subseteq> set (children parent)"
      using swap_pop_mem [OF _ i(1)] by (auto intro: nth_mem)
    ultimately show ?thesis using hp by (auto simp: p' hist_ok_sel [of U parent])
  next
    case (Cons child rest)
    then have one: "children ?loc = [child]"
      using step by (auto simp: compactStep_def Let_def split: list.splits)
    define m where "m = TNode (mergeSpans (s ?loc) (s child)) (tipSupport child) (branchSupport child)
        (children child)"
    have p': "parent' = TNode (s parent) (tipSupport parent) (branchSupport parent) ((children parent)[i := m])"
      using step one i by (simp add: compactStep_def eraseChild_def add_child_def Let_def swap_pop_append m_def)
    note m = merge_hist [OF h hist_child [OF hp i(2)] ok one m_def]
    show ?thesis by (rule hist_update_child [OF hp i(3,1,4) m p'])
  qed
qed

lemma hist_ctx_at: "hist_ok U n \<Longrightarrow> valid n p \<Longrightarrow> hist_ok U (node_at n p)"
  by (induction p arbitrary: n) (auto intro: hist_child nth_mem)

lemma compactLoop_hist:
  assumes h: "history g U" and "ctx_ok p True n" "tnode_ok True (node_at n p)" "hist_ok U n"
  shows "hist_ok U (compactLoop n p)"
proof -
  have "hist_ok U (update_at (butlast p) (\<lambda>_. parent') n)"
    if "ctx_ok p True n" "tnode_ok True (node_at n p)" "hist_ok U n" "tipSupport (node_at n p) = 0" "p \<noteq> []"
      "compactStep (last p) (node_at n (butlast p)) = Some parent'" for p n parent'
  proof -
    note st = compact_state(6,7) [OF that(1,2,4,5,6) refl]
    have at: "hist_ok U (node_at n (butlast p))" using hist_ctx_at [OF that(3) ctx_ok_valid [OF st(2)]] .
    note cs = compactStep_hist [OF h st(1) at _ that(6), folded node_at_snoc [OF that(5)], OF that(2)]
    show ?thesis using hist_graft [OF that(3) st(2), of "\<lambda>_. parent'" "\<lambda>b. b"] cs by (simp add: update_at_graft)
  qed
  then show ?thesis using compactLoop_rule [OF assms(2,3), of "hist_ok U"] assms(4) by blast
qed

lemma hist_lowered:
  assumes "hist_ok U r" "valid r path" "tnode_ok True r"
  shows "hist_ok U (map_on (\<lambda>b. b - c) path (update_at path (sub_tip c) r))"
proof -
  let ?f = "\<lambda>m. map_on (\<lambda>b. b - c) [] (sub_tip c m)"
  have "hist_ok U (?f (node_at r path))"
    using hist_ctx_at [OF assms(1,2)] by (simp add: sub_tip_def hist_ok_sel [of U "node_at r path"])
  then show ?thesis
    using hist_graft [OF assms(1) conjunct1 [OF tnode_ok_ctx [OF assms(3,2)]], of ?f "\<lambda>b. b - c"]
    by (simp add: map_on_update [OF assms(2)] sub_tip_def)
qed

lemma Remove_hist:
  assumes h: "history g U" and t: "trie_ok t" "hist_ok U (root t)"
    and r: "Remove_trie t l cnt = Inr (found, t')"
  shows "hist_ok U (root t')"
proof (cases "findByLedgerID t l = None \<or> TipSupport t l = 0")
  case True
  then have "Remove_trie t l cnt = Inr (False, t)"
    by (auto simp: Remove_trie_def TipSupport_def Let_def split: option.splits)
  then show ?thesis using t r by simp
next
  case False
  then obtain path where f: "findByLedgerID t l = Some path"
    and nz: "tipSupport (node_at (root t) path) \<noteq> 0" by (auto simp: TipSupport_def)
  have v: "valid (root t) path" using findByIDWalk_Some(1) f by (auto simp: findByLedgerID_def)
  have seq: "Seq l = stop (s (node_at (root t) path)) - 1"
    using r f nz by (auto simp: Remove_trie_def Let_def split: if_splits)
  have ro: "root_ok (root t)" and tn: "tnode_ok True (root t)" using t(1) by (simp_all add: trie_ok_def root_ok_def)
  define c where "c = (if cnt > tipSupport (node_at (root t) path)
      then tipSupport (node_at (root t) path) else cnt)"
  have le: "c \<le> tipSupport (node_at (root t) path)" by (auto simp: c_def)
  have "root t' = compactLoop (map_on (\<lambda>b. b - c) path (update_at path (sub_tip c) (root t))) path"
    using Remove_core [OF t(1) f nz seq c_def] r by auto
  then show ?thesis
    using compactLoop_hist [OF h lowered_ok(1,2) [OF ro v le refl] hist_lowered [OF t(2) v tn]] by simp
qed

lemma preferLoop_hist:
  "preferLoop t li n keys u = Inr (x, n') \<Longrightarrow> hist_ok U n \<Longrightarrow> hist_ok U n' \<and> s n' = s n"
proof (induction t li n keys u arbitrary: x n' rule: preferLoop.induct)
  case (1 t li n keys u)
  obtain q keys' u' where a: "absorbSpan t li n keys u = (q, keys', u')" by (metis prod_cases3)
  obtain cs m where c: "chooseBest (children n) = (cs, m)" by fastforce
  note perm = chooseBest_ok(1) [OF c]
  have "distinct (map (\<lambda>c. startID (s c)) cs)"
    using "1.prems"(2) perm by (metis hist_ok_sel mset_eq_imp_distinct_iff mset_map)
  moreover have "set cs = set (children n)" using perm by (metis set_mset_mset)
  ultimately have re: "hist_ok U (TNode (s n) (tipSupport n) (branchSupport n) cs)"
    using "1.prems"(2) by (simp add: hist_ok_sel [of U n])
  show ?case
  proof (cases "q < stop (s n)")
    case True
    then have "n' = n" using "1.prems"(1) a by (subst (asm) preferLoop.simps) (auto split: option.splits)
    then show ?thesis using "1.prems"(2) by simp
  next
    case False
    show ?thesis
    proof (cases "cs \<noteq> [] \<and> (m > u' \<or> u' = 0)")
      case go: True
      then obtain c' where c': "preferLoop t li (hd cs) keys' u' = Inr (x, c')"
        "n' = TNode (s n) (tipSupport n) (branchSupport n) (c' # tl cs)"
        using "1.prems"(1) a c False by (subst (asm) preferLoop.simps) (auto simp: bindE_eq_Inr)
      have "hist_ok U (hd cs)" using re go hist_child [OF re, of "hd cs"] by simp
      then have k: "hist_ok U c'" "s c' = s (hd cs)"
        using "1.IH" [OF a [symmetric] refl refl _ c [symmetric] refl refl _ c'(1)] False go by blast+
      obtain b bs where cs: "cs = b # bs" using go by (cases cs) auto
      show ?thesis using re k by (simp add: c'(2) cs)
    next
      case stop: False
      then have "n' = TNode (s n) (tipSupport n) (branchSupport n) cs"
        using "1.prems"(1) a c False by (subst (asm) preferLoop.simps) auto
      then show ?thesis using re by simp
    qed
  qed
qed

lemma GetPreferred_hist:
  "GetPreferred t li = Inr (x, t') \<Longrightarrow> hist_ok U (root t) \<Longrightarrow> hist_ok U (root t')"
  by (auto simp: GetPreferred_def bindE_eq_Inr dest!: preferLoop_hist split: if_splits)

end
