(* ===== verification/Ledger_Trie_Properties.thy ===== *)
theory Ledger_Trie_Properties
  imports Ledger_Trie_Lineage
begin

text \<open>
  The properties of the ancestry trie, for every trie that a sequence of its operations reaches, and an
  example on which they are evaluated.
\<close>

section \<open>Reachable tries\<close>

inductive trie_reachable :: "ledger \<Rightarrow> trie \<Rightarrow> bool" for g where
  new: "New_trie (Some g) = Inr t \<Longrightarrow> trie_reachable g t"
| insert: "trie_reachable g t \<Longrightarrow> Insert t ol cnt = Inr t' \<Longrightarrow> trie_reachable g t'"
| remove: "trie_reachable g t \<Longrightarrow> Remove_trie t l cnt = Inr (found, t') \<Longrightarrow> trie_reachable g t'"
| preferred: "trie_reachable g t \<Longrightarrow> GetPreferred t largestIssued = Inr (x, t') \<Longrightarrow> trie_reachable g t'"

lemma GetPreferred_ok:
  assumes "trie_ok t"
  shows "\<exists>x t'. GetPreferred t largestIssued = Inr (x, t') \<and> trie_ok t' \<and> genesis t' = genesis t \<and>
     (x = None \<longleftrightarrow> empty_trie t) \<and> (\<forall>y. x = Some y \<longrightarrow> prefers (root t) y) \<and>
     (\<forall>P. tips P (root t') = tips P (root t)) \<and> branchSupport (root t') = branchSupport (root t) \<and>
     seqSupport t' = seqSupport t \<and> seqKeys t' = seqKeys t"
proof (cases "empty_trie t")
  case True
  then show ?thesis using assms by (simp add: GetPreferred_def)
next
  case False
  have "tnode_ok True (root t)" "sorted_wrt (<) (seqKeys t)"
    using assms by (simp_all add: trie_ok_def root_ok_def seq_ok_def)
  then obtain x r where r: "preferLoop t largestIssued (root t) (seqKeys t) 0 = Inr (x, r)"
    "prefers (root t) x" "tnode_ok True r" "s r = s (root t)" "branchSupport r = branchSupport (root t)"
    "\<And>P. tips P r = tips P (root t)"
    using preferLoop_ok by blast
  have "trie_ok (t\<lparr>root := r\<rparr>)"
    using assms r(3,4,6) by (simp add: trie_ok_def root_ok_def seq_ok_def supportAt_def)
  then show ?thesis using False r by (simp add: GetPreferred_def genesis_def)
qed

lemma trie_reachable_ok: "trie_reachable g t \<Longrightarrow> trie_ok t \<and> genesis t = g"
proof (induction rule: trie_reachable.induct)
  case (new t)
  then show ?case using New_trie_ok by blast
next
  case (insert t ol cnt t')
  then show ?case using Insert_ok by blast
next
  case (remove t l cnt found t')
  then show ?case using Remove_step by metis
next
  case (preferred t largestIssued x t')
  then show ?case using GetPreferred_ok [of t largestIssued] by force
qed

text \<open>What the trie keeps for one ledger: the support of the tips with its sequence and id.\<close>

definition supportOf :: "trie \<Rightarrow> SpanTip \<Rightarrow> nat" where
  "supportOf t x = tips (\<lambda>y. y = x) (root t)"

lemma Insert_tips:
  assumes "trie_ok t" "own_ancestor (genesis t) l" "Insert t (Some l) cnt = Inr t'"
  shows "tips P (root t') = tips P (root t) + (if P (ledger_tip l) then unat cnt else 0)"
proof (cases "cnt = 0")
  case True
  then show ?thesis using assms(3) by (auto simp: Insert_def Let_def split: if_splits)
next
  case False
  obtain path q where f: "find_trie t l = (path, q)" by fastforce
  have max: "Seq l \<noteq> MaxUint32" using assms(3) by (rule contrapos_pn) (simp add: Insert_def)
  have "root_ok (root t)" using assms(1) by (simp add: trie_ok_def)
  then show ?thesis
    using Insert_step(3) [OF assms(1) max False f assms(3), of P] incTip_own [OF _ max f assms(2)] by simp
qed

lemma Insert_panics:
  assumes t: "trie_ok t"
  shows "(\<exists>e. Insert t (Some l) cnt = Inl e) \<longleftrightarrow>
     Seq l = MaxUint32 \<or> cnt \<noteq> 0 \<and> 2 ^ 32 \<le> unat (branchSupport (root t)) + unat cnt"
proof (cases "Seq l = MaxUint32 \<or> cnt = 0")
  case True
  then show ?thesis by (auto simp: Insert_def)
next
  case False
  then have l: "Seq l \<noteq> MaxUint32" "cnt \<noteq> 0" by auto
  obtain path q where f: "find_trie t l = (path, q)" by fastforce
  have ro: "root_ok (root t)" using t by (simp add: trie_ok_def)
  have mem: "root t \<in> set (nodes_on (root t) path)" by (cases path) auto
  have "\<exists>e. Insert t (Some l) cnt = Inl e" if big: "\<not> unat (branchSupport (root t)) + unat cnt < 2 ^ 32"
    unfolding Insert_eq [OF ro l f] using big mem unfolding no_overflow [symmetric] by auto
  then show ?thesis
    using Insert_total [OF t l(1), of cnt] l
    by (cases "unat (branchSupport (root t)) + unat cnt < 2 ^ 32") auto
qed

lemma tips_all: "tnode_ok r n \<Longrightarrow> tips (\<lambda>_. True) n = unat (branchSupport n)"
proof (induction n arbitrary: r)
  case (TNode sp ts bs cs)
  have "(\<Sum>c\<leftarrow>cs. tips (\<lambda>_. True) c) = (\<Sum>c\<leftarrow>cs. unat (branchSupport c))"
    using TNode by (intro arg_cong [where f = sum_list] map_cong) auto
  then show ?case using TNode.prems by simp
qed

lemma tips_zero: "tips P n = 0 \<longleftrightarrow> (\<forall>y. P y \<longrightarrow> tips (\<lambda>z. z = y) n = 0)"
proof (induction n)
  case (TNode sp ts bs cs)
  have "(\<Sum>c\<leftarrow>cs. tips P c) = 0 \<longleftrightarrow> (\<forall>y. P y \<longrightarrow> (\<Sum>c\<leftarrow>cs. tips (\<lambda>z. z = y) c) = 0)"
    using TNode by auto
  then show ?case by auto
qed







section \<open>Properties\<close>

text \<open>
  C11. After any sequence of insertions, removals and preference queries the trie passes the program's own
  \<open>CheckInvariants\<close>: spans are not empty, inner nodes without tip support have at least two children, the
  branch support of a node is its tip support plus that of its children, and the support recorded per
  sequence is the sum over the tips.
\<close>

theorem reachable_CheckInvariants: "trie_reachable g t \<Longrightarrow> CheckInvariants t"
  using trie_reachable_ok CheckInvariants_ok by blast

text \<open>
  C12. An accepted insertion adds the count to the support of the ledger and to no other tip; a removal
  takes the count, or the tip support if that is less, from the support of the ledger and from no other
  tip, and it reports whether the ledger had tip support.  Splits and compactions move no support.
\<close>

theorem Insert_Remove_account:
  assumes "trie_reachable g t" "own_ancestor g l"
  shows "(\<forall>t'. Insert t (Some l) cnt = Inr t' \<longrightarrow>
            (\<forall>x. supportOf t' x = supportOf t x + (if x = ledger_tip l then unat cnt else 0))) \<and>
         (\<forall>found t'. Remove_trie t l cnt = Inr (found, t') \<longrightarrow>
            (found \<longleftrightarrow> TipSupport t l \<noteq> 0) \<and>
            (\<forall>x. supportOf t' x +
                  (if x = ledger_tip l then min (unat cnt) (unat (TipSupport t l)) else 0) =
                supportOf t x))"
proof -
  have t: "trie_ok t" and l: "own_ancestor (genesis t) l" using assms trie_reachable_ok by auto
  have "supportOf t' x = supportOf t x + (if x = ledger_tip l then unat cnt else 0)"
    if "Insert t (Some l) cnt = Inr t'" for t' x
    using Insert_tips [OF t l that, of "\<lambda>y. y = x"] by (auto simp: supportOf_def)
  moreover have "(found \<longleftrightarrow> TipSupport t l \<noteq> 0) \<and>
      supportOf t' x + (if x = ledger_tip l then min (unat cnt) (unat (TipSupport t l)) else 0) =
      supportOf t x" if "Remove_trie t l cnt = Inr (found, t')" for found t' x
    using Remove_step(3) [OF t that] Remove_step(4) [OF t that, of "\<lambda>y. y = x"]
    by (auto simp: supportOf_def)
  ultimately show ?thesis by blast
qed

text \<open>
  C27. The panics of a reachable trie: an insertion panics exactly when the sequence is the largest
  32-bit number or the total support would overflow; a removal panics exactly when the node with the
  ledger's id has tip support at another sequence; a preference query never does.  A panic leaves the
  trie as it was, since every check comes before the first change.
\<close>

theorem trie_panics:
  assumes "trie_reachable g t"
  shows "((\<exists>e. Insert t (Some l) cnt = Inl e) \<longleftrightarrow>
            Seq l = MaxUint32 \<or> cnt \<noteq> 0 \<and> 2 ^ 32 \<le> unat (branchSupport (root t)) + unat cnt) \<and>
         ((\<exists>e. Remove_trie t l cnt = Inl e) \<longleftrightarrow>
            (\<exists>p. findByLedgerID t l = Some p \<and> TipSupport t l \<noteq> 0 \<and>
                 Seq l \<noteq> tipSeq (tip (s (node_at (root t) p))))) \<and>
         (\<exists>r. GetPreferred t largestIssued = Inr r)"
proof -
  have t: "trie_ok t" using assms trie_reachable_ok by blast
  have "(\<exists>e. Remove_trie t l cnt = Inl e) \<longleftrightarrow> TipSupport t l \<noteq> 0 \<and> Seq l \<noteq> tipSeq (tip (s (node_at (root t) p)))"
    if f: "findByLedgerID t l = Some p" for p
  proof (cases "TipSupport t l = 0 \<or> Seq l \<noteq> stop (s (node_at (root t) p)) - 1")
    case True
    then show ?thesis using f by (auto simp: Remove_trie_def TipSupport_def tip_def Let_def)
  next
    case False
    then have "tipSupport (node_at (root t) p) \<noteq> 0" "Seq l = stop (s (node_at (root t) p)) - 1"
      using f by (auto simp: TipSupport_def)
    from Remove_core [OF t f this refl, of cnt] show ?thesis using False by (auto simp: tip_def)
  qed
  moreover have "Remove_trie t l cnt = Inr (False, t)" if "findByLedgerID t l = None"
    using that by (simp add: Remove_trie_def)
  ultimately have "(\<exists>e. Remove_trie t l cnt = Inl e) \<longleftrightarrow>
      (\<exists>p. findByLedgerID t l = Some p \<and> TipSupport t l \<noteq> 0 \<and>
           Seq l \<noteq> tipSeq (tip (s (node_at (root t) p))))"
    by (cases "findByLedgerID t l") auto
  then show ?thesis using Insert_panics [OF t] GetPreferred_ok [OF t, of largestIssued] by blast
qed

text \<open>
  C26. The preferred ledger: there is none exactly when no ledger has support; otherwise it is the tip of
  a part of a span reached from the root by taking at every fork a child that no sibling outranks in
  branch support, ties broken by the id at the start of the span.  The query reorders children and
  changes no support.
\<close>

theorem GetPreferred_follows_rank:
  assumes "trie_reachable g t" "GetPreferred t largestIssued = Inr (x, t')"
  shows "(x = None \<longleftrightarrow> (\<forall>y. supportOf t y = 0)) \<and> (\<forall>y. x = Some y \<longrightarrow> prefers (root t) y) \<and>
         (\<forall>y. supportOf t' y = supportOf t y)"
proof -
  have t: "trie_ok t" using assms trie_reachable_ok by blast
  have "empty_trie t \<longleftrightarrow> (\<forall>y. supportOf t y = 0)"
    using tips_all [of True "root t"] tips_zero [of "\<lambda>_. True" "root t"] t
    by (simp add: empty_trie_def supportOf_def trie_ok_def root_ok_def unat_eq_0)
  then show ?thesis using GetPreferred_ok [OF t, of largestIssued] assms(2) by (auto simp: supportOf_def)
qed


section \<open>An example\<close>

text \<open>Ledgers by the list of their ancestors' ids, and a trie with a fork after the second ledger.\<close>

definition genesis_ledger :: ledger where
  "genesis_ledger = \<lparr>ID = 0, Seq = 0, MinSeq = 0, Ancestor = (\<lambda>_. 0)\<rparr>"

definition chain :: "hash256 list \<Rightarrow> ledger" where
  "chain ids =
     \<lparr>ID = last (0 # ids), Seq = of_nat (length ids), MinSeq = 0,
      Ancestor = (\<lambda>k. if unat k \<le> length ids then (0 # ids) ! unat k else 0)\<rparr>"

definition fork_trie :: "panic + trie" where
  "fork_trie =
     bindE (New_trie (Some genesis_ledger)) (\<lambda>t.
     bindE (Insert t (Some (chain [1, 2, 3])) 1) (\<lambda>t.
     bindE (Insert t (Some (chain [1, 2, 4])) 2) (\<lambda>t.
     Insert t (Some (chain [1, 2])) 1)))"

lemma fork_trie_reachable: "trie_reachable genesis_ledger (projr fork_trie)"
proof -
  have "\<not> isl fork_trie" by code_simp
  then obtain t where t: "fork_trie = Inr t" using sum.collapse(2) by metis
  then have "trie_reachable genesis_ledger t"
    unfolding fork_trie_def bindE_eq_Inr by (blast intro: trie_reachable.new trie_reachable.insert)
  then show ?thesis by (simp add: t)
qed

lemma chain_own: "own_ancestor genesis_ledger (chain [1, 2, 4])"
  by (simp add: own_ancestor_def genesis_ledger_def chain_def)

theorem reachable_CheckInvariants_witness:
  "trie_reachable genesis_ledger (projr fork_trie) \<and> CheckInvariants (projr fork_trie)"
  using reachable_CheckInvariants [OF fork_trie_reachable] fork_trie_reachable by blast

theorem Insert_Remove_account_witness:
  "\<exists>t'. Remove_trie (projr fork_trie) (chain [1, 2, 4]) 3 = Inr (True, t') \<and>
     supportOf t' (ledger_tip (chain [1, 2, 4])) + 2 =
     supportOf (projr fork_trie) (ledger_tip (chain [1, 2, 4]))"
proof -
  have ts: "TipSupport (projr fork_trie) (chain [1, 2, 4]) = 2" by code_simp
  have "\<not> isl (Remove_trie (projr fork_trie) (chain [1, 2, 4]) 3)" by code_simp
  then obtain found t' where r: "Remove_trie (projr fork_trie) (chain [1, 2, 4]) 3 = Inr (found, t')"
    using sum.collapse(2) by (metis surj_pair)
  note acc = conjunct2 [OF Insert_Remove_account [OF fork_trie_reachable chain_own, of 3], rule_format, OF r]
  have "found" using acc ts by simp
  moreover have "supportOf t' (ledger_tip (chain [1, 2, 4])) + 2 =
      supportOf (projr fork_trie) (ledger_tip (chain [1, 2, 4]))"
    using conjunct2 [OF acc, rule_format, of "ledger_tip (chain [1, 2, 4])"] by (simp add: ts)
  ultimately show ?thesis using r by simp
qed

theorem trie_panics_witness:
  "(\<exists>e. Insert (projr fork_trie) (Some (chain [5])) 0xFFFFFFFC = Inl e) \<and>
   \<not> (\<exists>e. Insert (projr fork_trie) (Some (chain [5])) 0xFFFFFFFB = Inl e)"
proof -
  have b: "branchSupport (root (projr fork_trie)) = 4" by code_simp
  have s: "Seq (chain [5]) \<noteq> MaxUint32" by (simp add: chain_def MaxUint32_def)
  show ?thesis
    using trie_panics [OF fork_trie_reachable, of "chain [5]" "0xFFFFFFFC" 0]
      trie_panics [OF fork_trie_reachable, of "chain [5]" "0xFFFFFFFB" 0] b s by simp
qed

theorem GetPreferred_follows_rank_witness:
  "\<exists>x t'. GetPreferred (projr fork_trie) 3 = Inr (Some x, t') \<and> tipID x = 4 \<and>
     prefers (root (projr fork_trie)) x"
proof -
  have ok: "\<not> isl (GetPreferred (projr fork_trie) 3)" by code_simp
  have "map_option tipID (fst (projr (GetPreferred (projr fork_trie) 3))) = Some 4" by code_simp
  moreover obtain x t' where r: "GetPreferred (projr fork_trie) 3 = Inr (x, t')"
    using ok sum.collapse(2) by (metis surj_pair)
  ultimately obtain y where "x = Some y" "tipID y = 4" by auto
  then show ?thesis using GetPreferred_follows_rank [OF fork_trie_reachable r] r by auto
qed












end
