(* ===== verification/Spec2Isabelle.thy ===== *)
theory Spec2Isabelle
  imports Serdes Shamap_Compare Txq_Properties Ledger_Trie_Properties
begin

text \<open>
  A verification of parts of go-xrpl, an implementation of an XRP Ledger node in Go.

  \<^bold>\<open>The program.\<close>  A node keeps the ledger state and the transactions of a ledger in SHAMaps
  (\<^verbatim>\<open>src/shamap\<close>), Merkle radix trees of sixteen branches whose root hash names their contents.  Nodes of
  a SHAMap travel between peers and are stored in a database in the byte formats of that package.
  Transactions and ledger entries are serialised by the binary codec (\<^verbatim>\<open>src/codec/binarycodec\<close>).  A
  submitted transaction whose fee does not reach the escalated fee of the open ledger waits in the
  transaction queue (\<^verbatim>\<open>src/internal/txq\<close>); the queue follows the closed ledgers to set the fee, and it
  moves candidates into each new open ledger.  Consensus follows the ledger the trusted validators
  prefer, which it finds in a trie of the ancestry of the ledgers they validated
  (\<^verbatim>\<open>src/internal/consensus/ledgertrie\<close>).

  \<^bold>\<open>Conventions.\<close>  A 32-byte array is a \<open>256 word\<close> and a 20-byte array a \<open>160 word\<close>, most significant
  byte first, so that the order of words is \<^verbatim>\<open>bytes.Compare\<close>; a byte slice is a list of bytes; \<^verbatim>\<open>uint32\<close>
  and \<^verbatim>\<open>uint64\<close> are words of their width and wrap as in Go; lengths and indices, which Go keeps in an
  \<^verbatim>\<open>int\<close>, are natural numbers.  An error or a panic is a value of an error type on the left of a sum.  Code outside
  the repository is a parameter: SHA-512Half is a function argument \<open>H\<close>, the field table of the binary
  codec, the transaction codec and the open ledger are records of functions.  Locks, contexts and
  logging are not modelled: each operation is one step on its state.

  \<^bold>\<open>Theories and the code they model.\<close>
    \<^item> \<open>Xrpl_Prelude\<close>: words, bytes, nibbles, the error monad, lemma collections.
    \<^item> \<open>Serdes\<close>: \<^verbatim>\<open>codec/binarycodec/serdes\<close>, the parser, the length prefix, field headers and the writing
      of fields.  Prefix and header are canonical codes: the parser accepts exactly what the encoder
      writes.
    \<^item> \<open>Keypath\<close>: \<^verbatim>\<open>shamap/keypath.go\<close> and \<^verbatim>\<open>node_id.go\<close>, the path of a key through the tree.
    \<^item> \<open>Shamap_Node\<close>: \<^verbatim>\<open>node.go\<close>, \<^verbatim>\<open>item.go\<close>, \<^verbatim>\<open>leaf.go\<close>, \<^verbatim>\<open>inner_node.go\<close>, \<^verbatim>\<open>store.go\<close>: nodes, their hashes, the wire
      and the store format with every error branch, and their round trips.
    \<^item> \<open>Shamap_Ops\<close>: \<^verbatim>\<open>shamap.go\<close>, \<^verbatim>\<open>traverse.go\<close>, \<^verbatim>\<open>mutation.go\<close>, \<^verbatim>\<open>snapshot.go\<close>: construction, lookup, insertion,
      deletion with its consolidation, atomic batches, snapshots.
      Also the leaf walks, \<open>ForEach\<close>, \<open>Size\<close> and the iterators of \<^verbatim>\<open>iteration.go\<close> and \<^verbatim>\<open>iterator.go\<close>: a Go callback
      is a function on the state it closes over.
    \<^item> \<open>Shamap_Inv\<close>, \<open>Shamap_Spec\<close>, \<open>Shamap_Contract\<close>: the well-formedness invariant, its preservation, the
      abstraction to a finite map, and the contract: the operations refine update and removal, the root
      hash is a function of the contents and (unless two hashed preimages collide) determines them.
    \<^item> \<open>Shamap_Iter\<close>: the walks feed a callback the leaves in key order; both bounds are instances of one
      search, the locale \<open>bound_search\<close>, and the iterators end after exactly the items they promise.
    \<^item> \<open>Shamap_Proof\<close>: \<^verbatim>\<open>proof.go\<close>, Merkle paths.  Every key of a map has a path that verifies, and a path that
      verifies proves what the map holds, unless two hashed preimages collide.
    \<^item> \<open>Shamap_Compare\<close>: \<^verbatim>\<open>compare.go\<close> and \<^verbatim>\<open>difference.go\<close>.  The walk over pairs of nodes, which skips subtrees of equal
      hash, reports exactly the keys whose data differ, up to the maximum number asked for.
    \<^item> \<open>Fee_Metrics\<close>: \<^verbatim>\<open>txq/config.go\<close> and \<^verbatim>\<open>txq/fee.go\<close>: fee levels, the metrics of closed ledgers, the escalated
      fee and the fee of a series, at the width of the code.
    \<^item> \<open>Txq_State\<close>: \<^verbatim>\<open>txq/candidate.go\<close>, \<^verbatim>\<open>txq.go\<close>, \<^verbatim>\<open>process.go\<close>: candidates in an explicit heap, the three
      indices of the queue, closed ledgers, the queries.
    \<^item> \<open>Txq_Accept\<close>: \<^verbatim>\<open>txq/accept.go\<close>, the pass that moves candidates into the open ledger.
    \<^item> \<open>Txq_Apply\<close>: \<^verbatim>\<open>txq/apply.go\<close> and \<^verbatim>\<open>submission.go\<close>, the submission of a transaction.
    \<^item> \<open>Txq_Inv\<close>: the invariant of the queue (the three indices hold the same candidates, each once, and the
      fee order is sorted) and the elementary operations that keep it.
    \<^item> \<open>Txq_Select\<close>: the selections over an account's queue, which walk Go maps, do not depend on the order of
      the walk; the average fee level; the first gap in the sequences of an account.
    \<^item> \<open>Txq_Passes\<close>, \<open>Txq_Admit\<close>, \<open>Txq_Contract\<close>: closed ledgers, passes and submissions keep the invariant;
      every outcome of a submission; the states that any sequence of them reaches; the order of a pass.
    \<^item> \<open>Txq_Properties\<close>: the properties of the queue and an example on which they are evaluated.
    \<^item> \<open>Ledger_Trie\<close>: \<^verbatim>\<open>consensus/ledgertrie/span.go\<close> and \<^verbatim>\<open>trie.go\<close>: spans of ancestry, the trie with its insertion,
      removal, queries and its own consistency check.  A pointer to a node is its path from the root.
    \<^item> \<open>Ledger_Trie_Inv\<close>, \<open>Ledger_Trie_Support\<close>: the binary search for the first difference of two histories, the
      invariant of the trie, its preservation by splits and compactions, and that it implies \<open>CheckInvariants\<close>.
    \<^item> \<open>Ledger_Trie_Prefer\<close>: the walk of \<open>GetPreferred\<close>, which reorders children and never panics.
    \<^item> \<open>Ledger_Trie_History\<close>, \<open>Ledger_Trie_Lineage\<close>: tries over ledgers with a unique history known from sequence
      one.  \<open>find\<close> reaches the node that holds a ledger, the children of a node start with different ids, and
      the operations keep this.
    \<^item> \<open>Ledger_Trie_Properties\<close>: the tries that any sequence of operations reaches, their properties and an example.

  \<^bold>\<open>Bounds and fuel.\<close>  The descents through a SHAMap are functions with fuel, which report \<open>OutOfFuel\<close>
  when it ends; a path has at most 64 nibbles, and on well-formed maps the fuel of 65 that the
  operations pass is proved to be enough, so that no theorem about them rests on an exhausted fuel.
  The loops that compare two maps take their fuel as an argument; the number of nodes of the two trees is
  proved to be enough.
  The pass of \<open>Accept\<close>, the binary searches and the walks of the ancestry trie are total functions with
  termination proofs.

  \<^bold>\<open>Not modelled.\<close>  The loading of SHAMap children from a store and the acquisition of missing nodes
  over the network (concurrent, budgeted walks over shared trees), the walk that releases children while
  it visits them, the transactors of the transaction engine, ledger entries, the rounds of consensus and
  the tracking of validations around the ancestry trie, the text and JSON dumps of the trie, the peer
  network, the RPC servers and the storage engines.
\<close>

end
